(* ===== verification/Prelude.thy ===== *)
theory Prelude
  imports "HOL-Library.Finite_Map" "HOL-Library.Word"
begin

text \<open>
  Shared vocabulary of the development: how a Go computation ends (\<open>res\<close>), pointer
  dereference, signed 64-bit wrap-around, Go maps as finite maps, and the generic lemmas on
  them that the component theories use through the simplifier.
\<close>

named_theorems go_defs \<open>small glue definitions that component proofs unfold together\<close>

section \<open>How a Go computation ends\<close>

text \<open>
  A Go function either returns, panics (the process dies, since nothing in the program
  recovers) or calls \<open>log.Fatal\<close> (the process exits).
\<close>

datatype panic =
    Nil_Dereference
  | Index_Out_Of_Range
  | Slice_Out_Of_Range
  | Nil_Map_Write
  | Send_On_Closed
  | Close_Of_Closed
  | Check_Error
  | Unreachable

datatype go_error = Panic panic | Log_Fatal

type_synonym 'a res = "go_error + 'a"

fun rbind :: "'a res \<Rightarrow> ('a \<Rightarrow> 'b res) \<Rightarrow> 'b res" where
  "rbind (Inl e) f = Inl e"
| "rbind (Inr x) f = f x"

definition deref :: "'a option \<Rightarrow> 'a res" where
  "deref p = (case p of None \<Rightarrow> Inl (Panic Nil_Dereference) | Some x \<Rightarrow> Inr x)"

fun returns :: "'a res \<Rightarrow> bool" where
  "returns (Inl e) = False"
| "returns (Inr x) = True"

lemma deref_simps [simp]:
  "deref None = Inl (Panic Nil_Dereference)"
  "deref (Some x) = Inr x"
  by (simp_all add: deref_def)

lemma rbind_Inr_iff: "rbind m f = Inr y \<longleftrightarrow> (\<exists>x. m = Inr x \<and> f x = Inr y)"
  by (cases m) auto

lemma rbind_InrE [elim!]:
  assumes "rbind m f = Inr y"
  obtains x where "m = Inr x" and "f x = Inr y"
  using assms by (auto simp: rbind_Inr_iff)

lemma deref_Inr_iff [simp]: "deref p = Inr x \<longleftrightarrow> p = Some x"
  by (cases p) auto

lemma returns_iff: "returns m \<longleftrightarrow> (\<exists>x. m = Inr x)"
  by (cases m) auto

lemma rbind_cong [fundef_cong]:
  "m = n \<Longrightarrow> (\<And>x. n = Inr x \<Longrightarrow> f x = g x) \<Longrightarrow> rbind m f = rbind n g"
  by (cases n) auto

section \<open>Signed 64-bit integers\<close>

text \<open>
  Values of type \<open>int64\<close> are integers; the arithmetic that could leave the range of the
  type is written with \<open>wrap64\<close>, two's complement wrap-around.
\<close>

definition wrap64 :: "int \<Rightarrow> int" where
  "wrap64 x = (x + 2 ^ 63) mod 2 ^ 64 - 2 ^ 63"

definition is_int64 :: "int \<Rightarrow> bool" where
  "is_int64 x \<longleftrightarrow> - (2 ^ 63) \<le> x \<and> x < 2 ^ 63"

lemma wrap64_range: "is_int64 (wrap64 x)"
proof -
  have "0 \<le> (x + 2 ^ 63) mod 2 ^ 64" and "(x + 2 ^ 63) mod 2 ^ 64 < 2 ^ 64"
    by simp_all
  then show ?thesis by (simp add: is_int64_def wrap64_def)
qed

lemma wrap64_id: "is_int64 x \<Longrightarrow> wrap64 x = x"
  by (simp add: is_int64_def wrap64_def)

lemma wrap64_succ: "- (2 ^ 63) \<le> x \<Longrightarrow> x < 2 ^ 63 - 1 \<Longrightarrow> wrap64 (x + 1) = x + 1"
  by (intro wrap64_id) (simp add: is_int64_def)

lemma wrap64_max: "wrap64 (2 ^ 63 - 1 + 1) = - (2 ^ 63)"
  by (simp add: wrap64_def)

section \<open>Go maps\<close>

text \<open>
  A Go map is a finite map; \<open>fmsize\<close> is Go's \<open>len\<close>. Reading a missing key gives the
  zero value of the element type.
\<close>

abbreviation fmsize :: "('k, 'v) fmap \<Rightarrow> nat" where
  "fmsize m \<equiv> fcard (fmdom m)"

definition fm_index :: "'v \<Rightarrow> ('k, 'v) fmap \<Rightarrow> 'k \<Rightarrow> 'v" where
  "fm_index zero m k = (case fmlookup m k of None \<Rightarrow> zero | Some v \<Rightarrow> v)"

lemma fm_index_simps [simp]:
  "fmlookup m k = None \<Longrightarrow> fm_index z m k = z"
  "fmlookup m k = Some v \<Longrightarrow> fm_index z m k = v"
  "fm_index z (fmupd k v m) k' = (if k = k' then v else fm_index z m k')"
  "fm_index z fmempty k = z"
  by (simp_all add: fm_index_def)

lemma fmsize_upd: "fmsize (fmupd k v m) = (if fmlookup m k = None then Suc (fmsize m) else fmsize m)"
  by (auto simp: fcard_finsert_if fmlookup_dom_iff)

lemma fmsize_drop:
  "fmsize (fmdrop k m) = (if fmlookup m k = None then fmsize m else fmsize m - 1)"
proof (cases "fmlookup m k")
  case None
  then have "fmdrop k m = m" by (simp add: fmdrop_idle fmdom_notI)
  with None show ?thesis by simp
next
  case (Some v)
  then have "k \<in> fset (fmdom m)" by (rule fmdomI)
  then have "card (fset (fmdom m) - {k}) = card (fset (fmdom m)) - 1"
    by (simp add: card_Diff_singleton)
  with Some show ?thesis by (simp add: fcard.rep_eq)
qed

section \<open>Runs of a labelled step relation\<close>

inductive runs :: "('s \<Rightarrow> 'l \<Rightarrow> 's \<Rightarrow> bool) \<Rightarrow> 's \<Rightarrow> 'l list \<Rightarrow> 's \<Rightarrow> bool"
  for step where
  runs_nil: "runs step s [] s"
| runs_cons: "step s l s1 \<Longrightarrow> runs step s1 ls s2 \<Longrightarrow> runs step s (l # ls) s2"

inductive_simps runs_simps [simp]:
  "runs step s [] s'"
  "runs step s (l # ls) s'"

lemma runs_invariant:
  assumes "runs step s ls s'" and "P s" and "\<And>s l s'. step s l s' \<Longrightarrow> P s \<Longrightarrow> P s'"
  shows "P s'"
  using assms by (induction rule: runs.induct) auto

lemma runs_append: "runs step s (ls @ ks) s' \<longleftrightarrow> (\<exists>s1. runs step s ls s1 \<and> runs step s1 ks s')"
  by (induction ls arbitrary: s) auto

lemma runs_snoc: "runs step s ls s1 \<Longrightarrow> step s1 l s2 \<Longrightarrow> runs step s (ls @ [l]) s2"
  by (auto simp: runs_append)

lemma runs_mono:
  assumes "runs step s ls s'" and "\<And>s l s'. step s l s' \<Longrightarrow> step' s l s'"
  shows "runs step' s ls s'"
  using assms by (induction rule: runs.induct) auto

text \<open>Reflexive and transitive facts about single steps hold of runs.\<close>

lemma runs_relation:
  assumes "runs step s ls s'" and "\<And>s. R s s" and "\<And>s t u. R s t \<Longrightarrow> R t u \<Longrightarrow> R s u"
    and "\<And>s l s'. step s l s' \<Longrightarrow> R s s'"
  shows "R s s'"
  using assms(1) by (induction rule: runs.induct) (blast intro: assms(2-4))+

end
