(* ===== verification/Proto.thy ===== *)
theory Proto
  imports Prelude
begin

text \<open>
  The protobuf messages (\<open>proto/*.proto\<close>, generated into \<open>pb/*.pb.go\<close>) as records, with
  the generated getters the program calls. A pointer field is an \<open>option\<close> (\<open>None\<close> is
  \<open>nil\<close>), a \<open>uint32\<close> a \<open>32 word\<close>, an \<open>int64\<close> an \<open>int\<close>, a oneof a datatype under
  an \<open>option\<close>. The maps of a group keep the difference between \<open>nil\<close> and empty, because
  writing to a \<open>nil\<close> map panics; \<open>LikedBy\<close> does not need it (the code makes the map
  before it writes). Message pointers in the slices of log entries are never \<open>nil\<close>.
\<close>

type_synonym uint32 = "32 word"

section \<open>user.proto and chat.proto\<close>

record User =
  user_Id :: uint32
  user_Name :: string

record Logout =
  logout_User :: "User option"
  logout_Currgroup :: string

record ChatMessage =
  msg_MessagedBy :: "User option"
  msg_Message :: string
  msg_LikedBy :: "(string, string) fmap"

record Group =
  grp_GroupID :: uint32
  grp_Groupname :: string
  grp_Participants :: "(uint32, string) fmap option"
  grp_Messages :: "(uint32, ChatMessage option) fmap option"

record JoinChat =
  join_Joineduser :: "User option"
  join_Newgroup :: string
  join_Currgroup :: string

record AppendChat =
  app_Chatmessage :: "ChatMessage option"
  app_Group :: "Group option"

record LikeMessage =
  like_Likeduser :: "User option"
  like_Messageid :: uint32
  like_Group :: "Group option"

record UnLikeMessage =
  unlike_Unlikeduser :: "User option"
  unlike_Messageid :: uint32
  unlike_Group :: "Group option"

record PrintChat =
  print_User :: "User option"
  print_Groupname :: string

definition empty_User :: User where
  "empty_User = \<lparr>user_Id = 0, user_Name = []\<rparr>"

definition empty_Group :: Group where
  "empty_Group = \<lparr>grp_GroupID = 0, grp_Groupname = [], grp_Participants = None, grp_Messages = None\<rparr>"

definition User_GetId :: "User option \<Rightarrow> uint32" where
  "User_GetId x = (case x of Some u \<Rightarrow> user_Id u | None \<Rightarrow> 0)"

definition User_GetName :: "User option \<Rightarrow> string" where
  "User_GetName x = (case x of Some u \<Rightarrow> user_Name u | None \<Rightarrow> [])"

definition Group_GetGroupname :: "Group option \<Rightarrow> string" where
  "Group_GetGroupname x = (case x of Some g \<Rightarrow> grp_Groupname g | None \<Rightarrow> [])"

definition Group_GetParticipants :: "Group option \<Rightarrow> (uint32, string) fmap option" where
  "Group_GetParticipants x = (case x of Some g \<Rightarrow> grp_Participants g | None \<Rightarrow> None)"

definition Group_GetMessages :: "Group option \<Rightarrow> (uint32, ChatMessage option) fmap option" where
  "Group_GetMessages x = (case x of Some g \<Rightarrow> grp_Messages g | None \<Rightarrow> None)"

text \<open>A \<open>nil\<close> map reads, ranges and measures as an empty one.\<close>

definition nil_empty :: "('k, 'v) fmap option \<Rightarrow> ('k, 'v) fmap" where
  "nil_empty m = (case m of None \<Rightarrow> fmempty | Some f \<Rightarrow> f)"

lemma nil_empty_simps [simp]: "nil_empty None = fmempty" "nil_empty (Some f) = f"
  by (simp_all add: nil_empty_def)

lemma getter_simps [simp]:
  "User_GetId (Some u) = user_Id u" "User_GetId None = 0"
  "User_GetName (Some u) = user_Name u" "User_GetName None = []"
  "Group_GetGroupname (Some g) = grp_Groupname g"
  "Group_GetParticipants (Some g) = grp_Participants g"
  "Group_GetMessages (Some g) = grp_Messages g"
  by (simp_all add: User_GetId_def User_GetName_def Group_GetGroupname_def
      Group_GetParticipants_def Group_GetMessages_def)

section \<open>raft.proto\<close>

datatype CommandAction =
    Command_Append "AppendChat option"
  | Command_Like "LikeMessage option"
  | Command_Unlike "UnLikeMessage option"
  | Command_Print "PrintChat option"
  | Command_Logout "Logout option"
  | Command_Joinchat "JoinChat option"
  | Command_Login "User option"

record Command =
  cmd_Action :: "CommandAction option"
  cmd_Event :: string

definition Command_GetAppend :: "Command \<Rightarrow> AppendChat option" where
  "Command_GetAppend x = (case cmd_Action x of Some (Command_Append a) \<Rightarrow> a | _ \<Rightarrow> None)"

definition Command_GetLike :: "Command \<Rightarrow> LikeMessage option" where
  "Command_GetLike x = (case cmd_Action x of Some (Command_Like a) \<Rightarrow> a | _ \<Rightarrow> None)"

definition Command_GetUnlike :: "Command \<Rightarrow> UnLikeMessage option" where
  "Command_GetUnlike x = (case cmd_Action x of Some (Command_Unlike a) \<Rightarrow> a | _ \<Rightarrow> None)"

definition Command_GetLogout :: "Command \<Rightarrow> Logout option" where
  "Command_GetLogout x = (case cmd_Action x of Some (Command_Logout a) \<Rightarrow> a | _ \<Rightarrow> None)"

definition Command_GetJoinchat :: "Command \<Rightarrow> JoinChat option" where
  "Command_GetJoinchat x = (case cmd_Action x of Some (Command_Joinchat a) \<Rightarrow> a | _ \<Rightarrow> None)"

definition Command_GetLogin :: "Command \<Rightarrow> User option" where
  "Command_GetLogin x = (case cmd_Action x of Some (Command_Login a) \<Rightarrow> a | _ \<Rightarrow> None)"

lemmas Command_getters =
  Command_GetAppend_def Command_GetLike_def Command_GetUnlike_def
  Command_GetLogout_def Command_GetJoinchat_def Command_GetLogin_def

record LogEntry =
  le_Command :: "Command option"
  le_Term :: int

record AppendEntriesRequest =
  ae_Term :: int
  ae_LeaderId :: int
  ae_PrevLogIndex :: int
  ae_PrevLogTerm :: int
  ae_Entries :: "LogEntry list"
  ae_LeaderCommit :: int

record AppendEntriesResponse =
  aer_Term :: int
  aer_Success :: bool
  aer_ConflictIndex :: int
  aer_ConflictTerm :: int

record RequestVoteRequest =
  rv_Term :: int
  rv_CandidateId :: int
  rv_LastLogIndex :: int
  rv_LastLogTerm :: int

record RequestVoteResponse =
  rvr_Term :: int
  rvr_VoteGranted :: bool

record ForwardLeaderRequest =
  fl_Command :: "Command option"

record ForwardLeaderResponse =
  flr_Success :: bool
  flr_LeaderId :: int

text \<open>The zero value of a reply (\<open>&pb.XResponse{}\<close>).\<close>

definition zero_AppendEntriesResponse :: AppendEntriesResponse where
  "zero_AppendEntriesResponse =
     \<lparr>aer_Term = 0, aer_Success = False, aer_ConflictIndex = 0, aer_ConflictTerm = 0\<rparr>"

definition zero_RequestVoteResponse :: RequestVoteResponse where
  "zero_RequestVoteResponse = \<lparr>rvr_Term = 0, rvr_VoteGranted = False\<rparr>"

definition zero_ForwardLeaderResponse :: ForwardLeaderResponse where
  "zero_ForwardLeaderResponse = \<lparr>flr_Success = False, flr_LeaderId = 0\<rparr>"

section \<open>chat\_service.proto\<close>

record ServerViewRequest =
  svr_Event :: string

record ServerViewResponse =
  sv_Peerservers :: "int list"

datatype GroupChatAction =
    GroupChatRequest_Append "AppendChat option"
  | GroupChatRequest_Like "LikeMessage option"
  | GroupChatRequest_Unlike "UnLikeMessage option"
  | GroupChatRequest_Print "PrintChat option"
  | GroupChatRequest_Logout "Logout option"
  | GroupChatRequest_Joinchat "JoinChat option"
  | GroupChatRequest_Serverview "ServerViewRequest option"

record GroupChatRequest =
  req_Action :: "GroupChatAction option"

record GroupChatResponse =
  resp_Group :: "Group option"
  resp_Event :: string

record LoginRequest =
  loginreq_User :: "User option"

record LoginResponse =
  loginresp_User :: "User option"

record LogoutRequest =
  logoutreq_Logout :: "Logout option"

record LogoutResponse =
  logoutresp_Status :: bool

definition GetJoinchat :: "GroupChatRequest \<Rightarrow> JoinChat option" where
  "GetJoinchat x = (case req_Action x of Some (GroupChatRequest_Joinchat a) \<Rightarrow> a | _ \<Rightarrow> None)"

end
