(* ===== verification/GoStrings.thy ===== *)
theory GoStrings
  imports Prelude
begin

text \<open>
  The part of Go's \<open>strings\<close> and \<open>strconv\<close> packages that the program calls, on byte
  strings (\<open>char list\<close>): \<open>strings.Trim\<close>, \<open>TrimSpace\<close>, \<open>Split\<close>, \<open>Join\<close> and
  \<open>Contains\<close> with a one-byte separator, \<open>strconv.Itoa\<close> and
  \<open>strconv.ParseUint(s, 10, 32)\<close>. The round trips at the end are what the command parsers
  of the client and the storage keys of the server rest on.
\<close>

section \<open>Trimming\<close>

definition strings_Trim :: "string \<Rightarrow> char list \<Rightarrow> string" where
  "strings_Trim s cutset =
     rev (dropWhile (\<lambda>c. c \<in> set cutset) (rev (dropWhile (\<lambda>c. c \<in> set cutset) s)))"

text \<open>
  The UTF-8 encodings of the runes for which \<open>unicode.IsSpace\<close> holds: tab, line feed,
  vertical tab, form feed, carriage return, space, U+0085, U+00A0, U+1680, U+2000 to U+200A,
  U+2028, U+2029, U+202F, U+205F and U+3000.
\<close>

definition space_encodings :: "string list" where
  "space_encodings =
     [[CHR 0x09], [CHR 0x0A], [CHR 0x0B], [CHR 0x0C], [CHR 0x0D], [CHR 0x20],
      [CHR 0xC2, CHR 0x85], [CHR 0xC2, CHR 0xA0], [CHR 0xE1, CHR 0x9A, CHR 0x80]]
     @ map (\<lambda>n. [CHR 0xE2, CHR 0x80, char_of n]) ([0x80..<0x8B] @ [0xA8, 0xA9, 0xAF])
     @ [[CHR 0xE2, CHR 0x81, CHR 0x9F], [CHR 0xE3, CHR 0x80, CHR 0x80]]"

fun strip_one :: "string list \<Rightarrow> string \<Rightarrow> string option" where
  "strip_one [] s = None"
| "strip_one (p # ps) s =
     (if p \<noteq> [] \<and> take (length p) s = p then Some (drop (length p) s) else strip_one ps s)"

lemma strip_one_shorter: "strip_one ps s = Some t \<Longrightarrow> length t < length s"
proof (induction ps)
  case (Cons p ps)
  show ?case
  proof (cases "p \<noteq> [] \<and> take (length p) s = p")
    case True
    then have "length p \<le> length s" by (metis length_take min.absorb_iff1 min.commute)
    with True Cons.prems show ?thesis by (cases p; cases s) auto
  next
    case False
    with Cons show ?thesis by (simp split: if_splits)
  qed
qed simp

function strip_all :: "string list \<Rightarrow> string \<Rightarrow> string" where
  "strip_all ps s = (case strip_one ps s of None \<Rightarrow> s | Some t \<Rightarrow> strip_all ps t)"
  by pat_completeness auto
termination
  by (relation "measure (\<lambda>(ps, s). length s)") (auto dest: strip_one_shorter)

declare strip_all.simps [simp del]

definition strings_TrimSpace :: "string \<Rightarrow> string" where
  "strings_TrimSpace s =
     rev (strip_all (map rev space_encodings) (rev (strip_all space_encodings s)))"

section \<open>Splitting and joining\<close>

fun strings_Split :: "string \<Rightarrow> char \<Rightarrow> string list" where
  "strings_Split [] sep = [[]]"
| "strings_Split (c # cs) sep =
     (if c = sep then [] # strings_Split cs sep
      else (case strings_Split cs sep of [] \<Rightarrow> [[c]] | w # ws \<Rightarrow> (c # w) # ws))"

fun strings_Join :: "string list \<Rightarrow> char \<Rightarrow> string" where
  "strings_Join [] sep = []"
| "strings_Join [w] sep = w"
| "strings_Join (w # v # ws) sep = w @ sep # strings_Join (v # ws) sep"

definition strings_Contains :: "string \<Rightarrow> char \<Rightarrow> bool" where
  "strings_Contains s c = (c \<in> set s)"

lemma strings_Split_ne [simp]: "strings_Split s sep \<noteq> []"
  by (induction s) (auto split: list.splits)

lemma strings_Join_Cons: "ws \<noteq> [] \<Longrightarrow> strings_Join (w # ws) sep = w @ sep # strings_Join ws sep"
  by (cases ws) auto

theorem Join_Split: "strings_Join (strings_Split s sep) sep = s"
proof (induction s)
  case (Cons c cs)
  show ?case
  proof (cases "c = sep")
    case True
    with Cons show ?thesis by (simp add: strings_Join_Cons)
  next
    case False
    obtain w ws where "strings_Split cs sep = w # ws"
      by (meson list.exhaust strings_Split_ne)
    with False Cons show ?thesis by (cases ws) auto
  qed
qed simp

lemma Split_no_sep: "sep \<notin> set s \<Longrightarrow> strings_Split s sep = [s]"
  by (induction s) auto

lemma Split_prefix: "sep \<notin> set w \<Longrightarrow> strings_Split (w @ sep # s) sep = w # strings_Split s sep"
  by (induction w) auto

text \<open>What the command loops rely on: a word, the separator, then an arbitrary rest.\<close>

lemma Split_command:
  assumes "sep \<notin> set w"
  shows "hd (strings_Split (w @ sep # s) sep) = w"
    and "strings_Join (tl (strings_Split (w @ sep # s) sep)) sep = s"
  using assms by (simp_all add: Split_prefix Join_Split)

lemma length_Split_pos: "length (strings_Split s sep) > 1 \<longleftrightarrow> sep \<in> set s"
proof (induction s)
  case (Cons c cs)
  obtain w ws where eq: "strings_Split cs sep = w # ws" by (meson list.exhaust strings_Split_ne)
  with Cons show ?case by auto
qed simp

section \<open>Decimal numerals\<close>

definition digit_char :: "nat \<Rightarrow> char" where
  "digit_char d = char_of (48 + d)"

fun Itoa :: "nat \<Rightarrow> string" where
  "Itoa n = (if n < 10 then [digit_char n] else Itoa (n div 10) @ [digit_char (n mod 10)])"

declare Itoa.simps [simp del]

definition Itoa_int :: "int \<Rightarrow> string" where
  "Itoa_int i = (if i < 0 then CHR ''-'' # Itoa (nat (- i)) else Itoa (nat i))"

definition is_digit :: "char \<Rightarrow> bool" where
  "is_digit c \<longleftrightarrow> 48 \<le> (of_char c :: nat) \<and> (of_char c :: nat) \<le> 57"

definition digit_val :: "char \<Rightarrow> nat" where
  "digit_val c = of_char c - 48"

text \<open>
  \<open>ParseUint(s, 10, 32)\<close> returns a value and an error: 0 with a syntax error, the largest
  value with a range error at the first digit that exceeds it.
\<close>

datatype parse_err = No_Err | Err_Syntax | Err_Range

definition max_uint32 :: nat where
  "max_uint32 = 2 ^ 32 - 1"

fun parse_digits :: "nat \<Rightarrow> string \<Rightarrow> nat \<times> parse_err" where
  "parse_digits n [] = (n, No_Err)"
| "parse_digits n (c # cs) =
     (if \<not> is_digit c then (0, Err_Syntax)
      else if n * 10 + digit_val c > max_uint32 then (max_uint32, Err_Range)
      else parse_digits (n * 10 + digit_val c) cs)"

definition ParseUint32 :: "string \<Rightarrow> nat \<times> parse_err" where
  "ParseUint32 s = (if s = [] then (0, Err_Syntax) else parse_digits 0 s)"

lemma is_digit_digit_char [simp]: "d < 10 \<Longrightarrow> is_digit (digit_char d)"
  by (simp add: is_digit_def digit_char_def of_char_of)

lemma digit_val_digit_char [simp]: "d < 10 \<Longrightarrow> digit_val (digit_char d) = d"
  by (simp add: digit_val_def digit_char_def of_char_of)

lemma Itoa_ne [simp]: "Itoa n \<noteq> []"
  by (subst Itoa.simps) simp

lemma Itoa_digits: "c \<in> set (Itoa n) \<Longrightarrow> is_digit c"
proof (induction n arbitrary: c rule: Itoa.induct)
  case (1 n)
  then show ?case by (cases "n < 10") (auto simp: Itoa.simps [of n])
qed

lemma parse_digits_append:
  "parse_digits n s = (m, No_Err) \<Longrightarrow> parse_digits n (s @ t) = parse_digits m t"
  by (induction s arbitrary: n) (auto split: if_splits)

lemma parse_digits_Itoa: "n \<le> max_uint32 \<Longrightarrow> parse_digits 0 (Itoa n) = (n, No_Err)"
proof (induction n rule: Itoa.induct)
  case (1 n)
  show ?case
  proof (cases "n < 10")
    case True
    with "1.prems" show ?thesis by (simp add: Itoa.simps [of n])
  next
    case False
    with "1" have "parse_digits 0 (Itoa (n div 10)) = (n div 10, No_Err)" by simp
    with False "1.prems" show ?thesis
      by (simp add: Itoa.simps [of n] parse_digits_append)
  qed
qed

theorem ParseUint32_Itoa: "n \<le> max_uint32 \<Longrightarrow> ParseUint32 (Itoa n) = (n, No_Err)"
  by (simp add: ParseUint32_def parse_digits_Itoa)

lemma parse_digits_bound: "n \<le> max_uint32 \<Longrightarrow> fst (parse_digits n s) \<le> max_uint32"
  by (induction s arbitrary: n) auto

theorem ParseUint32_bound: "fst (ParseUint32 s) \<le> max_uint32"
  using parse_digits_bound [of 0 s] by (simp add: ParseUint32_def)

text \<open>The value of a numeral, and with it the injectivity of \<open>Itoa\<close>.\<close>

definition digits_value :: "string \<Rightarrow> nat" where
  "digits_value s = foldl (\<lambda>n c. n * 10 + digit_val c) 0 s"

lemma digits_value_Itoa: "digits_value (Itoa n) = n"
proof (induction n rule: Itoa.induct)
  case (1 n)
  then show ?case
    by (cases "n < 10") (auto simp: Itoa.simps [of n] digits_value_def)
qed

lemma Itoa_inj [simp]: "Itoa m = Itoa n \<longleftrightarrow> m = n"
  by (metis digits_value_Itoa)

lemma unat_eq_iff [simp]: "unat a = unat b \<longleftrightarrow> a = b"
  by (simp add: word_unat_eq_iff)

lemma Itoa_int_inj [simp]: "Itoa_int i = Itoa_int j \<longleftrightarrow> i = j"
proof -
  have "CHR ''-'' \<notin> set (Itoa n)" for n
  proof
    assume "CHR ''-'' \<in> set (Itoa n)"
    then have "is_digit (CHR ''-'')" by (rule Itoa_digits)
    then show False by (simp add: is_digit_def)
  qed
  then have ne: "Itoa n \<noteq> CHR ''-'' # s" for n s by (metis list.set_intros(1))
  show ?thesis
    by (auto simp: Itoa_int_def ne ne [symmetric])
qed

end
