(* ===== verification/Storage.thy ===== *)
theory Storage
  imports Proto GoStrings
begin

text \<open>
  \<open>server/storage.go\<close>: the disk store of one server, with the application data (users and
  groups in one key space) and the replicated log in two key-value databases.

  The databases (raft-badger), the struct copier (jinzhu/copier) and the group id generator
  (google/uuid) are code outside the repository: they are the fields of a record \<open>deps\<close>
  that every operation takes, the group id an argument, and what the code relies on is stated
  by \<open>badger_ok\<close>, \<open>badger_writable\<close> and \<open>copier_ok\<close>.
\<close>

section \<open>Encoded values\<close>

text \<open>
  \<open>encoding/gob\<close> writes the type of a value in front of it and decodes by field names, so
  an encoded byte string is represented by the value it encodes, tagged with its type. A
  \<open>nil\<close> element of a map cannot be encoded (\<open>Encode\<close> returns an error); a struct with no
  field in common with the target cannot be decoded, after the target has been allocated.
\<close>

datatype gob =
    Gob_User User
  | Gob_Group Group
  | Gob_Int64 int
  | Gob_Log "LogEntry list"

definition group_encodable :: "Group \<Rightarrow> bool" where
  "group_encodable g \<longleftrightarrow> fmpred (\<lambda>_ m. m \<noteq> None) (nil_empty (grp_Messages g))"

fun group_opt_encodable :: "Group option \<Rightarrow> bool" where
  "group_opt_encodable None = True"
| "group_opt_encodable (Some g) = group_encodable g"

fun action_encodable :: "CommandAction option \<Rightarrow> bool" where
  "action_encodable (Some (Command_Append (Some a))) = group_opt_encodable (app_Group a)"
| "action_encodable (Some (Command_Like (Some a))) = group_opt_encodable (like_Group a)"
| "action_encodable (Some (Command_Unlike (Some a))) = group_opt_encodable (unlike_Group a)"
| "action_encodable _ = True"

definition log_encodable :: "LogEntry list \<Rightarrow> bool" where
  "log_encodable es \<longleftrightarrow>
     (\<forall>e \<in> set es. case le_Command e of None \<Rightarrow> True | Some c \<Rightarrow> action_encodable (cmd_Action c))"

definition gob_encode_Group :: "Group \<Rightarrow> gob res" where
  "gob_encode_Group g = (if group_encodable g then Inr (Gob_Group g) else Inl Log_Fatal)"

fun gob_decode_User :: "gob \<Rightarrow> User option \<times> bool" where
  "gob_decode_User (Gob_User u) = (Some u, True)"
| "gob_decode_User (Gob_Group g) = (Some empty_User, False)"
| "gob_decode_User _ = (None, False)"

fun gob_decode_Group :: "gob \<Rightarrow> Group option \<times> bool" where
  "gob_decode_Group (Gob_Group g) = (Some g, True)"
| "gob_decode_Group (Gob_User u) = (Some empty_Group, False)"
| "gob_decode_Group _ = (None, False)"

section \<open>What the store relies on\<close>

text \<open>
  \<open>Get\<close> gives \<open>None\<close> for an error (a missing key); \<open>Set\<close> and \<open>Delete\<close> give whether
  they succeeded and the database afterwards. \<open>Copy\<close> gives \<open>None\<close> for an error.
\<close>

record 's deps =
  badger_Get :: "'s \<Rightarrow> string \<Rightarrow> gob option"
  badger_Set :: "'s \<Rightarrow> string \<Rightarrow> gob \<Rightarrow> bool \<times> 's"
  badger_Delete :: "'s \<Rightarrow> string \<Rightarrow> bool \<times> 's"
  copier_User :: "User option \<Rightarrow> User option"
  copier_Group :: "Group \<Rightarrow> Group option"

definition badger_ok :: "'s deps \<Rightarrow> bool" where
  "badger_ok D \<longleftrightarrow>
     (\<forall>s k v s'. badger_Set D s k v = (True, s') \<longrightarrow>
        (\<forall>k'. badger_Get D s' k' = (if k' = k then Some v else badger_Get D s k'))) \<and>
     (\<forall>s k s'. badger_Delete D s k = (True, s') \<longrightarrow>
        (\<forall>k'. badger_Get D s' k' = (if k' = k then None else badger_Get D s k')))"

definition badger_writable :: "'s deps \<Rightarrow> bool" where
  "badger_writable D \<longleftrightarrow>
     (\<forall>s k v. k \<noteq> [] \<longrightarrow> fst (badger_Set D s k v)) \<and>
     (\<forall>s k. k \<noteq> [] \<longrightarrow> fst (badger_Delete D s k))"

definition copier_ok :: "'s deps \<Rightarrow> bool" where
  "copier_ok D \<longleftrightarrow> (\<forall>u. copier_User D (Some u) = Some u) \<and> (\<forall>g. copier_Group D g = Some g)"

definition deps_ok :: "'s deps \<Rightarrow> bool" where
  "deps_ok D \<longleftrightarrow> badger_ok D \<and> badger_writable D \<and> copier_ok D"

text \<open>A database in memory that keeps these contracts and, as badger does, refuses the empty key.\<close>

definition mem_deps :: "(string \<rightharpoonup> gob) deps" where
  "mem_deps =
     \<lparr>badger_Get = (\<lambda>s k. s k),
      badger_Set = (\<lambda>s k v. if k = [] then (False, s) else (True, s(k \<mapsto> v))),
      badger_Delete = (\<lambda>s k. if k = [] then (False, s) else (True, s(k := None))),
      copier_User = (\<lambda>u. u),
      copier_Group = Some\<rparr>"

lemma mem_deps_ok [simp]: "deps_ok mem_deps"
  by (simp add: deps_ok_def badger_ok_def badger_writable_def copier_ok_def mem_deps_def)

lemma mem_deps_simps [simp]:
  "badger_Get mem_deps s k = s k"
  "badger_Set mem_deps s k v = (if k = [] then (False, s) else (True, s(k \<mapsto> v)))"
  "badger_Delete mem_deps s k = (if k = [] then (False, s) else (True, s(k := None)))"
  "copier_User mem_deps u = u"
  "copier_Group mem_deps g = Some g"
  by (simp_all add: mem_deps_def)

lemma badger_SetE:
  assumes "deps_ok D" and "badger_Set D s k v = (True, s')"
  shows "badger_Get D s' k' = (if k' = k then Some v else badger_Get D s k')"
  using assms by (auto simp: deps_ok_def badger_ok_def)

lemma badger_DeleteE:
  assumes "deps_ok D" and "badger_Delete D s k = (True, s')"
  shows "badger_Get D s' k' = (if k' = k then None else badger_Get D s k')"
  using assms by (auto simp: deps_ok_def badger_ok_def)

lemma badger_Set_ok: "deps_ok D \<Longrightarrow> k \<noteq> [] \<Longrightarrow> \<exists>s'. badger_Set D s k v = (True, s')"
  by (auto simp: deps_ok_def badger_writable_def) (metis (full_types) prod.collapse)

lemma badger_Delete_ok: "deps_ok D \<Longrightarrow> k \<noteq> [] \<Longrightarrow> \<exists>s'. badger_Delete D s k = (True, s')"
  by (auto simp: deps_ok_def badger_writable_def) (metis (full_types) prod.collapse)

lemma copier_simps: "deps_ok D \<Longrightarrow> copier_User D (Some u) = Some u"
  "deps_ok D \<Longrightarrow> copier_Group D g = Some g"
  by (simp_all add: deps_ok_def copier_ok_def)

section \<open>The store and its user operations\<close>

record 's DiskStore =
  diskstore :: 's
  replicatedlog :: 's

definition NewDiskStore :: "(string \<Rightarrow> 's option) \<Rightarrow> int \<Rightarrow> 's DiskStore res" where
  "NewDiskStore open_db serverId =
     (let path = ''server/diskstore/server'' @ Itoa_int serverId
      in case open_db path of
           None \<Rightarrow> Inl (Panic Check_Error)
         | Some app \<Rightarrow>
             (case open_db (path @ ''/raft'') of
                None \<Rightarrow> Inl (Panic Check_Error)
              | Some rft \<Rightarrow> Inr \<lparr>diskstore = app, replicatedlog = rft\<rparr>))"

text \<open>\<open>SaveUser\<close> returns whether its error is \<open>nil\<close>.\<close>

definition SaveUser :: "'s deps \<Rightarrow> User option \<Rightarrow> 's DiskStore \<Rightarrow> (bool \<times> 's DiskStore) res" where
  "SaveUser D user store =
     (case copier_User D user of
        None \<Rightarrow> Inr (False, store)
      | Some usercopy \<Rightarrow>
          (case badger_Set D (diskstore store) (Itoa (unat (user_Id usercopy))) (Gob_User usercopy) of
             (ok, s') \<Rightarrow>
               if ok then Inr (True, store\<lparr>diskstore := s'\<rparr>) else Inl (Panic Check_Error)))"

definition GetUser :: "'s deps \<Rightarrow> uint32 \<Rightarrow> 's DiskStore \<Rightarrow> User option" where
  "GetUser D userId store =
     (case badger_Get D (diskstore store) (Itoa (unat userId)) of
        None \<Rightarrow> None
      | Some usr \<Rightarrow> fst (gob_decode_User usr))"

definition DeleteUser :: "'s deps \<Rightarrow> uint32 \<Rightarrow> 's DiskStore \<Rightarrow> 's DiskStore res" where
  "DeleteUser D userId store =
     (case badger_Delete D (diskstore store) (Itoa (unat userId)) of
        (ok, s') \<Rightarrow> if ok then Inr (store\<lparr>diskstore := s'\<rparr>) else Inl (Panic Check_Error))"

section \<open>Group operations\<close>

definition GetGroup :: "'s deps \<Rightarrow> string \<Rightarrow> 's DiskStore \<Rightarrow> Group option \<times> bool" where
  "GetGroup D groupname store =
     (case badger_Get D (diskstore store) groupname of
        None \<Rightarrow> (None, False)
      | Some grp \<Rightarrow> gob_decode_Group grp)"

definition UpdateGroup ::
  "'s deps \<Rightarrow> string \<Rightarrow> Group \<Rightarrow> 's DiskStore \<Rightarrow> (bool \<times> 's DiskStore) res" where
  "UpdateGroup D groupname grp store =
     (case copier_Group D grp of
        None \<Rightarrow> Inr (False, store)
      | Some groupcopy \<Rightarrow>
          rbind (gob_encode_Group groupcopy) (\<lambda>bytes.
            case badger_Set D (diskstore store) groupname bytes of
              (ok, s') \<Rightarrow>
                if ok then Inr (True, store\<lparr>diskstore := s'\<rparr>) else Inl (Panic Check_Error)))"

definition new_group :: "uint32 \<Rightarrow> string \<Rightarrow> User option \<Rightarrow> Group" where
  "new_group gid groupname user =
     \<lparr>grp_GroupID = gid, grp_Groupname = groupname,
      grp_Participants = Some (fmupd (User_GetId user) (User_GetName user) fmempty),
      grp_Messages = Some fmempty\<rparr>"

definition JoinGroup ::
  "'s deps \<Rightarrow> uint32 \<Rightarrow> string \<Rightarrow> User option \<Rightarrow> 's DiskStore \<Rightarrow> 's DiskStore res" where
  "JoinGroup D gid groupname user store =
     rbind (case GetGroup D groupname store of
              (Some grp, True) \<Rightarrow>
                (case grp_Participants grp of
                   None \<Rightarrow> Inl (Panic Nil_Map_Write)
                 | Some ps \<Rightarrow>
                     UpdateGroup D groupname
                       (grp\<lparr>grp_Participants := Some (fmupd (User_GetId user) (User_GetName user) ps)\<rparr>)
                       store)
            | _ \<Rightarrow> Inr (False, store))
       (\<lambda>(updated, store1).
          if updated then Inr store1
          else rbind (UpdateGroup D groupname (new_group gid groupname user) store1)
                 (\<lambda>(_, store2). Inr store2))"

definition RemoveUserInGroup ::
  "'s deps \<Rightarrow> uint32 \<Rightarrow> string \<Rightarrow> 's DiskStore \<Rightarrow> (bool \<times> 's DiskStore) res" where
  "RemoveUserInGroup D userID groupname store =
     (case GetGroup D groupname store of
        (Some grp, True) \<Rightarrow>
          (case grp_Participants grp of
             None \<Rightarrow> Inr (True, store)
           | Some ps \<Rightarrow>
               if fm_index [] ps userID = [] then Inr (True, store)
               else UpdateGroup D groupname (grp\<lparr>grp_Participants := Some (fmdrop userID ps)\<rparr>) store)
      | _ \<Rightarrow> Inr (True, store))"

definition AppendMessage ::
  "'s deps \<Rightarrow> AppendChat option \<Rightarrow> 's DiskStore \<Rightarrow> 's DiskStore res" where
  "AppendMessage D appendchat store =
     rbind (deref appendchat) (\<lambda>a.
     rbind (deref (app_Group a)) (\<lambda>agroup.
       let groupname = grp_Groupname agroup; message = app_Chatmessage a
       in case GetGroup D groupname store of
            (Some grp, True) \<Rightarrow>
              (case grp_Messages grp of
                 None \<Rightarrow> Inl (Panic Nil_Map_Write)
               | Some ms \<Rightarrow>
                   rbind (UpdateGroup D groupname
                            (grp\<lparr>grp_Messages := Some (fmupd (of_nat (fmsize ms)) message ms)\<rparr>) store)
                     (\<lambda>(_, store'). Inr store'))
          | _ \<Rightarrow> Inr store))"

text \<open>
  The value stored for a like is the one just read for the missing key, the empty string.
\<close>

definition LikeMessage :: "'s deps \<Rightarrow> LikeMessage option \<Rightarrow> 's DiskStore \<Rightarrow> 's DiskStore res" where
  "LikeMessage D likemessage store =
     rbind (deref likemessage) (\<lambda>l.
     rbind (deref (like_Group l)) (\<lambda>lgroup.
       let groupname = grp_Groupname lgroup
       in case GetGroup D groupname store of
            (Some grp, True) \<Rightarrow>
              (let ms = nil_empty (grp_Messages grp); n = like_Messageid l
               in case fmlookup ms n of
                    None \<Rightarrow> Inr store
                  | Some mptr \<Rightarrow>
                      rbind (deref mptr) (\<lambda>message.
                      rbind (deref (msg_MessagedBy message)) (\<lambda>author.
                      rbind (deref (like_Likeduser l)) (\<lambda>user.
                        if user_Name author = user_Name user then Inr store
                        else if fmlookup (msg_LikedBy message) (user_Name user) \<noteq> None then Inr store
                        else rbind (UpdateGroup D groupname
                                      (grp\<lparr>grp_Messages := Some (fmupd n (Some (message\<lparr>msg_LikedBy :=
                                         fmupd (user_Name user) [] (msg_LikedBy message)\<rparr>)) ms)\<rparr>) store)
                               (\<lambda>(_, store'). Inr store')))))
          | _ \<Rightarrow> Inr store))"

definition UnLikeMessage :: "'s deps \<Rightarrow> UnLikeMessage option \<Rightarrow> 's DiskStore \<Rightarrow> 's DiskStore res" where
  "UnLikeMessage D unlikemessage store =
     rbind (deref unlikemessage) (\<lambda>l.
     rbind (deref (unlike_Group l)) (\<lambda>lgroup.
       let groupname = grp_Groupname lgroup
       in case GetGroup D groupname store of
            (Some grp, True) \<Rightarrow>
              (let ms = nil_empty (grp_Messages grp); n = unlike_Messageid l
               in case fmlookup ms n of
                    None \<Rightarrow> Inr store
                  | Some mptr \<Rightarrow>
                      rbind (deref mptr) (\<lambda>message.
                      rbind (deref (msg_MessagedBy message)) (\<lambda>author.
                      rbind (deref (unlike_Unlikeduser l)) (\<lambda>user.
                        if user_Name author = user_Name user then Inr store
                        else if fmlookup (msg_LikedBy message) (user_Name user) = None then Inr store
                        else rbind (UpdateGroup D groupname
                                      (grp\<lparr>grp_Messages := Some (fmupd n (Some (message\<lparr>msg_LikedBy :=
                                         fmdrop (user_Name user) (msg_LikedBy message)\<rparr>)) ms)\<rparr>) store)
                               (\<lambda>(_, store'). Inr store')))))
          | _ \<Rightarrow> Inr store))"

section \<open>The replicated log\<close>

text \<open>Only the error of the first of the three writes is looked at.\<close>

definition SetState ::
  "'s deps \<Rightarrow> int \<Rightarrow> int \<Rightarrow> LogEntry list \<Rightarrow> 's DiskStore \<Rightarrow> 's DiskStore res" where
  "SetState D term voted logs store =
     (case badger_Set D (replicatedlog store) ''currentTerm'' (Gob_Int64 term) of
        (ok, r1) \<Rightarrow>
          if \<not> ok then Inl (Panic Check_Error)
          else
            let r2 = snd (badger_Set D r1 ''votedFor'' (Gob_Int64 voted))
            in if \<not> log_encodable logs then Inl Log_Fatal
               else Inr (store\<lparr>replicatedlog := snd (badger_Set D r2 ''log'' (Gob_Log logs))\<rparr>))"

fun decode_Int64 :: "gob option \<Rightarrow> int res" where
  "decode_Int64 (Some (Gob_Int64 i)) = Inr i"
| "decode_Int64 _ = Inl Log_Fatal"

fun decode_Log :: "gob option \<Rightarrow> LogEntry list res" where
  "decode_Log (Some (Gob_Log es)) = Inr es"
| "decode_Log _ = Inl Log_Fatal"

definition GetState :: "'s deps \<Rightarrow> 's DiskStore \<Rightarrow> (int \<times> int \<times> LogEntry list) res" where
  "GetState D store =
     rbind (decode_Int64 (badger_Get D (replicatedlog store) ''currentTerm'')) (\<lambda>term.
     rbind (decode_Int64 (badger_Get D (replicatedlog store) ''votedFor'')) (\<lambda>voted.
     rbind (decode_Log (badger_Get D (replicatedlog store) ''log'')) (\<lambda>logs.
       Inr (term, voted, logs))))"

definition HasData :: "'s deps \<Rightarrow> 's DiskStore \<Rightarrow> bool res" where
  "HasData D store =
     (case badger_Get D (replicatedlog store) ''log'' of
        None \<Rightarrow> Inr False
      | Some v \<Rightarrow> rbind (decode_Log (Some v)) (\<lambda>logs. Inr (logs \<noteq> [])))"

end
