(* ===== verification/Raft_State.thy ===== *)
theory Raft_State
  imports Storage
begin

text \<open>
  \<open>server/raft.go\<close>, the consensus module of one server: its state, the helpers, start-up
  and persistence. The record keeps the fields of the Go struct; besides, \<open>cm_spawned\<close> holds
  the goroutines started by \<open>go\<close> statements and not finished and the callers of \<open>Submit\<close> that
  have left its critical section, \<open>cm_votes\<close> the captured
  counters \<open>votesReceived\<close> by election, and a channel is the number of values in it. A send
  to a full channel delays its goroutine until the receiver takes a value; the model lets the
  send complete. Time is in milliseconds.
\<close>

datatype CMState = Follower | Candidate | Leader | Dead

fun CMState_String :: "CMState \<Rightarrow> string" where
  "CMState_String Follower = ''Follower''"
| "CMState_String Candidate = ''Candidate''"
| "CMState_String Leader = ''Leader''"
| "CMState_String Dead = ''Dead''"

datatype goroutine =
    Go_MainLoop
  | Go_RunElectionTimer bool
  | Go_ElectionTimer bool int int
  | Go_RequestVote int nat int
  | Go_AwaitVote int nat int
  | Go_StartLeader
  | Go_LeaderStart
  | Go_LeaderLoop
  | Go_SendAE int int
  | Go_AwaitAE int int int nat
  | Go_Forward "Command option"
  | Go_AwaitForward "Command option" int
  | Go_CommitChanSender
  | Go_Submitted

record CommitEntry =
  ce_Command :: "Command option"
  ce_Index :: int
  ce_Term :: int

record 's ConsensusModule =
  cm_id :: int
  cm_leaderid :: int
  cm_peerIds :: "int list"
  cm_storage :: "'s DiskStore"
  cm_currentTerm :: int
  cm_votedFor :: int
  cm_log :: "LogEntry list"
  cm_commitIndex :: int
  cm_lastApplied :: int
  cm_state :: CMState
  cm_electionResetEvent :: int
  cm_nextIndex :: "(int, int) fmap"
  cm_matchIndex :: "(int, int) fmap"
  cm_newCommitReady :: nat
  cm_newCommitClosed :: bool
  cm_triggerAE :: nat
  cm_elections :: nat
  cm_votes :: "nat \<Rightarrow> int"
  cm_spawned :: "goroutine list"

section \<open>Helpers\<close>

definition spawn :: "goroutine list \<Rightarrow> 's ConsensusModule \<Rightarrow> 's ConsensusModule" where
  "spawn gs cm = cm\<lparr>cm_spawned := cm_spawned cm @ gs\<rparr>"

definition intMin :: "int \<Rightarrow> int \<Rightarrow> int" where
  "intMin a b = (if a < b then a else b)"

definition lastLogIndexAndTerm :: "'s ConsensusModule \<Rightarrow> int \<times> int" where
  "lastLogIndexAndTerm cm =
     (if length (cm_log cm) > 0
      then (let lastIndex = length (cm_log cm) - 1
            in (int lastIndex, le_Term (cm_log cm ! lastIndex)))
      else (-1, -1))"

definition becomeFollower :: "int \<Rightarrow> int \<Rightarrow> 's ConsensusModule \<Rightarrow> 's ConsensusModule" where
  "becomeFollower now term cm =
     spawn [Go_RunElectionTimer False]
       (cm\<lparr>cm_state := Follower, cm_currentTerm := term, cm_votedFor := -1,
          cm_electionResetEvent := now\<rparr>)"

definition Report :: "'s ConsensusModule \<Rightarrow> int \<times> int \<times> bool" where
  "Report cm = (cm_id cm, cm_currentTerm cm, cm_state cm = Leader)"

definition signal_newCommitReady :: "'s ConsensusModule \<Rightarrow> 's ConsensusModule res" where
  "signal_newCommitReady cm =
     (if cm_newCommitClosed cm then Inl (Panic Send_On_Closed)
      else Inr (cm\<lparr>cm_newCommitReady := Suc (cm_newCommitReady cm)\<rparr>))"

definition Stop :: "'s ConsensusModule \<Rightarrow> 's ConsensusModule res" where
  "Stop cm =
     (if cm_newCommitClosed cm then Inl (Panic Close_Of_Closed)
      else Inr (cm\<lparr>cm_state := Dead, cm_newCommitClosed := True\<rparr>))"

section \<open>Persistence and start-up\<close>

definition persistToStorage :: "'s deps \<Rightarrow> 's ConsensusModule \<Rightarrow> 's ConsensusModule res" where
  "persistToStorage D cm =
     rbind (SetState D (cm_currentTerm cm) (cm_votedFor cm) (cm_log cm) (cm_storage cm))
       (\<lambda>store. Inr (cm\<lparr>cm_storage := store\<rparr>))"

definition restoreFromStorage :: "'s deps \<Rightarrow> 's ConsensusModule \<Rightarrow> 's ConsensusModule res" where
  "restoreFromStorage D cm =
     rbind (GetState D (cm_storage cm)) (\<lambda>(term, votedFor, logs).
       Inr (cm\<lparr>cm_currentTerm := term, cm_votedFor := votedFor, cm_log := logs\<rparr>))"

definition init_cm :: "int \<Rightarrow> int list \<Rightarrow> 's DiskStore \<Rightarrow> 's ConsensusModule" where
  "init_cm ident peers store =
     \<lparr>cm_id = ident, cm_leaderid = -1, cm_peerIds = peers, cm_storage = store,
      cm_currentTerm = 0, cm_votedFor = -1, cm_log = [], cm_commitIndex = -1,
      cm_lastApplied = -1, cm_state = Follower, cm_electionResetEvent = 0,
      cm_nextIndex = fmempty, cm_matchIndex = fmempty, cm_newCommitReady = 0,
      cm_newCommitClosed = False, cm_triggerAE = 0, cm_elections = 0, cm_votes = (\<lambda>_. 0),
      cm_spawned = []\<rparr>"

definition NewConsensusModule ::
  "'s deps \<Rightarrow> (string \<Rightarrow> 's option) \<Rightarrow> int \<Rightarrow> int list \<Rightarrow> 's ConsensusModule res" where
  "NewConsensusModule D open_db ident peers =
     rbind (NewDiskStore open_db ident) (\<lambda>store.
     rbind (HasData D store) (\<lambda>has.
     rbind (if has then restoreFromStorage D (init_cm ident peers store)
            else Inr (init_cm ident peers store)) (\<lambda>cm.
       Inr (spawn [Go_MainLoop, Go_CommitChanSender] cm))))"

lemmas cm_helper_defs = spawn_def becomeFollower_def

lemma spawn_simps [simp]:
  "cm_id (spawn gs cm) = cm_id cm" "cm_leaderid (spawn gs cm) = cm_leaderid cm"
  "cm_peerIds (spawn gs cm) = cm_peerIds cm" "cm_storage (spawn gs cm) = cm_storage cm"
  "cm_currentTerm (spawn gs cm) = cm_currentTerm cm" "cm_votedFor (spawn gs cm) = cm_votedFor cm"
  "cm_log (spawn gs cm) = cm_log cm" "cm_commitIndex (spawn gs cm) = cm_commitIndex cm"
  "cm_lastApplied (spawn gs cm) = cm_lastApplied cm" "cm_state (spawn gs cm) = cm_state cm"
  "cm_nextIndex (spawn gs cm) = cm_nextIndex cm" "cm_matchIndex (spawn gs cm) = cm_matchIndex cm"
  "cm_newCommitReady (spawn gs cm) = cm_newCommitReady cm"
  "cm_newCommitClosed (spawn gs cm) = cm_newCommitClosed cm"
  "cm_triggerAE (spawn gs cm) = cm_triggerAE cm" "cm_elections (spawn gs cm) = cm_elections cm"
  "cm_votes (spawn gs cm) = cm_votes cm" "cm_spawned (spawn gs cm) = cm_spawned cm @ gs"
  "cm_electionResetEvent (spawn gs cm) = cm_electionResetEvent cm"
  by (simp_all add: spawn_def)

lemma becomeFollower_simps [simp]:
  "cm_id (becomeFollower now t cm) = cm_id cm"
  "cm_leaderid (becomeFollower now t cm) = cm_leaderid cm"
  "cm_peerIds (becomeFollower now t cm) = cm_peerIds cm"
  "cm_storage (becomeFollower now t cm) = cm_storage cm"
  "cm_currentTerm (becomeFollower now t cm) = t"
  "cm_votedFor (becomeFollower now t cm) = -1"
  "cm_log (becomeFollower now t cm) = cm_log cm"
  "cm_commitIndex (becomeFollower now t cm) = cm_commitIndex cm"
  "cm_lastApplied (becomeFollower now t cm) = cm_lastApplied cm"
  "cm_state (becomeFollower now t cm) = Follower"
  "cm_nextIndex (becomeFollower now t cm) = cm_nextIndex cm"
  "cm_matchIndex (becomeFollower now t cm) = cm_matchIndex cm"
  "cm_newCommitReady (becomeFollower now t cm) = cm_newCommitReady cm"
  "cm_newCommitClosed (becomeFollower now t cm) = cm_newCommitClosed cm"
  "cm_elections (becomeFollower now t cm) = cm_elections cm"
  "cm_votes (becomeFollower now t cm) = cm_votes cm"
  by (simp_all add: becomeFollower_def)

lemma persistToStorage_frame:
  "persistToStorage D cm = Inr cm' \<Longrightarrow> \<exists>store. cm' = cm\<lparr>cm_storage := store\<rparr>"
  by (auto simp: persistToStorage_def)

section \<open>The interface of the raft storage\<close>

text \<open>
  What the consensus module expects of the storage of its persistent state: after a
  successful \<open>put\<close>, \<open>get\<close> returns what was put, and \<open>has\<close> says whether there is anything to
  restore.
\<close>

locale stable_state =
  fixes invar :: "'d \<Rightarrow> bool"
    and put :: "int \<Rightarrow> int \<Rightarrow> LogEntry list \<Rightarrow> 'd \<Rightarrow> 'd res"
    and get :: "'d \<Rightarrow> (int \<times> int \<times> LogEntry list) res"
    and has :: "'d \<Rightarrow> bool res"
  assumes get_put: "invar d \<Longrightarrow> put t v l d = Inr d' \<Longrightarrow> get d' = Inr (t, v, l)"
    and has_put: "invar d \<Longrightarrow> put t v l d = Inr d' \<Longrightarrow> has d' = Inr (l \<noteq> [])"
    and invar_put: "invar d \<Longrightarrow> put t v l d = Inr d' \<Longrightarrow> invar d'"
begin

text \<open>The last of a sequence of writes is what is read back.\<close>

lemma last_write_wins:
  assumes "invar d" and "put t v l d = Inr d1" and "put t' v' l' d1 = Inr d2"
  shows "get d2 = Inr (t', v', l')" and "has d2 = Inr (l' \<noteq> [])"
  using assms get_put has_put invar_put by blast+

end

lemma SetState_get:
  assumes "deps_ok D" and "SetState D t v l store = Inr store'"
  shows "badger_Get D (replicatedlog store') ''currentTerm'' = Some (Gob_Int64 t)"
    and "badger_Get D (replicatedlog store') ''votedFor'' = Some (Gob_Int64 v)"
    and "badger_Get D (replicatedlog store') ''log'' = Some (Gob_Log l)"
    and "diskstore store' = diskstore store"
proof -
  obtain r1 where r1: "badger_Set D (replicatedlog store) ''currentTerm'' (Gob_Int64 t) = (True, r1)"
    using badger_Set_ok [OF assms(1)] by blast
  obtain r2 where r2: "badger_Set D r1 ''votedFor'' (Gob_Int64 v) = (True, r2)"
    using badger_Set_ok [OF assms(1)] by blast
  obtain r3 where r3: "badger_Set D r2 ''log'' (Gob_Log l) = (True, r3)"
    using badger_Set_ok [OF assms(1)] by blast
  have store': "store' = store\<lparr>replicatedlog := r3\<rparr>"
    using assms(2) r1 r2 r3 by (simp add: SetState_def Let_def split: if_splits)
  note gets = badger_SetE [OF assms(1) r1] badger_SetE [OF assms(1) r2] badger_SetE [OF assms(1) r3]
  show "badger_Get D (replicatedlog store') ''currentTerm'' = Some (Gob_Int64 t)"
    and "badger_Get D (replicatedlog store') ''votedFor'' = Some (Gob_Int64 v)"
    and "badger_Get D (replicatedlog store') ''log'' = Some (Gob_Log l)"
    and "diskstore store' = diskstore store"
    by (simp_all add: store' gets)
qed

interpretation raft_storage: stable_state "\<lambda>_. deps_ok D" "SetState D" "GetState D" "HasData D"
  for D :: "'s deps"
  by unfold_locales
    (auto simp: GetState_def HasData_def SetState_get)

lemma SetState_returns:
  assumes "deps_ok D" and "log_encodable l"
  shows "\<exists>store'. SetState D t v l store = Inr store'"
proof -
  obtain r1 where r1: "badger_Set D (replicatedlog store) ''currentTerm'' (Gob_Int64 t) = (True, r1)"
    using badger_Set_ok [OF assms(1)] by blast
  with assms(2) show ?thesis by (simp add: SetState_def Let_def)
qed

lemma persistToStorage_returns:
  "deps_ok D \<Longrightarrow> log_encodable (cm_log cm) \<Longrightarrow> \<exists>cm'. persistToStorage D cm = Inr cm'"
  using SetState_returns [of D "cm_log cm" "cm_currentTerm cm" "cm_votedFor cm" "cm_storage cm"]
  by (auto simp: persistToStorage_def)

end
