(* ===== verification/Raft_Election.thy ===== *)
theory Raft_Election
  imports Raft_State
begin

text \<open>
  \<open>server/raft.go\<close>: elections. The election timer, the start of an election, the vote
  handler of the other servers, and what a candidate does with a reply. A function whose Go
  body locks, unlocks and goes on is split at the unlock.
\<close>

section \<open>Timers\<close>

text \<open>\<open>r\<close> is the result of \<open>rand.Intn(150)\<close>.\<close>

definition electionTimeout :: "int \<Rightarrow> int" where
  "electionTimeout r = 150 + r"

text \<open>
  One candidate's election: its own vote, one goroutine per peer, another timer. The votes of
  the election are the counter number \<open>cm_elections\<close>.
\<close>

definition startElection :: "int \<Rightarrow> 's ConsensusModule \<Rightarrow> 's ConsensusModule" where
  "startElection now cm =
     (let savedCurrentTerm = wrap64 (cm_currentTerm cm + 1); el = Suc (cm_elections cm)
      in spawn (map (Go_RequestVote savedCurrentTerm el) (cm_peerIds cm) @ [Go_RunElectionTimer False])
           (cm\<lparr>cm_state := Candidate, cm_currentTerm := savedCurrentTerm,
              cm_electionResetEvent := now, cm_votedFor := cm_id cm, cm_elections := el,
              cm_votes := (cm_votes cm)(el := 1)\<rparr>))"

text \<open>
  One tick of \<open>runElectionTimer\<close>: the state afterwards, and whether the function returns.
\<close>

definition electionTick :: "int \<Rightarrow> int \<Rightarrow> int \<Rightarrow> 's ConsensusModule \<Rightarrow> 's ConsensusModule \<times> bool" where
  "electionTick now termStarted timeoutDuration cm =
     (if cm_state cm \<noteq> Candidate \<and> cm_state cm \<noteq> Follower then (cm, True)
      else if termStarted \<noteq> cm_currentTerm cm then (cm, True)
      else if now - cm_electionResetEvent cm \<ge> timeoutDuration then (startElection now cm, True)
      else (cm, False))"

section \<open>Votes\<close>

definition requestVote_args :: "int \<Rightarrow> 's ConsensusModule \<Rightarrow> RequestVoteRequest" where
  "requestVote_args savedCurrentTerm cm =
     \<lparr>rv_Term = savedCurrentTerm, rv_CandidateId = cm_id cm,
      rv_LastLogIndex = fst (lastLogIndexAndTerm cm), rv_LastLogTerm = snd (lastLogIndexAndTerm cm)\<rparr>"

definition vote_cond :: "RequestVoteRequest \<Rightarrow> 's ConsensusModule \<Rightarrow> bool" where
  "vote_cond req cm \<longleftrightarrow>
     (case lastLogIndexAndTerm cm of (lastLogIndex, LastLogTerm) \<Rightarrow>
        cm_currentTerm cm = rv_Term req \<and>
        (cm_votedFor cm = -1 \<or> cm_votedFor cm = rv_CandidateId req) \<and>
        (rv_LastLogTerm req > LastLogTerm \<or>
         (rv_LastLogTerm req = LastLogTerm \<and> rv_LastLogIndex req \<ge> lastLogIndex)))"

definition RequestVoteHelper ::
  "'s deps \<Rightarrow> int \<Rightarrow> RequestVoteRequest \<Rightarrow> 's ConsensusModule \<Rightarrow>
   ('s ConsensusModule \<times> RequestVoteResponse) res" where
  "RequestVoteHelper D now req cm =
     (if cm_state cm = Dead then Inr (cm, zero_RequestVoteResponse)
      else
        let cm1 = (if rv_Term req > cm_currentTerm cm then becomeFollower now (rv_Term req) cm else cm);
            granted = vote_cond req cm1;
            cm2 = (if granted
                   then cm1\<lparr>cm_votedFor := rv_CandidateId req, cm_electionResetEvent := now\<rparr>
                   else cm1);
            reply = \<lparr>rvr_Term = cm_currentTerm cm2, rvr_VoteGranted = granted\<rparr>
        in rbind (persistToStorage D cm2) (\<lambda>cm3. Inr (cm3, reply)))"

text \<open>
  A new leader. The heartbeat goroutine sends at once and then loops.
\<close>

definition startLeader :: "'s ConsensusModule \<Rightarrow> 's ConsensusModule" where
  "startLeader cm =
     spawn [Go_LeaderStart]
       (cm\<lparr>cm_state := Leader, cm_leaderid := cm_id cm,
          cm_nextIndex := fold (\<lambda>p m. fmupd p (int (length (cm_log cm))) m) (cm_peerIds cm) (cm_nextIndex cm),
          cm_matchIndex := fold (\<lambda>p m. fmupd p (-1) m) (cm_peerIds cm) (cm_matchIndex cm)\<rparr>)"

definition majority :: "int \<Rightarrow> 's ConsensusModule \<Rightarrow> bool" where
  "majority n cm \<longleftrightarrow> n * 2 > int (length (cm_peerIds cm)) + 1"

text \<open>
  A reply to a vote request of the election \<open>el\<close> in term \<open>saved\<close>, handled under the lock.
\<close>

definition handleVoteReply ::
  "int \<Rightarrow> int \<Rightarrow> nat \<Rightarrow> RequestVoteResponse \<Rightarrow> 's ConsensusModule \<Rightarrow> 's ConsensusModule" where
  "handleVoteReply now saved el reply cm =
     (if cm_state cm = Leader then startLeader cm
      else if cm_state cm = Follower then cm
      else if rvr_Term reply > saved then becomeFollower now (rvr_Term reply) cm
      else if rvr_Term reply = saved then
        (if rvr_VoteGranted reply then
           (let votesReceived = cm_votes cm el + 1;
                cm1 = cm\<lparr>cm_votes := (cm_votes cm)(el := votesReceived)\<rparr>
            in if majority votesReceived cm1 then spawn [Go_StartLeader] cm1 else cm1)
         else cm)
      else cm)"

section \<open>Facts about the handlers\<close>

lemma fm_index_fold_const:
  "fm_index z (fold (\<lambda>p. fmupd p v) ps m) p = (if p \<in> set ps then v else fm_index z m p)"
  by (induction ps arbitrary: m) auto

lemma startLeader_simps [simp]:
  "cm_id (startLeader cm) = cm_id cm" "cm_leaderid (startLeader cm) = cm_id cm"
  "cm_peerIds (startLeader cm) = cm_peerIds cm" "cm_storage (startLeader cm) = cm_storage cm"
  "cm_currentTerm (startLeader cm) = cm_currentTerm cm" "cm_votedFor (startLeader cm) = cm_votedFor cm"
  "cm_log (startLeader cm) = cm_log cm" "cm_commitIndex (startLeader cm) = cm_commitIndex cm"
  "cm_lastApplied (startLeader cm) = cm_lastApplied cm" "cm_state (startLeader cm) = Leader"
  "cm_newCommitReady (startLeader cm) = cm_newCommitReady cm"
  "cm_newCommitClosed (startLeader cm) = cm_newCommitClosed cm"
  "cm_votes (startLeader cm) = cm_votes cm"
  "cm_elections (startLeader cm) = cm_elections cm"
  by (simp_all add: startLeader_def)

lemma startLeader_indexes:
  assumes "p \<in> set (cm_peerIds cm)"
  shows "fm_index 0 (cm_nextIndex (startLeader cm)) p = int (length (cm_log cm))"
    and "fm_index 0 (cm_matchIndex (startLeader cm)) p = -1"
  using assms by (simp_all add: startLeader_def fm_index_fold_const)

lemma startElection_simps [simp]:
  "cm_id (startElection now cm) = cm_id cm"
  "cm_peerIds (startElection now cm) = cm_peerIds cm"
  "cm_storage (startElection now cm) = cm_storage cm"
  "cm_currentTerm (startElection now cm) = wrap64 (cm_currentTerm cm + 1)"
  "cm_votedFor (startElection now cm) = cm_id cm"
  "cm_log (startElection now cm) = cm_log cm"
  "cm_commitIndex (startElection now cm) = cm_commitIndex cm"
  "cm_lastApplied (startElection now cm) = cm_lastApplied cm"
  "cm_state (startElection now cm) = Candidate"
  "cm_newCommitClosed (startElection now cm) = cm_newCommitClosed cm"
  by (simp_all add: startElection_def Let_def)

lemma RequestVoteHelper_Inr:
  assumes "RequestVoteHelper D now req cm = Inr (cm', reply)" and "cm_state cm \<noteq> Dead"
  obtains cm1 store where
    "cm1 = (if rv_Term req > cm_currentTerm cm then becomeFollower now (rv_Term req) cm else cm)"
    and "rvr_VoteGranted reply = vote_cond req cm1"
    and "rvr_Term reply = cm_currentTerm cm1"
    and "cm' = (if vote_cond req cm1
                then cm1\<lparr>cm_votedFor := rv_CandidateId req, cm_electionResetEvent := now, cm_storage := store\<rparr>
                else cm1\<lparr>cm_storage := store\<rparr>)"
    and "persistToStorage D (if vote_cond req cm1
                then cm1\<lparr>cm_votedFor := rv_CandidateId req, cm_electionResetEvent := now\<rparr> else cm1) = Inr cm'"
proof -
  let ?cm1 = "if rv_Term req > cm_currentTerm cm then becomeFollower now (rv_Term req) cm else cm"
  let ?cm2 = "if vote_cond req ?cm1
     then ?cm1\<lparr>cm_votedFor := rv_CandidateId req, cm_electionResetEvent := now\<rparr> else ?cm1"
  have p: "persistToStorage D ?cm2 = Inr cm'"
    and r: "reply = \<lparr>rvr_Term = cm_currentTerm ?cm2, rvr_VoteGranted = vote_cond req ?cm1\<rparr>"
    using assms by (auto simp: RequestVoteHelper_def Let_def)
  obtain store where "cm' = ?cm2\<lparr>cm_storage := store\<rparr>"
    using persistToStorage_frame [OF p] by blast
  then have "cm' = (if vote_cond req ?cm1
      then ?cm1\<lparr>cm_votedFor := rv_CandidateId req, cm_electionResetEvent := now, cm_storage := store\<rparr>
      else ?cm1\<lparr>cm_storage := store\<rparr>)"
    by simp
  with p r that [of ?cm1 store] show thesis by simp
qed

end
