(* ===== verification/Raft_Replication.thy ===== *)
theory Raft_Replication
  imports Raft_Election
begin

text \<open>
  \<open>server/raft.go\<close>: log replication. The follower's handler for entries, the leader's
  requests and what it does with the replies (commit rule included), the submission and
  forwarding of commands, and the delivery of committed entries.
\<close>

section \<open>Go slices\<close>

text \<open>
  \<open>xs[a:b]\<close>. Between the length and the capacity of the backing array Go would return
  elements that are not part of the slice, beyond the capacity it panics; both are the error.
\<close>

definition go_slice :: "'a list \<Rightarrow> int \<Rightarrow> int \<Rightarrow> 'a list res" where
  "go_slice xs a b =
     (if 0 \<le> a \<and> a \<le> b \<and> b \<le> int (length xs)
      then Inr (take (nat (b - a)) (drop (nat a) xs)) else Inl (Panic Slice_Out_Of_Range))"

definition go_nth :: "'a list \<Rightarrow> int \<Rightarrow> 'a res" where
  "go_nth xs i =
     (if 0 \<le> i \<and> i < int (length xs) then Inr (xs ! nat i) else Inl (Panic Index_Out_Of_Range))"

section \<open>The follower\<close>

text \<open>Does the log hold an entry of the given term at \<open>PrevLogIndex\<close>?\<close>

definition prevLogMatches :: "AppendEntriesRequest \<Rightarrow> LogEntry list \<Rightarrow> bool res" where
  "prevLogMatches req log =
     (if ae_PrevLogIndex req = -1 then Inr True
      else if ae_PrevLogIndex req < int (length log)
      then rbind (go_nth log (ae_PrevLogIndex req)) (\<lambda>e. Inr (ae_PrevLogTerm req = le_Term e))
      else Inr False)"

text \<open>The insertion point: the first index at which the terms differ or one list ends.\<close>

function insertionPoint :: "LogEntry list \<Rightarrow> LogEntry list \<Rightarrow> nat \<Rightarrow> nat \<Rightarrow> nat \<times> nat" where
  "insertionPoint log entries logInsertIndex newEntriesIndex =
     (if logInsertIndex \<ge> length log \<or> newEntriesIndex \<ge> length entries
      then (logInsertIndex, newEntriesIndex)
      else if le_Term (log ! logInsertIndex) \<noteq> le_Term (entries ! newEntriesIndex)
      then (logInsertIndex, newEntriesIndex)
      else insertionPoint log entries (Suc logInsertIndex) (Suc newEntriesIndex))"
  by pat_completeness auto
termination
  by (relation "measure (\<lambda>(log, entries, i, j). length entries - j)") auto

declare insertionPoint.simps [simp del]

definition insertEntries :: "nat \<Rightarrow> LogEntry list \<Rightarrow> LogEntry list \<Rightarrow> LogEntry list" where
  "insertEntries start entries log =
     (case insertionPoint log entries start 0 of
        (logInsertIndex, newEntriesIndex) \<Rightarrow>
          if newEntriesIndex < length entries
          then take logInsertIndex log @ drop newEntriesIndex entries
          else log)"

definition advanceCommit :: "AppendEntriesRequest \<Rightarrow> 's ConsensusModule \<Rightarrow> 's ConsensusModule res" where
  "advanceCommit req cm =
     (if ae_LeaderCommit req > cm_commitIndex cm
      then signal_newCommitReady
             (cm\<lparr>cm_commitIndex := intMin (ae_LeaderCommit req) (int (length (cm_log cm)) - 1)\<rparr>)
      else Inr cm)"

definition AppendEntriesHelper ::
  "'s deps \<Rightarrow> int \<Rightarrow> AppendEntriesRequest \<Rightarrow> 's ConsensusModule \<Rightarrow>
   ('s ConsensusModule \<times> AppendEntriesResponse) res" where
  "AppendEntriesHelper D now req cm =
     (if cm_state cm = Dead then Inr (cm, zero_AppendEntriesResponse)
      else
        let cm1 = cm\<lparr>cm_leaderid := ae_LeaderId req\<rparr>;
            cm2 = (if ae_Term req > cm_currentTerm cm1 then becomeFollower now (ae_Term req) cm1 else cm1)
        in rbind
             (if ae_Term req = cm_currentTerm cm2 then
                (let cm3 = (if cm_state cm2 \<noteq> Follower then becomeFollower now (ae_Term req) cm2 else cm2);
                     cm4 = cm3\<lparr>cm_electionResetEvent := now\<rparr>
                 in rbind (prevLogMatches req (cm_log cm4)) (\<lambda>matches.
                      if matches then
                        rbind (advanceCommit req
                                 (cm4\<lparr>cm_log := insertEntries (nat (ae_PrevLogIndex req + 1))
                                                  (ae_Entries req) (cm_log cm4)\<rparr>))
                          (\<lambda>cm5. Inr (cm5, True))
                      else Inr (cm4, False)))
              else Inr (cm2, False))
             (\<lambda>(cm5, success).
                rbind (persistToStorage D cm5) (\<lambda>cm6.
                  Inr (cm6, \<lparr>aer_Term = cm_currentTerm cm5, aer_Success = success,
                             aer_ConflictIndex = 0, aer_ConflictTerm = 0\<rparr>))))"

section \<open>The leader\<close>

text \<open>
  \<open>leaderSendAEs\<close> reads the term under the lock and starts one goroutine per peer; each
  goroutine builds its request under the lock later on.
\<close>

definition leaderSendAEs :: "'s ConsensusModule \<Rightarrow> 's ConsensusModule" where
  "leaderSendAEs cm =
     (if cm_state cm \<noteq> Leader then cm
      else spawn (map (Go_SendAE (cm_currentTerm cm)) (cm_peerIds cm)) cm)"

definition appendEntries_args ::
  "int \<Rightarrow> int \<Rightarrow> 's ConsensusModule \<Rightarrow> (AppendEntriesRequest \<times> int) res" where
  "appendEntries_args savedCurrentTerm peerId cm =
     (let ni = fm_index 0 (cm_nextIndex cm) peerId; prevLogIndex = ni - 1
      in rbind (if prevLogIndex \<ge> 0
                then rbind (go_nth (cm_log cm) prevLogIndex) (\<lambda>e. Inr (le_Term e))
                else Inr (-1)) (\<lambda>prevLogTerm.
         rbind (go_slice (cm_log cm) ni (int (length (cm_log cm)))) (\<lambda>entries.
           Inr (\<lparr>ae_Term = savedCurrentTerm, ae_LeaderId = cm_id cm,
                 ae_PrevLogIndex = prevLogIndex, ae_PrevLogTerm = prevLogTerm,
                 ae_Entries = entries, ae_LeaderCommit = cm_commitIndex cm\<rparr>, ni))))"

text \<open>The commit rule: entries of the current term stored by a majority.\<close>

definition matchCount :: "'s ConsensusModule \<Rightarrow> int \<Rightarrow> int" where
  "matchCount cm i =
     1 + int (length (filter (\<lambda>p. fm_index 0 (cm_matchIndex cm) p \<ge> i) (cm_peerIds cm)))"

definition commit_step :: "'s ConsensusModule \<Rightarrow> nat \<Rightarrow> int \<Rightarrow> int" where
  "commit_step cm i commitIndex =
     (if le_Term (cm_log cm ! i) = cm_currentTerm cm \<and> majority (matchCount cm (int i)) cm
      then int i else commitIndex)"

definition leaderCommit :: "'s ConsensusModule \<Rightarrow> int res" where
  "leaderCommit cm =
     (if cm_commitIndex cm + 1 < 0 then Inl (Panic Index_Out_Of_Range)
      else Inr (fold (commit_step cm) [nat (cm_commitIndex cm + 1)..<length (cm_log cm)]
                  (cm_commitIndex cm)))"

fun lastIndexOfTerm :: "LogEntry list \<Rightarrow> int \<Rightarrow> nat \<Rightarrow> int" where
  "lastIndexOfTerm log t 0 = -1"
| "lastIndexOfTerm log t (Suc i) =
     (if le_Term (log ! i) = t then int i else lastIndexOfTerm log t i)"

definition handleAEReply ::
  "int \<Rightarrow> int \<Rightarrow> int \<Rightarrow> int \<Rightarrow> nat \<Rightarrow> AppendEntriesResponse \<Rightarrow> 's ConsensusModule \<Rightarrow>
   's ConsensusModule res" where
  "handleAEReply now saved peerId ni nEntries reply cm =
     (if aer_Term reply > cm_currentTerm cm then Inr (becomeFollower now (aer_Term reply) cm)
      else if cm_state cm = Leader \<and> saved = aer_Term reply then
        (if aer_Success reply then
           (let next = ni + int nEntries;
                cm1 = cm\<lparr>cm_nextIndex := fmupd peerId next (cm_nextIndex cm),
                         cm_matchIndex := fmupd peerId (next - 1) (cm_matchIndex cm)\<rparr>
            in rbind (leaderCommit cm1) (\<lambda>ci.
                 if ci \<noteq> cm_commitIndex cm1
                 then rbind (signal_newCommitReady (cm1\<lparr>cm_commitIndex := ci\<rparr>)) (\<lambda>cm2.
                        Inr (cm2\<lparr>cm_triggerAE := Suc (cm_triggerAE cm2)\<rparr>))
                 else Inr cm1))
         else
           Inr (cm\<lparr>cm_nextIndex := fmupd peerId
                 (if aer_ConflictTerm reply \<ge> 0 then
                    (let lastIndexOfTerm = lastIndexOfTerm (cm_log cm) (aer_ConflictTerm reply) (length (cm_log cm))
                     in if lastIndexOfTerm \<ge> 0 then lastIndexOfTerm + 1 else aer_ConflictIndex reply)
                  else aer_ConflictIndex reply) (cm_nextIndex cm)\<rparr>))
      else Inr cm)"

section \<open>Commands\<close>

definition forwardToLeader :: "Command option \<Rightarrow> 's ConsensusModule \<Rightarrow> 's ConsensusModule" where
  "forwardToLeader command cm = (if cm_state cm \<noteq> Leader then spawn [Go_Forward command] cm else cm)"

text \<open>
  A leader appends the command while it holds the lock; it writes its state and triggers the
  heartbeat loop after it has given up the lock.
\<close>

definition Submit_append :: "Command option \<Rightarrow> 's ConsensusModule \<Rightarrow> 's ConsensusModule" where
  [simp]: "Submit_append command cm =
     cm\<lparr>cm_log := cm_log cm @ [\<lparr>le_Command = command, le_Term = cm_currentTerm cm\<rparr>]\<rparr>"

definition Submit_persist :: "'s deps \<Rightarrow> 's ConsensusModule \<Rightarrow> 's ConsensusModule res" where
  [simp]: "Submit_persist D cm =
     rbind (persistToStorage D cm) (\<lambda>cm1. Inr (cm1\<lparr>cm_triggerAE := Suc (cm_triggerAE cm1)\<rparr>))"

definition Submit ::
  "'s deps \<Rightarrow> Command option \<Rightarrow> 's ConsensusModule \<Rightarrow> ('s ConsensusModule \<times> bool) res" where
  "Submit D command cm =
     (if cm_state cm = Leader
      then rbind (Submit_persist D (Submit_append command cm)) (\<lambda>cm1. Inr (cm1, True))
      else Inr (forwardToLeader command cm, True))"

definition ForwardLeaderHelper ::
  "'s deps \<Rightarrow> ForwardLeaderRequest \<Rightarrow> 's ConsensusModule \<Rightarrow>
   ('s ConsensusModule \<times> ForwardLeaderResponse) res" where
  "ForwardLeaderHelper D req cm =
     (if cm_state cm = Dead then Inr (cm, zero_ForwardLeaderResponse)
      else if cm_state cm = Leader then
        rbind (Submit D (fl_Command req) cm) (\<lambda>(cm1, submitted).
          Inr (cm1, if submitted then \<lparr>flr_Success = True, flr_LeaderId = cm_id cm1\<rparr>
                    else \<lparr>flr_Success = False, flr_LeaderId = 0\<rparr>))
      else Inr (cm, \<lparr>flr_Success = False, flr_LeaderId = cm_leaderid cm\<rparr>))"

definition handleForwardReply ::
  "Command option \<Rightarrow> ForwardLeaderResponse \<Rightarrow> 's ConsensusModule \<Rightarrow> 's ConsensusModule res" where
  "handleForwardReply command reply cm =
     (if flr_Success reply then signal_newCommitReady cm
      else Inr (forwardToLeader command (cm\<lparr>cm_leaderid := flr_LeaderId reply\<rparr>)))"

section \<open>Delivery of committed entries\<close>

fun number_entries :: "int \<Rightarrow> int \<Rightarrow> LogEntry list \<Rightarrow> CommitEntry list" where
  "number_entries term i [] = []"
| "number_entries term i (e # es) =
     \<lparr>ce_Command = le_Command e, ce_Index = i + 1, ce_Term = term\<rparr> # number_entries term (i + 1) es"

text \<open>
  One round of \<open>commitChanSender\<close>, after a value has been received from
  \<open>newCommitReadyChan\<close>: the state afterwards and what is sent on \<open>commitChan\<close>.
\<close>

definition commitChanSender :: "'s ConsensusModule \<Rightarrow> ('s ConsensusModule \<times> CommitEntry list) res" where
  "commitChanSender cm =
     (let savedTerm = cm_currentTerm cm; savedLastApplied = cm_lastApplied cm
      in if cm_commitIndex cm > cm_lastApplied cm then
           rbind (go_slice (cm_log cm) (cm_lastApplied cm + 1) (cm_commitIndex cm + 1)) (\<lambda>entries.
             Inr (cm\<lparr>cm_lastApplied := cm_commitIndex cm\<rparr>,
                  number_entries savedTerm savedLastApplied entries))
         else Inr (cm, []))"

end
