(* ===== verification/Raft_Steps.thy ===== *)
theory Raft_Steps
  imports Raft_Replication
begin

text \<open>
  The consensus module of one server as a labelled step relation. A step is one critical
  section of the Go code: an RPC handler, or the next piece of a goroutine in
  \<open>cm_spawned\<close>, in any order the scheduler chooses. The peers and the clock are the
  environment: requests, replies and times are arbitrary. A submission to a leader is one step, or
  two with others between them: the append, and the write of the state after the lock has been
  given up. In two more kinds of steps the application writes to its own database, and the process
  ends, at any point between two others, and is started again on its databases.
\<close>

datatype label =
    L_RequestVote RequestVoteRequest RequestVoteResponse
  | L_AppendEntries AppendEntriesRequest AppendEntriesResponse
  | L_ForwardLeader ForwardLeaderRequest ForwardLeaderResponse
  | L_Submit "Command option"
  | L_Append "Command option"
  | L_Persist
  | L_MainLoop
  | L_TimerStart
  | L_Tick
  | L_SendVote int RequestVoteRequest
  | L_VoteReply int nat int RequestVoteResponse
  | L_StartLeader
  | L_Heartbeat
  | L_SendAE int AppendEntriesRequest
  | L_AEReply int int int nat AppendEntriesResponse
  | L_Forward
  | L_ForwardReply ForwardLeaderResponse
  | L_CallFailed
  | L_Commit "CommitEntry list"
  | L_Stop
  | L_Apply
  | L_Restart int int "LogEntry list"

fun restarts :: "label \<Rightarrow> bool" where
  "restarts (L_Restart t v log) = True"
| "restarts _ = False"

text \<open>The steps that are not those of the consensus module.\<close>

definition outside :: "label \<Rightarrow> bool" where
  [simp]: "outside l \<longleftrightarrow> restarts l \<or> l = L_Apply"

definition finished :: "goroutine \<Rightarrow> 's ConsensusModule \<Rightarrow> 's ConsensusModule" where
  "finished g cm = cm\<lparr>cm_spawned := remove1 g (cm_spawned cm)\<rparr>"

definition pending :: "goroutine \<Rightarrow> 's ConsensusModule \<Rightarrow> bool" where
  "pending g cm \<longleftrightarrow> g \<in> set (cm_spawned cm)"

text \<open>
  A timer goroutine after a tick: it goes on, or returns, to the main loop if that called it.
\<close>

definition after_tick :: "bool \<Rightarrow> int \<Rightarrow> int \<Rightarrow> 's ConsensusModule \<times> bool \<Rightarrow> 's ConsensusModule" where
  "after_tick main termStarted timeout r =
     (case r of (cm, done) \<Rightarrow>
        spawn (if \<not> done then [Go_ElectionTimer main termStarted timeout]
               else if main then [Go_MainLoop] else []) cm)"

text \<open>
  Opening the databases of a server finds what is stored in them. A function that does so, for
  one server, is \<open>reopened\<close>.
\<close>

definition opens :: "(string \<Rightarrow> 's option) \<Rightarrow> int \<Rightarrow> 's DiskStore \<Rightarrow> bool" where
  "opens open_db i store \<longleftrightarrow>
     open_db (''server/diskstore/server'' @ Itoa_int i) = Some (diskstore store) \<and>
     open_db (''server/diskstore/server'' @ Itoa_int i @ ''/raft'') = Some (replicatedlog store)"

definition reopened :: "int \<Rightarrow> 's DiskStore \<Rightarrow> string \<Rightarrow> 's option" where
  "reopened i store path =
     (if path = ''server/diskstore/server'' @ Itoa_int i then Some (diskstore store)
      else Some (replicatedlog store))"

lemma opens_reopened: "opens (reopened i store) i store"
  by (simp add: opens_def reopened_def)

lemma NewDiskStore_opens: "opens open_db i store \<Longrightarrow> NewDiskStore open_db i = Inr store"
  by (cases store) (simp add: opens_def NewDiskStore_def)

inductive cm_step :: "'s deps \<Rightarrow> 's ConsensusModule \<Rightarrow> label \<Rightarrow> 's ConsensusModule \<Rightarrow> bool" for D where
  RequestVote:
    "RequestVoteHelper D now req cm = Inr (cm', reply) \<Longrightarrow> cm_step D cm (L_RequestVote req reply) cm'"
| AppendEntries:
    "AppendEntriesHelper D now req cm = Inr (cm', reply) \<Longrightarrow> cm_step D cm (L_AppendEntries req reply) cm'"
| ForwardLeader:
    "ForwardLeaderHelper D req cm = Inr (cm', reply) \<Longrightarrow> cm_step D cm (L_ForwardLeader req reply) cm'"
| Submitted:
    "Submit D command cm = Inr (cm', ok) \<Longrightarrow> cm_step D cm (L_Submit command) cm'"
| SubmitAppends:
    "cm_state cm = Leader \<Longrightarrow>
     cm_step D cm (L_Append command) (spawn [Go_Submitted] (Submit_append command cm))"
| SubmitPersists:
    "pending Go_Submitted cm \<Longrightarrow> Submit_persist D (finished Go_Submitted cm) = Inr cm' \<Longrightarrow>
     cm_step D cm L_Persist cm'"
| MainLoop:
    "pending Go_MainLoop cm \<Longrightarrow>
     cm_step D cm L_MainLoop
       (spawn [Go_RunElectionTimer True] (finished Go_MainLoop cm\<lparr>cm_electionResetEvent := now\<rparr>))"
| TimerStart:
    "pending (Go_RunElectionTimer main) cm \<Longrightarrow> 0 \<le> r \<Longrightarrow> r < 150 \<Longrightarrow>
     cm_step D cm L_TimerStart
       (spawn [Go_ElectionTimer main (cm_currentTerm cm) (electionTimeout r)]
          (finished (Go_RunElectionTimer main) cm))"
| Tick:
    "pending (Go_ElectionTimer main ts to) cm \<Longrightarrow>
     cm_step D cm L_Tick
       (after_tick main ts to (electionTick now ts to (finished (Go_ElectionTimer main ts to) cm)))"
| SendVote:
    "pending (Go_RequestVote saved el peer) cm \<Longrightarrow>
     cm_step D cm (L_SendVote peer (requestVote_args saved cm))
       (spawn [Go_AwaitVote saved el peer] (finished (Go_RequestVote saved el peer) cm))"
| VoteReply:
    "pending (Go_AwaitVote saved el peer) cm \<Longrightarrow>
     cm_step D cm (L_VoteReply saved el peer reply)
       (handleVoteReply now saved el reply (finished (Go_AwaitVote saved el peer) cm))"
| StartLeader:
    "pending Go_StartLeader cm \<Longrightarrow>
     cm_step D cm L_StartLeader (startLeader (finished Go_StartLeader cm))"
| LeaderStart:
    "pending Go_LeaderStart cm \<Longrightarrow>
     cm_step D cm L_Heartbeat (spawn [Go_LeaderLoop] (leaderSendAEs (finished Go_LeaderStart cm)))"
| Heartbeat:
    "pending Go_LeaderLoop cm \<Longrightarrow> cm_state cm = Leader \<Longrightarrow> cm_step D cm L_Heartbeat (leaderSendAEs cm)"
| Trigger:
    "pending Go_LeaderLoop cm \<Longrightarrow> cm_state cm = Leader \<Longrightarrow> 0 < cm_triggerAE cm \<Longrightarrow>
     cm_step D cm L_Heartbeat (leaderSendAEs (cm\<lparr>cm_triggerAE := cm_triggerAE cm - 1\<rparr>))"
| LeaderLoopEnds:
    "pending Go_LeaderLoop cm \<Longrightarrow> cm_state cm \<noteq> Leader \<Longrightarrow>
     cm_step D cm L_Heartbeat (finished Go_LeaderLoop cm)"
| LeaderLoopTriggeredEnd:
    "pending Go_LeaderLoop cm \<Longrightarrow> cm_state cm \<noteq> Leader \<Longrightarrow> 0 < cm_triggerAE cm \<Longrightarrow>
     cm_step D cm L_Heartbeat (finished Go_LeaderLoop cm\<lparr>cm_triggerAE := cm_triggerAE cm - 1\<rparr>)"
| SendAE:
    "pending (Go_SendAE saved peer) cm \<Longrightarrow> appendEntries_args saved peer cm = Inr (req, ni) \<Longrightarrow>
     cm_step D cm (L_SendAE peer req)
       (spawn [Go_AwaitAE saved peer ni (length (ae_Entries req))] (finished (Go_SendAE saved peer) cm))"
| AEReply:
    "pending (Go_AwaitAE saved peer ni n) cm \<Longrightarrow>
     handleAEReply now saved peer ni n reply (finished (Go_AwaitAE saved peer ni n) cm) = Inr cm' \<Longrightarrow>
     cm_step D cm (L_AEReply saved peer ni n reply) cm'"
| Forward:
    "pending (Go_Forward command) cm \<Longrightarrow>
     cm_step D cm L_Forward
       (spawn [Go_AwaitForward command (cm_leaderid cm)] (finished (Go_Forward command) cm))"
| ForwardReply:
    "pending (Go_AwaitForward command leader) cm \<Longrightarrow>
     handleForwardReply command reply (finished (Go_AwaitForward command leader) cm) = Inr cm' \<Longrightarrow>
     cm_step D cm (L_ForwardReply reply) cm'"
| CallFailed:
    "pending g cm \<Longrightarrow>
     g = Go_AwaitVote saved el peer \<or> g = Go_AwaitAE saved peer ni n \<or> g = Go_AwaitForward command leader \<Longrightarrow>
     cm_step D cm L_CallFailed (finished g cm)"
| Commit:
    "pending Go_CommitChanSender cm \<Longrightarrow> 0 < cm_newCommitReady cm \<Longrightarrow>
     commitChanSender (cm\<lparr>cm_newCommitReady := cm_newCommitReady cm - 1\<rparr>) = Inr (cm', entries) \<Longrightarrow>
     cm_step D cm (L_Commit entries) cm'"
| CommitClosed:
    "pending Go_CommitChanSender cm \<Longrightarrow> cm_newCommitReady cm = 0 \<Longrightarrow> cm_newCommitClosed cm \<Longrightarrow>
     commitChanSender cm = Inr (cm', entries) \<Longrightarrow> cm_step D cm (L_Commit entries) cm'"
| Stopped:
    "Stop cm = Inr cm' \<Longrightarrow> cm_step D cm L_Stop cm'"
| Applied:
    "replicatedlog store = replicatedlog (cm_storage cm) \<Longrightarrow>
     cm_step D cm L_Apply (cm\<lparr>cm_storage := store\<rparr>)"
| Restart:
    "opens open_db (cm_id cm) (cm_storage cm) \<Longrightarrow>
     NewConsensusModule D open_db (cm_id cm) (cm_peerIds cm) = Inr cm' \<Longrightarrow>
     cm_step D cm (L_Restart (cm_currentTerm cm') (cm_votedFor cm') (cm_log cm')) cm'"

inductive_cases RequestVote_stepE: "cm_step D cm (L_RequestVote req reply) cm'"
inductive_cases AppendEntries_stepE: "cm_step D cm (L_AppendEntries req reply) cm'"
inductive_cases Commit_stepE: "cm_step D cm (L_Commit es) cm'"
inductive_cases Restart_stepE: "cm_step D cm (L_Restart t v log) cm'"
inductive_cases StartLeader_stepE: "cm_step D cm L_StartLeader cm'"

lemma finished_simps [simp]:
  "cm_id (finished g cm) = cm_id cm" "cm_leaderid (finished g cm) = cm_leaderid cm"
  "cm_peerIds (finished g cm) = cm_peerIds cm" "cm_storage (finished g cm) = cm_storage cm"
  "cm_currentTerm (finished g cm) = cm_currentTerm cm" "cm_votedFor (finished g cm) = cm_votedFor cm"
  "cm_log (finished g cm) = cm_log cm" "cm_commitIndex (finished g cm) = cm_commitIndex cm"
  "cm_lastApplied (finished g cm) = cm_lastApplied cm" "cm_state (finished g cm) = cm_state cm"
  "cm_nextIndex (finished g cm) = cm_nextIndex cm" "cm_matchIndex (finished g cm) = cm_matchIndex cm"
  "cm_newCommitClosed (finished g cm) = cm_newCommitClosed cm"
  "cm_newCommitReady (finished g cm) = cm_newCommitReady cm"
  by (simp_all add: finished_def)

section \<open>What each operation leaves alone\<close>

text \<open>A server that has just come up.\<close>

definition started :: "'s ConsensusModule \<Rightarrow> bool" where
  "started cm \<longleftrightarrow> cm_state cm = Follower \<and> cm_leaderid cm = -1 \<and> cm_commitIndex cm = -1 \<and>
     cm_lastApplied cm = -1 \<and> cm_nextIndex cm = fmempty \<and> cm_matchIndex cm = fmempty \<and>
     cm_newCommitReady cm = 0 \<and> \<not> cm_newCommitClosed cm \<and> cm_triggerAE cm = 0 \<and>
     cm_spawned cm = [Go_MainLoop, Go_CommitChanSender]"

lemma restoreFromStorage_frame:
  "restoreFromStorage D cm = Inr cm' \<Longrightarrow>
   \<exists>t v log. cm' = cm\<lparr>cm_currentTerm := t, cm_votedFor := v, cm_log := log\<rparr>"
  by (auto simp: restoreFromStorage_def)

lemma restart_started:
  assumes "opens open_db i store" and "NewConsensusModule D open_db i peers = Inr cm"
  shows "started cm" and "cm_id cm = i" and "cm_peerIds cm = peers" and "cm_storage cm = store"
  using assms(2)
  by (auto simp: NewConsensusModule_def NewDiskStore_opens [OF assms(1)] init_cm_def started_def
      dest!: restoreFromStorage_frame split: if_splits)

lemma leaderSendAEs_simps [simp]:
  "cm_id (leaderSendAEs cm) = cm_id cm" "cm_peerIds (leaderSendAEs cm) = cm_peerIds cm"
  "cm_currentTerm (leaderSendAEs cm) = cm_currentTerm cm" "cm_votedFor (leaderSendAEs cm) = cm_votedFor cm"
  "cm_log (leaderSendAEs cm) = cm_log cm" "cm_commitIndex (leaderSendAEs cm) = cm_commitIndex cm"
  "cm_lastApplied (leaderSendAEs cm) = cm_lastApplied cm" "cm_state (leaderSendAEs cm) = cm_state cm"
  by (simp_all add: leaderSendAEs_def)

lemma after_tick_simps [simp]:
  "cm_id (after_tick m ts to r) = cm_id (fst r)" "cm_peerIds (after_tick m ts to r) = cm_peerIds (fst r)"
  "cm_currentTerm (after_tick m ts to r) = cm_currentTerm (fst r)"
  "cm_votedFor (after_tick m ts to r) = cm_votedFor (fst r)"
  "cm_log (after_tick m ts to r) = cm_log (fst r)"
  "cm_commitIndex (after_tick m ts to r) = cm_commitIndex (fst r)"
  "cm_lastApplied (after_tick m ts to r) = cm_lastApplied (fst r)"
  "cm_state (after_tick m ts to r) = cm_state (fst r)"
  by (simp_all add: after_tick_def split: prod.splits)

lemma step_restarts: "cm_step D cm l cm' \<Longrightarrow> restarts l \<Longrightarrow> started cm'"
  by (cases rule: cm_step.cases) (auto dest: restart_started(1))

end
