(* ===== verification/Raft_Votes.thy ===== *)
theory Raft_Votes
  imports Raft_Steps
begin

text \<open>
  Terms and votes of one server: the effect of every handler on them, the conditions under
  which a server never votes for two candidates in one term, and the schedules in which the
  code does.
\<close>

section \<open>Effects on term, vote and state\<close>

lemma signal_frame:
  "signal_newCommitReady cm = Inr cm' \<Longrightarrow>
   cm' = cm\<lparr>cm_newCommitReady := Suc (cm_newCommitReady cm)\<rparr> \<and> \<not> cm_newCommitClosed cm"
  by (simp add: signal_newCommitReady_def split: if_splits)

lemma advanceCommit_frame:
  "advanceCommit req cm = Inr cm' \<Longrightarrow>
   \<exists>ci n. cm' = cm\<lparr>cm_commitIndex := ci, cm_newCommitReady := n\<rparr> \<and>
     ci = (if ae_LeaderCommit req > cm_commitIndex cm
           then intMin (ae_LeaderCommit req) (int (length (cm_log cm)) - 1) else cm_commitIndex cm)"
  by (cases cm) (auto simp: advanceCommit_def signal_newCommitReady_def split: if_splits)

lemma AppendEntriesHelper_frame:
  assumes "AppendEntriesHelper D now req cm = Inr (cm', reply)"
  shows "cm_id cm' = cm_id cm" and "cm_peerIds cm' = cm_peerIds cm"
    and "cm_lastApplied cm' = cm_lastApplied cm"
    and "cm_currentTerm cm' = (if cm_state cm = Dead then cm_currentTerm cm
           else max (cm_currentTerm cm) (ae_Term req))"
    and "cm_state cm' = (if cm_state cm \<noteq> Dead \<and> cm_currentTerm cm \<le> ae_Term req then Follower
           else cm_state cm)"
    and "cm_votedFor cm' = (if cm_state cm \<noteq> Dead \<and>
             (cm_currentTerm cm < ae_Term req \<or>
              cm_currentTerm cm = ae_Term req \<and> cm_state cm \<noteq> Follower) then -1
           else cm_votedFor cm)"
  using assms
  by (auto simp: AppendEntriesHelper_def Let_def becomeFollower_def spawn_def
      dest!: persistToStorage_frame advanceCommit_frame split: if_splits)

lemma RequestVoteHelper_frame:
  assumes "RequestVoteHelper D now req cm = Inr (cm', reply)"
  shows "cm_id cm' = cm_id cm" and "cm_peerIds cm' = cm_peerIds cm" and "cm_log cm' = cm_log cm"
    and "cm_commitIndex cm' = cm_commitIndex cm" and "cm_lastApplied cm' = cm_lastApplied cm"
    and "cm_currentTerm cm' = (if cm_state cm = Dead then cm_currentTerm cm
           else max (cm_currentTerm cm) (rv_Term req))"
    and "cm_state cm' = (if cm_state cm \<noteq> Dead \<and> cm_currentTerm cm < rv_Term req then Follower
           else cm_state cm)"
  using assms
  by (auto simp: RequestVoteHelper_def Let_def becomeFollower_def spawn_def
      dest!: persistToStorage_frame split: if_splits)

lemma RequestVoteHelper_vote:
  assumes "RequestVoteHelper D now req cm = Inr (cm', reply)"
  shows "rvr_VoteGranted reply \<Longrightarrow> cm_state cm \<noteq> Dead \<and> cm_votedFor cm' = rv_CandidateId req \<and>
           cm_currentTerm cm' = rv_Term req \<and>
           (cm_currentTerm cm = rv_Term req \<longrightarrow>
              cm_votedFor cm = -1 \<or> cm_votedFor cm = rv_CandidateId req)"
    and "\<not> rvr_VoteGranted reply \<Longrightarrow>
           cm_votedFor cm' = (if cm_state cm \<noteq> Dead \<and> cm_currentTerm cm < rv_Term req then -1
                              else cm_votedFor cm)"
  using assms
  by (auto simp: RequestVoteHelper_def Let_def becomeFollower_def spawn_def vote_cond_def
      zero_RequestVoteResponse_def dest!: persistToStorage_frame split: if_splits prod.splits)

lemma Submit_frame:
  assumes "Submit D command cm = Inr (cm', ok)"
  shows "cm_id cm' = cm_id cm" and "cm_peerIds cm' = cm_peerIds cm"
    and "cm_currentTerm cm' = cm_currentTerm cm" and "cm_votedFor cm' = cm_votedFor cm"
    and "cm_state cm' = cm_state cm" and "cm_commitIndex cm' = cm_commitIndex cm"
    and "cm_lastApplied cm' = cm_lastApplied cm"
    and "cm_log cm' = (if cm_state cm = Leader
           then cm_log cm @ [\<lparr>le_Command = command, le_Term = cm_currentTerm cm\<rparr>] else cm_log cm)"
    and "ok"
  using assms
  by (auto simp: Submit_def forwardToLeader_def spawn_def dest!: persistToStorage_frame split: if_splits)

lemma ForwardLeaderHelper_frame:
  assumes "ForwardLeaderHelper D req cm = Inr (cm', reply)"
  shows "cm_id cm' = cm_id cm" and "cm_peerIds cm' = cm_peerIds cm"
    and "cm_currentTerm cm' = cm_currentTerm cm" and "cm_votedFor cm' = cm_votedFor cm"
    and "cm_state cm' = cm_state cm" and "cm_commitIndex cm' = cm_commitIndex cm"
    and "cm_lastApplied cm' = cm_lastApplied cm"
    and "cm_log cm' = (if cm_state cm = Leader
           then cm_log cm @ [\<lparr>le_Command = fl_Command req, le_Term = cm_currentTerm cm\<rparr>] else cm_log cm)"
  using assms
  by (auto simp: ForwardLeaderHelper_def dest: Submit_frame split: if_splits)

lemma leaderCommit_frame: "handleAEReply now saved p ni n reply cm = Inr cm' \<Longrightarrow>
   cm_id cm' = cm_id cm \<and> cm_peerIds cm' = cm_peerIds cm \<and> cm_log cm' = cm_log cm \<and>
   cm_lastApplied cm' = cm_lastApplied cm \<and>
   cm_currentTerm cm' = max (cm_currentTerm cm) (aer_Term reply) \<and>
   cm_state cm' = (if aer_Term reply > cm_currentTerm cm then Follower else cm_state cm) \<and>
   cm_votedFor cm' = (if aer_Term reply > cm_currentTerm cm then -1 else cm_votedFor cm)"
  by (auto simp: handleAEReply_def Let_def dest!: signal_frame split: if_splits)

lemma handleVoteReply_frame:
  "cm_id (handleVoteReply now saved el reply cm) = cm_id cm"
  "cm_peerIds (handleVoteReply now saved el reply cm) = cm_peerIds cm"
  "cm_log (handleVoteReply now saved el reply cm) = cm_log cm"
  "cm_commitIndex (handleVoteReply now saved el reply cm) = cm_commitIndex cm"
  "cm_lastApplied (handleVoteReply now saved el reply cm) = cm_lastApplied cm"
  by (auto simp: handleVoteReply_def Let_def)

lemma handleVoteReply_vote:
  "cm_currentTerm (handleVoteReply now saved el reply cm) =
     (if cm_state cm \<notin> {Leader, Follower} \<and> rvr_Term reply > saved then rvr_Term reply
      else cm_currentTerm cm)"
  "cm_state (handleVoteReply now saved el reply cm) =
     (if cm_state cm \<notin> {Leader, Follower} \<and> rvr_Term reply > saved then Follower else cm_state cm)"
  "cm_votedFor (handleVoteReply now saved el reply cm) =
     (if cm_state cm \<notin> {Leader, Follower} \<and> rvr_Term reply > saved then -1 else cm_votedFor cm)"
  by (auto simp: handleVoteReply_def Let_def)

lemma handleForwardReply_frame:
  "handleForwardReply command reply cm = Inr cm' \<Longrightarrow>
   cm_id cm' = cm_id cm \<and> cm_peerIds cm' = cm_peerIds cm \<and> cm_log cm' = cm_log cm \<and>
   cm_lastApplied cm' = cm_lastApplied cm \<and> cm_commitIndex cm' = cm_commitIndex cm \<and>
   cm_currentTerm cm' = cm_currentTerm cm \<and> cm_state cm' = cm_state cm \<and>
   cm_votedFor cm' = cm_votedFor cm"
  by (auto simp: handleForwardReply_def forwardToLeader_def dest!: signal_frame split: if_splits)

lemma commitChanSender_frame:
  "commitChanSender cm = Inr (cm', es) \<Longrightarrow>
   cm' = cm\<lparr>cm_lastApplied := max (cm_lastApplied cm) (cm_commitIndex cm)\<rparr>"
  by (auto simp: commitChanSender_def Let_def split: if_splits)

section \<open>Identity is never changed\<close>

lemma cm_step_identity:
  "cm_step D cm l cm' \<Longrightarrow> cm_id cm' = cm_id cm \<and> cm_peerIds cm' = cm_peerIds cm"
  by (induction rule: cm_step.induct)
    (auto simp: handleVoteReply_frame electionTick_def Stop_def
      dest: AppendEntriesHelper_frame RequestVoteHelper_frame Submit_frame ForwardLeaderHelper_frame
        leaderCommit_frame handleForwardReply_frame commitChanSender_frame restart_started
        persistToStorage_frame split: if_splits)

section \<open>The interface of a voter\<close>

text \<open>
  A voter casts votes, each for a candidate in a term. If a vote once cast is a promise that
  every later step keeps and that binds every later vote of the same term, then it votes for
  one candidate per term.
\<close>

locale ballot =
  fixes step :: "'s \<Rightarrow> 'l \<Rightarrow> 's \<Rightarrow> bool"
    and invar :: "'s \<Rightarrow> bool"
    and promised :: "'s \<Rightarrow> int \<Rightarrow> int \<Rightarrow> bool"
    and casts :: "'l \<Rightarrow> (int \<times> int) option"
  assumes invar_step: "invar s \<Longrightarrow> step s l s' \<Longrightarrow> invar s'"
    and promise_made: "invar s \<Longrightarrow> step s l s' \<Longrightarrow> casts l = Some (t, c) \<Longrightarrow> promised s' t c"
    and promise_kept: "invar s \<Longrightarrow> step s l s' \<Longrightarrow> promised s t c \<Longrightarrow> promised s' t c"
    and promise_binds: "invar s \<Longrightarrow> step s l s' \<Longrightarrow> casts l = Some (t, c) \<Longrightarrow> promised s t d \<Longrightarrow> c = d"
begin

lemma bound_by_promise:
  assumes "runs step s ls s'" and "invar s" and "promised s t d"
    and "l \<in> set ls" and "casts l = Some (t, c)"
  shows "c = d"
  using assms
  by (induction rule: runs.induct) (auto dest: promise_binds promise_kept invar_step)

theorem one_vote_per_term:
  assumes "runs step s ls s'" and "invar s"
    and "l1 \<in> set ls" and "casts l1 = Some (t, c1)"
    and "l2 \<in> set ls" and "casts l2 = Some (t, c2)"
  shows "c1 = c2"
  using assms
proof (induction rule: runs.induct)
  case (runs_cons s l s1 ls s2)
  then have inv: "invar s1" by (blast intro: invar_step)
  consider "l1 = l" "l2 = l" | "l1 = l" "l2 \<in> set ls" | "l1 \<in> set ls" "l2 = l"
    | "l1 \<in> set ls" "l2 \<in> set ls"
    using runs_cons.prems by auto
  then show ?case
  proof cases
    case 1
    with runs_cons.prems show ?thesis by simp
  next
    case 2
    with runs_cons have "promised s1 t c1" by (blast intro: promise_made)
    with bound_by_promise [OF runs_cons.hyps(2) inv] 2 runs_cons.prems show ?thesis by metis
  next
    case 3
    with runs_cons have "promised s1 t c2" by (blast intro: promise_made)
    with bound_by_promise [OF runs_cons.hyps(2) inv] 3 runs_cons.prems show ?thesis by metis
  next
    case 4
    with runs_cons inv show ?thesis by blast
  qed
qed simp

end

section \<open>One vote per term\<close>

text \<open>
  The schedules in which the promise is kept: a goroutine that starts a leader runs while the
  server is still a candidate, a vote reply is handled in the term it was asked for, terms do
  not reach the largest integer, no request comes from the server itself or the value
  that stands for "nobody", what is appended can be stored, and a server that is restarted finds
  on its disk the term, the vote and the log it had in memory.
\<close>

fun prompt :: "'s ConsensusModule \<Rightarrow> label \<Rightarrow> bool" where
  "prompt cm (L_RequestVote req reply) = (rv_CandidateId req \<noteq> -1 \<and> rv_CandidateId req \<noteq> cm_id cm)"
| "prompt cm L_StartLeader = (cm_state cm = Candidate)"
| "prompt cm (L_VoteReply saved el peer reply) = (cm_currentTerm cm = saved)"
| "prompt cm L_Tick = (- (2 ^ 63) \<le> cm_currentTerm cm \<and> cm_currentTerm cm < 2 ^ 63 - 1)"
| "prompt cm (L_Append command) = log_encodable [\<lparr>le_Command = command, le_Term = cm_currentTerm cm\<rparr>]"
| "prompt cm (L_Restart t v log) = (t = cm_currentTerm cm \<and> v = cm_votedFor cm \<and> log = cm_log cm)"
| "prompt cm _ = True"

definition prompt_step :: "'s deps \<Rightarrow> 's ConsensusModule \<Rightarrow> label \<Rightarrow> 's ConsensusModule \<Rightarrow> bool" where
  "prompt_step D cm l cm' \<longleftrightarrow> cm_step D cm l cm' \<and> prompt cm l"

definition running :: "'s ConsensusModule \<Rightarrow> bool" where
  "running cm \<longleftrightarrow> cm_state cm = Candidate \<or> cm_state cm = Leader"

definition self_vote :: "'s ConsensusModule \<Rightarrow> bool" where
  "self_vote cm \<longleftrightarrow> (running cm \<longrightarrow> cm_votedFor cm = cm_id cm) \<and> cm_id cm \<noteq> -1"

definition voted :: "'s ConsensusModule \<Rightarrow> int \<Rightarrow> int \<Rightarrow> bool" where
  "voted cm t c \<longleftrightarrow>
     t < cm_currentTerm cm \<or>
     t = cm_currentTerm cm \<and> \<not> running cm \<and> cm_votedFor cm = c \<and> c \<noteq> -1"

fun grant :: "label \<Rightarrow> (int \<times> int) option" where
  "grant (L_RequestVote req reply) =
     (if rvr_VoteGranted reply then Some (rv_Term req, rv_CandidateId req) else None)"
| "grant _ = None"

text \<open>
  What a step other than a vote request can do to the vote: nothing (or the server dies, or a
  candidate becomes leader), step down into a later term, start an election, or step down
  within the term.
\<close>

definition vote_effect :: "'s ConsensusModule \<Rightarrow> 's ConsensusModule \<Rightarrow> bool" where
  "vote_effect cm cm' \<longleftrightarrow> cm_id cm' = cm_id cm \<and>
     (cm_currentTerm cm' = cm_currentTerm cm \<and> cm_votedFor cm' = cm_votedFor cm \<and>
        (running cm' \<longrightarrow> running cm)
      \<or> cm_currentTerm cm' > cm_currentTerm cm \<and> \<not> running cm'
      \<or> cm_currentTerm cm' > cm_currentTerm cm \<and> cm_votedFor cm' = cm_id cm
      \<or> cm_currentTerm cm' = cm_currentTerm cm \<and> running cm \<and> \<not> running cm')"

lemma vote_effect_same:
  "cm_id cm' = cm_id cm \<Longrightarrow> cm_currentTerm cm' = cm_currentTerm cm \<Longrightarrow>
   cm_votedFor cm' = cm_votedFor cm \<Longrightarrow> cm_state cm' = cm_state cm \<Longrightarrow> vote_effect cm cm'"
  by (simp add: vote_effect_def running_def)

lemma AppendEntries_vote_effect:
  assumes "AppendEntriesHelper D now req cm = Inr (cm', reply)"
  shows "vote_effect cm cm'"
  using AppendEntriesHelper_frame(1,4-6) [OF assms]
  by (cases "cm_state cm") (auto simp: vote_effect_def running_def max_def split: if_splits)

lemma AEReply_vote_effect:
  assumes "handleAEReply now saved p ni n reply cm = Inr cm'"
  shows "vote_effect cm cm'"
  using leaderCommit_frame [OF assms]
  by (auto simp: vote_effect_def running_def max_def split: if_splits)

lemma VoteReply_vote_effect:
  assumes "cm_currentTerm cm = saved"
  shows "vote_effect cm (handleVoteReply now saved el reply cm)"
  using assms
  by (auto simp: vote_effect_def running_def handleVoteReply_vote handleVoteReply_frame)

lemma Tick_vote_effect:
  assumes "- (2 ^ 63) \<le> cm_currentTerm cm" and "cm_currentTerm cm < 2 ^ 63 - 1"
  shows "vote_effect cm (fst (electionTick now ts to cm))"
proof (cases "fst (electionTick now ts to cm) = cm")
  case True
  then show ?thesis by (simp add: vote_effect_same)
next
  case False
  then have "fst (electionTick now ts to cm) = startElection now cm"
    by (auto simp: electionTick_def split: if_splits)
  with wrap64_succ [OF assms] show ?thesis by (simp add: vote_effect_def)
qed

lemma vote_effect_trans_same:
  "vote_effect (finished g cm) cm' \<Longrightarrow> vote_effect cm cm'"
  by (simp add: vote_effect_def running_def)

lemma step_vote_effect:
  assumes "cm_step D cm l cm'" and "prompt cm l" and "\<forall>req reply. l \<noteq> L_RequestVote req reply"
  shows "vote_effect cm cm'"
  using assms
proof (cases rule: cm_step.cases)
  case (AppendEntries now req reply)
  then show ?thesis by (blast intro: AppendEntries_vote_effect)
next
  case (ForwardLeader req reply)
  show ?thesis using ForwardLeaderHelper_frame [OF ForwardLeader(2)] by (intro vote_effect_same)
next
  case (Submitted command ok)
  show ?thesis using Submit_frame [OF Submitted(2)] by (intro vote_effect_same)
next
  case (Tick main ts to now)
  with assms(2) have "vote_effect (finished (Go_ElectionTimer main ts to) cm)
      (fst (electionTick now ts to (finished (Go_ElectionTimer main ts to) cm)))"
    by (intro Tick_vote_effect) auto
  with Tick(2) show ?thesis by (simp add: vote_effect_def running_def)
next
  case (VoteReply saved el peer reply now)
  with assms(2) show ?thesis
    by (auto intro!: vote_effect_trans_same [OF VoteReply_vote_effect])
next
  case StartLeader
  with assms(2) show ?thesis by (simp add: vote_effect_def running_def)
next
  case (AEReply saved peer ni n now reply)
  then show ?thesis by (blast intro: vote_effect_trans_same [OF AEReply_vote_effect])
next
  case (ForwardReply command leader reply)
  show ?thesis using handleForwardReply_frame [OF ForwardReply(3)] by (intro vote_effect_same) auto
next
  case (Commit entries)
  show ?thesis using commitChanSender_frame [OF Commit(4)] by (intro vote_effect_same) auto
next
  case (CommitClosed entries)
  show ?thesis using commitChanSender_frame [OF CommitClosed(5)] by (intro vote_effect_same) auto
next
  case Stopped
  then show ?thesis by (auto simp: Stop_def vote_effect_def running_def split: if_splits)
next
  case (Restart open_db)
  with assms(2) restart_started [OF Restart(2,3)] show ?thesis
    by (simp add: vote_effect_def running_def started_def)
qed (auto intro: vote_effect_same dest!: persistToStorage_frame)

lemma vote_effect_term: "vote_effect cm cm' \<Longrightarrow> cm_currentTerm cm \<le> cm_currentTerm cm'"
  by (auto simp: vote_effect_def)

lemma vote_effect_self_vote: "vote_effect cm cm' \<Longrightarrow> self_vote cm \<Longrightarrow> self_vote cm'"
  by (auto simp: vote_effect_def self_vote_def)

lemma vote_effect_voted: "vote_effect cm cm' \<Longrightarrow> voted cm t c \<Longrightarrow> voted cm' t c"
  by (auto simp: vote_effect_def voted_def)

text \<open>The vote handler itself.\<close>

lemma RequestVote_term:
  "RequestVoteHelper D now req cm = Inr (cm', reply) \<Longrightarrow> cm_currentTerm cm \<le> cm_currentTerm cm'"
  by (simp add: RequestVoteHelper_frame(6))

lemma RequestVote_self_vote:
  assumes "RequestVoteHelper D now req cm = Inr (cm', reply)"
    and "rv_CandidateId req \<noteq> -1" "rv_CandidateId req \<noteq> cm_id cm" and "self_vote cm"
  shows "self_vote cm'"
  using RequestVoteHelper_vote [OF assms(1)] RequestVoteHelper_frame(1,6,7) [OF assms(1)] assms(2-4)
  by (cases "rvr_VoteGranted reply") (auto simp: self_vote_def running_def split: if_splits)

lemma RequestVote_made:
  assumes "RequestVoteHelper D now req cm = Inr (cm', reply)" and "rvr_VoteGranted reply"
    and "rv_CandidateId req \<noteq> -1" "rv_CandidateId req \<noteq> cm_id cm" and "self_vote cm"
  shows "voted cm' (rv_Term req) (rv_CandidateId req)"
  using RequestVoteHelper_vote(1) [OF assms(1,2)] RequestVoteHelper_frame(1,6,7) [OF assms(1)] assms(3-5)
  by (auto simp: voted_def self_vote_def running_def split: if_splits)

lemma RequestVote_kept:
  assumes "RequestVoteHelper D now req cm = Inr (cm', reply)" and "voted cm t c"
  shows "voted cm' t c"
  using RequestVoteHelper_vote [OF assms(1)] RequestVoteHelper_frame(6,7) [OF assms(1)] assms(2)
  by (cases "rvr_VoteGranted reply") (auto simp: voted_def running_def max_def split: if_splits)

lemma RequestVote_binds:
  assumes "RequestVoteHelper D now req cm = Inr (cm', reply)" and "rvr_VoteGranted reply"
    and "voted cm (rv_Term req) d"
  shows "rv_CandidateId req = d"
  using RequestVoteHelper_vote(1) [OF assms(1,2)] RequestVoteHelper_frame(6) [OF assms(1)] assms(3)
  by (auto simp: voted_def split: if_splits)

lemma prompt_step_cases:
  assumes "prompt_step D cm l cm'"
  obtains "vote_effect cm cm'" and "grant l = None"
  | now req reply where "l = L_RequestVote req reply"
      and "RequestVoteHelper D now req cm = Inr (cm', reply)"
      and "rv_CandidateId req \<noteq> -1" and "rv_CandidateId req \<noteq> cm_id cm"
proof (cases "\<exists>req reply. l = L_RequestVote req reply")
  case True
  with assms that(2) show thesis by (auto simp: prompt_step_def elim: RequestVote_stepE)
next
  case False
  then have "grant l = None" by (cases l) auto
  with False assms that(1) show thesis by (auto simp: prompt_step_def intro: step_vote_effect)
qed

interpretation voter: ballot "prompt_step D" self_vote voted grant for D :: "'s deps"
proof unfold_locales
  fix s l s' t c d
  assume s: "self_vote s" and st: "prompt_step D s l s'"
  from st show "self_vote s'"
    by (cases rule: prompt_step_cases) (auto intro: vote_effect_self_vote RequestVote_self_vote s)
  from st show "grant l = Some (t, c) \<Longrightarrow> voted s' t c"
    by (cases rule: prompt_step_cases) (auto intro: RequestVote_made s split: if_splits)
  from st show "voted s t c \<Longrightarrow> voted s' t c"
    by (cases rule: prompt_step_cases) (auto intro: vote_effect_voted RequestVote_kept)
  from st show "grant l = Some (t, c) \<Longrightarrow> voted s t d \<Longrightarrow> c = d"
    by (cases rule: prompt_step_cases) (auto dest: RequestVote_binds split: if_splits)
qed

lemma prompt_step_term: "prompt_step D cm l cm' \<Longrightarrow> cm_currentTerm cm \<le> cm_currentTerm cm'"
  by (cases rule: prompt_step_cases) (auto dest: vote_effect_term RequestVote_term)

end
