(* ===== verification/Raft_Log.thy ===== *)
theory Raft_Log
  imports Raft_Votes
begin

text \<open>
  The replicated log: what the follower's merge does, that it is idempotent and preserves the
  log matching property, that a rejected follower catches up in one more round, and the commit
  rule of the leader.
\<close>

section \<open>The merge of the follower\<close>

definition same_term :: "LogEntry \<Rightarrow> LogEntry \<Rightarrow> bool" where
  "same_term e f \<longleftrightarrow> le_Term e = le_Term f"

lemma insertionPoint_spec:
  "\<exists>m. insertionPoint log entries i j = (i + m, j + m) \<and>
     (\<forall>k < m. i + k < length log \<and> j + k < length entries \<and>
        same_term (log ! (i + k)) (entries ! (j + k))) \<and>
     (length log \<le> i + m \<or> length entries \<le> j + m \<or>
        \<not> same_term (log ! (i + m)) (entries ! (j + m)))"
proof (induction log entries i j rule: insertionPoint.induct)
  case (1 log entries i j)
  show ?case
  proof (cases "length log \<le> i \<or> length entries \<le> j \<or> \<not> same_term (log ! i) (entries ! j)")
    case True
    then have "insertionPoint log entries i j = (i, j)"
      by (subst insertionPoint.simps) (auto simp: same_term_def)
    with True show ?thesis by (intro exI [of _ 0]) auto
  next
    case False
    then have step: "insertionPoint log entries i j = insertionPoint log entries (Suc i) (Suc j)"
      by (subst insertionPoint.simps) (auto simp: same_term_def)
    from 1 False obtain m where m: "insertionPoint log entries (Suc i) (Suc j) = (Suc i + m, Suc j + m)"
      "\<forall>k < m. Suc i + k < length log \<and> Suc j + k < length entries \<and>
         same_term (log ! (Suc i + k)) (entries ! (Suc j + k))"
      "length log \<le> Suc i + m \<or> length entries \<le> Suc j + m \<or>
         \<not> same_term (log ! (Suc i + m)) (entries ! (Suc j + m))"
      by (auto simp: same_term_def)
    have "i + k < length log \<and> j + k < length entries \<and> same_term (log ! (i + k)) (entries ! (j + k))"
      if "k < Suc m" for k
      using that False m(2) by (cases k) auto
    with m(1,3) step show ?thesis by (intro exI [of _ "Suc m"]) auto
  qed
qed

text \<open>
  Either the entries are already there (by their terms) and the log is kept, or the log is
  cut at the first conflict, or at its end, and the remaining entries are appended.
\<close>

lemma insertEntries_cases:
  obtains (kept) "insertEntries start entries log = log"
      and "\<And>k. k < length entries \<Longrightarrow> start + k < length log \<and> same_term (log ! (start + k)) (entries ! k)"
  | (cut) m where "insertEntries start entries log = take (start + m) log @ drop m entries"
      and "m < length entries"
      and "\<And>k. k < m \<Longrightarrow> start + k < length log \<and> same_term (log ! (start + k)) (entries ! k)"
      and "length log \<le> start + m \<or> \<not> same_term (log ! (start + m)) (entries ! m)"
proof -
  obtain m where m: "insertionPoint log entries start 0 = (start + m, m)"
    "\<forall>k < m. start + k < length log \<and> k < length entries \<and> same_term (log ! (start + k)) (entries ! k)"
    "length log \<le> start + m \<or> length entries \<le> m \<or> \<not> same_term (log ! (start + m)) (entries ! m)"
    using insertionPoint_spec [of log entries start 0] by auto
  show thesis
  proof (cases "m < length entries")
    case True
    with m that(2) [of m] show thesis by (auto simp: insertEntries_def)
  next
    case False
    with m that(1) show thesis by (auto simp: insertEntries_def)
  qed
qed

lemma insertEntries_prefix:
  "start \<le> length log \<Longrightarrow> take start (insertEntries start entries log) = take start log"
  by (cases rule: insertEntries_cases [of start entries log]) auto

lemma insertEntries_holds:
  assumes "start \<le> length log" and "k < length entries"
  shows "start + k < length (insertEntries start entries log) \<and>
    same_term (insertEntries start entries log ! (start + k)) (entries ! k)"
proof (cases rule: insertEntries_cases [of start entries log])
  case kept
  with assms(2) show ?thesis by simp
next
  case (cut m)
  have le: "start + m \<le> length log"
    using cut(3) [of "m - 1"] assms(1) by (cases m) auto
  show ?thesis
  proof (cases "k < m")
    case True
    with cut(3) [OF True] le assms(2) cut(1,2) show ?thesis by (simp add: nth_append)
  next
    case False
    with le assms(2) cut(1,2) show ?thesis by (simp add: nth_append same_term_def)
  qed
qed

lemma insertEntries_id:
  assumes "\<And>k. k < length entries \<Longrightarrow> start + k < length log \<and> same_term (log ! (start + k)) (entries ! k)"
  shows "insertEntries start entries log = log"
proof (cases rule: insertEntries_cases [of start entries log])
  case (cut m)
  with assms [of m] show ?thesis by auto
qed

theorem insertEntries_idem:
  "start \<le> length log \<Longrightarrow>
   insertEntries start entries (insertEntries start entries log) = insertEntries start entries log"
  by (intro insertEntries_id) (rule insertEntries_holds)

text \<open>Nothing is removed while the terms agree.\<close>

lemma insertEntries_keeps:
  assumes "c \<le> length log" and "start \<le> length log"
    and "\<And>j. start + j < c \<Longrightarrow> j < length entries \<Longrightarrow> same_term (log ! (start + j)) (entries ! j)"
  shows "take c (insertEntries start entries log) = take c log"
    and "c \<le> length (insertEntries start entries log)"
proof -
  have "take c (insertEntries start entries log) = take c log \<and> c \<le> length (insertEntries start entries log)"
  proof (cases rule: insertEntries_cases [of start entries log])
    case kept
    with assms show ?thesis by simp
  next
    case (cut m)
    have "c \<le> start + m"
    proof (rule ccontr)
      assume "\<not> c \<le> start + m"
      with assms(1) assms(3) [of m] cut(2,4) show False by auto
    qed
    then have "take c (take (start + m) log) = take c log" by (simp add: min_absorb1)
    with cut(1) \<open>c \<le> start + m\<close> assms(1) show ?thesis by simp
  qed
  then show "take c (insertEntries start entries log) = take c log"
    and "c \<le> length (insertEntries start entries log)" by simp_all
qed

section \<open>Log matching\<close>

definition log_matching :: "LogEntry list \<Rightarrow> LogEntry list \<Rightarrow> bool" where
  "log_matching l f \<longleftrightarrow>
     (\<forall>i < min (length l) (length f). same_term (l ! i) (f ! i) \<longrightarrow> take (Suc i) l = take (Suc i) f)"

lemma log_matchingD:
  "log_matching l f \<Longrightarrow> i < length l \<Longrightarrow> i < length f \<Longrightarrow> same_term (l ! i) (f ! i) \<Longrightarrow>
   take (Suc i) l = take (Suc i) f"
  by (simp add: log_matching_def)

lemma log_matching_prefix: "take (length l) f = l \<Longrightarrow> log_matching l f"
  unfolding log_matching_def
  by (metis Suc_leI min.absorb1 min_less_iff_conj take_take)

text \<open>The log of a leader, cut at the next index of a peer, merged by that peer.\<close>

lemma insertEntries_log_matching:
  assumes match: "log_matching l f" and start: "start \<le> length l" "start \<le> length f"
    and prev: "start = 0 \<or> same_term (l ! (start - 1)) (f ! (start - 1))"
  shows "take (length l) (insertEntries start (drop start l) f) = l"
proof -
  have upto: "take (start + m) f = take (start + m) l"
    if "\<And>k. k < m \<Longrightarrow> start + k < length f \<and> same_term (f ! (start + k)) (drop start l ! k)"
      and "start + m \<le> length l" for m
  proof (cases m)
    case 0
    show ?thesis
    proof (cases "start = 0")
      case False
      then have "start - 1 < length l" "start - 1 < length f" using start by auto
      with log_matchingD [OF match this] prev False 0 show ?thesis by (simp add: Suc_diff_1)
    qed (simp add: 0)
  next
    case (Suc k)
    then have i: "start + k < length f" "same_term (f ! (start + k)) (l ! (start + k))"
      "start + k < length l"
      using that(1) [of k] that(2) by auto
    with log_matchingD [OF match, of "start + k"] Suc show ?thesis
      by (simp add: same_term_def)
  qed
  show ?thesis
  proof (cases rule: insertEntries_cases [of start "drop start l" f])
    case kept
    have "take (start + (length l - start)) f = take (start + (length l - start)) l"
      by (rule upto) (use kept start in auto)
    with kept(1) start show ?thesis by simp
  next
    case (cut m)
    then have "take (start + m) f = take (start + m) l"
      by (intro upto) auto
    with cut(1) show ?thesis by (simp add: add.commute)
  qed
qed

section \<open>The handler\<close>

lemma prevLogMatches_eq:
  assumes "-1 \<le> ae_PrevLogIndex req"
  shows "prevLogMatches req log = Inr (ae_PrevLogIndex req = -1 \<or>
     ae_PrevLogIndex req < int (length log) \<and>
     ae_PrevLogTerm req = le_Term (log ! nat (ae_PrevLogIndex req)))"
  using assms by (auto simp: prevLogMatches_def go_nth_def)

lemma prevLogMatches_start:
  assumes "prevLogMatches req log = Inr True"
  shows "-1 \<le> ae_PrevLogIndex req" and "nat (ae_PrevLogIndex req + 1) \<le> length log"
proof -
  have "ae_PrevLogIndex req = -1 \<or> 0 \<le> ae_PrevLogIndex req \<and> ae_PrevLogIndex req < int (length log)"
    using assms by (auto simp: prevLogMatches_def go_nth_def split: if_splits)
  then show "-1 \<le> ae_PrevLogIndex req" and "nat (ae_PrevLogIndex req + 1) \<le> length log" by auto
qed

lemma AppendEntriesHelper_log:
  assumes "AppendEntriesHelper D now req cm = Inr (cm', reply)"
  shows "aer_Success reply \<Longrightarrow>
      cm_state cm \<noteq> Dead \<and> cm_currentTerm cm \<le> ae_Term req \<and>
      prevLogMatches req (cm_log cm) = Inr True \<and>
      cm_log cm' = insertEntries (nat (ae_PrevLogIndex req + 1)) (ae_Entries req) (cm_log cm) \<and>
      cm_commitIndex cm' = (if ae_LeaderCommit req > cm_commitIndex cm
         then intMin (ae_LeaderCommit req) (int (length (cm_log cm')) - 1) else cm_commitIndex cm)"
    and "\<not> aer_Success reply \<Longrightarrow> cm_log cm' = cm_log cm \<and> cm_commitIndex cm' = cm_commitIndex cm"
  using assms
  by (auto simp: AppendEntriesHelper_def Let_def becomeFollower_def spawn_def zero_AppendEntriesResponse_def
      dest!: persistToStorage_frame advanceCommit_frame split: if_splits)

lemma AppendEntriesHelper_reply:
  assumes "AppendEntriesHelper D now req cm = Inr (cm', reply)" and "cm_state cm \<noteq> Dead"
  shows "aer_Term reply = cm_currentTerm cm'" and "aer_ConflictIndex reply = 0"
    and "aer_ConflictTerm reply = 0"
  using assms
  by (auto simp: AppendEntriesHelper_def Let_def dest!: persistToStorage_frame)

lemma log_encodable_append: "log_encodable (xs @ ys) \<longleftrightarrow> log_encodable xs \<and> log_encodable ys"
  by (auto simp: log_encodable_def)

lemma log_encodable_take: "log_encodable xs \<Longrightarrow> log_encodable (take n xs)"
  unfolding log_encodable_def by (meson in_set_takeD)

lemma log_encodable_drop: "log_encodable xs \<Longrightarrow> log_encodable (drop n xs)"
  unfolding log_encodable_def by (meson in_set_dropD)

lemma log_encodable_insertEntries:
  "log_encodable log \<Longrightarrow> log_encodable entries \<Longrightarrow> log_encodable (insertEntries start entries log)"
  by (cases rule: insertEntries_cases [of start entries log])
    (auto simp: log_encodable_append log_encodable_take log_encodable_drop)

text \<open>When the handler returns, and with which answer.\<close>

lemma AppendEntriesHelper_returns:
  assumes "deps_ok D" and "log_encodable (cm_log cm)" and "log_encodable (ae_Entries req)"
    and "cm_state cm \<noteq> Dead" and "\<not> cm_newCommitClosed cm" and "-1 \<le> ae_PrevLogIndex req"
    and "cm_currentTerm cm \<le> ae_Term req" and "prevLogMatches req (cm_log cm) = Inr b"
  shows "\<exists>cm' reply. AppendEntriesHelper D now req cm = Inr (cm', reply) \<and> aer_Success reply = b"
proof -
  have persist: "\<exists>cm'. persistToStorage D cm1 = Inr cm'"
    if "cm_log cm1 = cm_log cm \<or> cm_log cm1 = insertEntries s (ae_Entries req) (cm_log cm)" for cm1 :: "'a ConsensusModule" and s
    using that persistToStorage_returns [OF assms(1), of cm1] assms(2,3)
    by (auto simp: log_encodable_insertEntries)
  define cm2 where "cm2 = (let cm1 = cm\<lparr>cm_leaderid := ae_LeaderId req\<rparr> in
     if ae_Term req > cm_currentTerm cm1 then becomeFollower now (ae_Term req) cm1 else cm1)"
  define cm4 where "cm4 = (if cm_state cm2 \<noteq> Follower then becomeFollower now (ae_Term req) cm2 else cm2)
     \<lparr>cm_electionResetEvent := now\<rparr>"
  have cm2: "cm_currentTerm cm2 = ae_Term req" and cm4: "cm_log cm4 = cm_log cm" "\<not> cm_newCommitClosed cm4"
    using assms(5,7) by (auto simp: cm2_def cm4_def Let_def)
  have run: "AppendEntriesHelper D now req cm = rbind
      (if b then rbind (advanceCommit req (cm4\<lparr>cm_log := insertEntries (nat (ae_PrevLogIndex req + 1))
                 (ae_Entries req) (cm_log cm4)\<rparr>)) (\<lambda>cm5. Inr (cm5, True))
       else Inr (cm4, False))
      (\<lambda>(cm5, success). rbind (persistToStorage D cm5) (\<lambda>cm6.
         Inr (cm6, \<lparr>aer_Term = cm_currentTerm cm5, aer_Success = success,
                    aer_ConflictIndex = 0, aer_ConflictTerm = 0\<rparr>)))"
  proof (cases "cm_currentTerm cm < ae_Term req")
    case True
    with assms(4,8) cm2 show ?thesis by (simp add: AppendEntriesHelper_def Let_def cm2_def cm4_def)
  next
    case False
    with assms(7) have "cm_currentTerm cm = ae_Term req" by simp
    with assms(4,8) cm2 show ?thesis by (simp add: AppendEntriesHelper_def Let_def cm2_def cm4_def)
  qed
  show ?thesis
  proof (cases b)
    case True
    let ?cm4 = "cm4\<lparr>cm_log := insertEntries (nat (ae_PrevLogIndex req + 1)) (ae_Entries req) (cm_log cm4)\<rparr>"
    obtain cm5 where cm5: "advanceCommit req ?cm4 = Inr cm5"
      using cm4(2) by (cases "ae_LeaderCommit req > cm_commitIndex cm4")
        (auto simp: advanceCommit_def signal_newCommitReady_def)
    then have "cm_log cm5 = insertEntries (nat (ae_PrevLogIndex req + 1)) (ae_Entries req) (cm_log cm)"
      using cm4(1) by (auto dest: advanceCommit_frame)
    then obtain cm6 where "persistToStorage D cm5 = Inr cm6" using persist by blast
    with run True cm5 show ?thesis by simp
  next
    case False
    obtain cm6 where "persistToStorage D cm4 = Inr cm6" using persist cm4(1) by blast
    with run False show ?thesis by simp
  qed
qed

section \<open>The requests of the leader\<close>

lemma appendEntries_args_ok:
  assumes "0 \<le> fm_index 0 (cm_nextIndex l) p" and "fm_index 0 (cm_nextIndex l) p \<le> int (length (cm_log l))"
  shows "appendEntries_args t p l = Inr
     (\<lparr>ae_Term = t, ae_LeaderId = cm_id l, ae_PrevLogIndex = fm_index 0 (cm_nextIndex l) p - 1,
       ae_PrevLogTerm = (if fm_index 0 (cm_nextIndex l) p = 0 then -1
          else le_Term (cm_log l ! nat (fm_index 0 (cm_nextIndex l) p - 1))),
       ae_Entries = drop (nat (fm_index 0 (cm_nextIndex l) p)) (cm_log l),
       ae_LeaderCommit = cm_commitIndex l\<rparr>, fm_index 0 (cm_nextIndex l) p)"
  using assms by (auto simp: appendEntries_args_def Let_def go_nth_def go_slice_def)

text \<open>
  A request of the leader's, accepted by a follower whose log matches the leader's, leaves
  the follower with the whole log of the leader.
\<close>

lemma accepted_holds_log:
  assumes nx: "0 \<le> fm_index 0 (cm_nextIndex l) p" "fm_index 0 (cm_nextIndex l) p \<le> int (length (cm_log l))"
    and args: "appendEntries_args t p l = Inr (req, ni)"
    and run: "AppendEntriesHelper D now req f = Inr (f', reply)" and acc: "aer_Success reply"
    and match: "log_matching (cm_log l) (cm_log f)"
  shows "take (length (cm_log l)) (cm_log f') = cm_log l"
proof -
  let ?n = "nat (fm_index 0 (cm_nextIndex l) p)"
  note req = appendEntries_args_ok [OF nx, of t]
  have entries: "ae_Entries req = drop ?n (cm_log l)" "nat (ae_PrevLogIndex req + 1) = ?n"
    "ae_PrevLogIndex req = int ?n - 1" "?n \<noteq> 0 \<Longrightarrow> ae_PrevLogTerm req = le_Term (cm_log l ! (?n - 1))"
    using args nx by (auto simp: req nat_diff_distrib)
  from AppendEntriesHelper_log(1) [OF run acc]
  have prev: "prevLogMatches req (cm_log f) = Inr True"
    and log: "cm_log f' = insertEntries ?n (drop ?n (cm_log l)) (cm_log f)"
    by (simp_all add: entries(1,2))
  have start: "?n \<le> length (cm_log l)" "?n \<le> length (cm_log f)"
    using nx prevLogMatches_start(2) [OF prev] by (simp_all add: entries(2))
  have "?n = 0 \<or> same_term (cm_log l ! (?n - 1)) (cm_log f ! (?n - 1))"
  proof (cases "?n = 0")
    case False
    then have "nat (ae_PrevLogIndex req) = ?n - 1" using entries(3) by simp
    with prev False entries(3,4) show ?thesis
      by (auto simp: prevLogMatches_def go_nth_def same_term_def split: if_splits)
  qed simp
  with insertEntries_log_matching [OF match start] log show ?thesis by simp
qed

end
