(* ===== verification/Raft_Round.thy ===== *)
theory Raft_Round
  imports Raft_Log
begin

text \<open>
  One exchange between a leader and a peer, from the request that \<open>leaderSendAEs\<close> builds to the
  handling of its answer; how fast a follower that is behind catches up; and the commit rule
  that the leader applies to an answer.
\<close>

section \<open>One exchange\<close>

definition replicate_round ::
  "'s deps \<Rightarrow> int \<Rightarrow> int \<Rightarrow> 's ConsensusModule \<Rightarrow> 's ConsensusModule \<Rightarrow>
   ('s ConsensusModule \<times> 's ConsensusModule \<times> AppendEntriesResponse) res" where
  "replicate_round D now peer l f =
     rbind (appendEntries_args (cm_currentTerm l) peer l) (\<lambda>(req, ni).
     rbind (AppendEntriesHelper D now req f) (\<lambda>(f', reply).
     rbind (handleAEReply now (cm_currentTerm l) peer ni (length (ae_Entries req)) reply l) (\<lambda>l'.
       Inr (l', f', reply))))"

text \<open>A leader at work, and a peer that can take its entries.\<close>

definition leading :: "int \<Rightarrow> 's ConsensusModule \<Rightarrow> bool" where
  "leading p l \<longleftrightarrow> cm_state l = Leader \<and> \<not> cm_newCommitClosed l \<and> -1 \<le> cm_commitIndex l \<and>
     log_encodable (cm_log l) \<and> (\<forall>e \<in> set (cm_log l). le_Term e \<noteq> 0) \<and>
     0 \<le> fm_index 0 (cm_nextIndex l) p \<and> fm_index 0 (cm_nextIndex l) p \<le> int (length (cm_log l))"

definition following :: "int \<Rightarrow> 's ConsensusModule \<Rightarrow> bool" where
  "following t f \<longleftrightarrow> cm_state f \<noteq> Dead \<and> \<not> cm_newCommitClosed f \<and> log_encodable (cm_log f) \<and>
     cm_currentTerm f \<le> t"

definition replicated :: "int \<Rightarrow> LogEntry list \<Rightarrow> 's ConsensusModule \<Rightarrow> 's ConsensusModule \<Rightarrow> bool" where
  "replicated p log l f \<longleftrightarrow> take (length log) (cm_log f) = log \<and>
     fm_index 0 (cm_matchIndex l) p = int (length log) - 1 \<and>
     fm_index 0 (cm_nextIndex l) p = int (length log)"

lemma lastIndexOfTerm_spec:
  assumes "n \<le> length log"
  shows "lastIndexOfTerm log t n = -1 \<and> (\<forall>i < n. le_Term (log ! i) \<noteq> t) \<or>
    (\<exists>i < n. lastIndexOfTerm log t n = int i \<and> le_Term (log ! i) = t \<and>
       (\<forall>j. i < j \<and> j < n \<longrightarrow> le_Term (log ! j) \<noteq> t))"
  using assms
proof (induction n)
  case (Suc n)
  show ?case
  proof (cases "le_Term (log ! n) = t")
    case True
    then show ?thesis by (auto intro!: exI [of _ n])
  next
    case False
    with Suc show ?thesis by (auto simp: less_Suc_eq)
  qed
qed simp

lemma lastIndexOfTerm_none:
  "\<forall>e \<in> set log. le_Term e \<noteq> t \<Longrightarrow> lastIndexOfTerm log t (length log) = -1"
  using lastIndexOfTerm_spec [of "length log" log t] by auto

section \<open>The commit rule\<close>

text \<open>What the leader may commit: an entry of its own term that a majority stores.\<close>

definition committable :: "'s ConsensusModule \<Rightarrow> nat \<Rightarrow> bool" where
  "committable cm i \<longleftrightarrow>
     le_Term (cm_log cm ! i) = cm_currentTerm cm \<and> majority (matchCount cm (int i)) cm"

lemma commit_fold:
  "fold (commit_step cm) [a..<a + n] c = c \<and> (\<forall>i \<in> {a..<a + n}. \<not> committable cm i) \<or>
   (\<exists>i \<in> {a..<a + n}. fold (commit_step cm) [a..<a + n] c = int i \<and> committable cm i \<and>
      (\<forall>j \<in> {Suc i..<a + n}. \<not> committable cm j))"
proof (induction n)
  case (Suc n)
  have step: "fold (commit_step cm) [a..<a + Suc n] c =
      (if committable cm (a + n) then int (a + n) else fold (commit_step cm) [a..<a + n] c)"
    by (simp add: commit_step_def committable_def)
  show ?case
  proof (cases "committable cm (a + n)")
    case True
    then show ?thesis unfolding step by (auto intro!: bexI [of _ "a + n"])
  next
    case False
    with Suc.IH show ?thesis unfolding step by (auto simp: less_Suc_eq)
  qed
qed simp

lemma leaderCommit_cases:
  assumes "-1 \<le> cm_commitIndex cm"
  obtains "leaderCommit cm = Inr (cm_commitIndex cm)"
      and "\<And>i. cm_commitIndex cm < int i \<Longrightarrow> i < length (cm_log cm) \<Longrightarrow> \<not> committable cm i"
  | i where "leaderCommit cm = Inr (int i)" and "cm_commitIndex cm < int i"
      and "i < length (cm_log cm)" and "committable cm i"
      and "\<And>j. i < j \<Longrightarrow> j < length (cm_log cm) \<Longrightarrow> \<not> committable cm j"
proof (cases "nat (cm_commitIndex cm + 1) \<le> length (cm_log cm)")
  case True
  define a n where "a = nat (cm_commitIndex cm + 1)" and "n = length (cm_log cm) - a"
  have len: "length (cm_log cm) = a + n" using True by (simp add: a_def n_def)
  have run: "leaderCommit cm = Inr (fold (commit_step cm) [a..<a + n] (cm_commitIndex cm))"
    using assms unfolding leaderCommit_def len a_def [symmetric] by simp
  have le: "a \<le> i \<longleftrightarrow> cm_commitIndex cm < int i" for i
    using assms by (auto simp: a_def)
  from commit_fold [of cm a n "cm_commitIndex cm"] show thesis
    using that run by (auto simp: len le)
next
  case False
  then have "leaderCommit cm = Inr (cm_commitIndex cm)"
    using assms by (simp add: leaderCommit_def)
  with False that(1) show thesis by fastforce
qed

lemma handleAEReply_success:
  assumes "aer_Success reply" and "aer_Term reply = cm_currentTerm l" and "cm_state l = Leader"
    and "-1 \<le> cm_commitIndex l" and "\<not> cm_newCommitClosed l"
  shows "\<exists>l'. handleAEReply now (cm_currentTerm l) p ni n reply l = Inr l' \<and>
     cm_nextIndex l' = fmupd p (ni + int n) (cm_nextIndex l) \<and>
     cm_matchIndex l' = fmupd p (ni + int n - 1) (cm_matchIndex l)"
proof -
  let ?l1 = "l\<lparr>cm_nextIndex := fmupd p (ni + int n) (cm_nextIndex l),
    cm_matchIndex := fmupd p (ni + int n - 1) (cm_matchIndex l)\<rparr>"
  from assms(4) have "-1 \<le> cm_commitIndex ?l1" by simp
  then obtain ci where "leaderCommit ?l1 = Inr ci"
    by (cases rule: leaderCommit_cases) blast+
  with assms show ?thesis
    by (cases "ci = cm_commitIndex l") (auto simp: handleAEReply_def signal_newCommitReady_def Let_def)
qed

section \<open>Catching up\<close>

lemma AppendEntriesHelper_following:
  assumes "AppendEntriesHelper D now req f = Inr (f', reply)"
  shows "cm_newCommitClosed f' = cm_newCommitClosed f"
    and "log_encodable (cm_log f) \<Longrightarrow> log_encodable (ae_Entries req) \<Longrightarrow> log_encodable (cm_log f')"
    and "cm_state f \<noteq> Dead \<Longrightarrow> cm_state f' \<noteq> Dead"
    and "cm_currentTerm f' = (if cm_state f = Dead then cm_currentTerm f else max (cm_currentTerm f) (ae_Term req))"
proof -
  show "cm_newCommitClosed f' = cm_newCommitClosed f"
    using assms by (auto simp: AppendEntriesHelper_def Let_def becomeFollower_def spawn_def
        dest!: persistToStorage_frame advanceCommit_frame split: if_splits)
  show "log_encodable (cm_log f')" if "log_encodable (cm_log f)" "log_encodable (ae_Entries req)"
    using AppendEntriesHelper_log [OF assms] that
    by (cases "aer_Success reply") (auto intro: log_encodable_insertEntries)
  show "cm_state f \<noteq> Dead \<Longrightarrow> cm_state f' \<noteq> Dead"
    using AppendEntriesHelper_frame(5) [OF assms] by (auto split: if_splits)
qed (rule AppendEntriesHelper_frame(4) [OF assms])

lemma round_runs:
  assumes "deps_ok D" and l: "leading p l" and f: "following (cm_currentTerm l) f"
  obtains b req where "appendEntries_args (cm_currentTerm l) p l = Inr (req, fm_index 0 (cm_nextIndex l) p)"
    and "prevLogMatches req (cm_log f) = Inr b" and "fm_index 0 (cm_nextIndex l) p = 0 \<Longrightarrow> b"
    and "length (ae_Entries req) = length (cm_log l) - nat (fm_index 0 (cm_nextIndex l) p)"
    and "\<exists>f' reply. AppendEntriesHelper D now req f = Inr (f', reply) \<and> aer_Success reply = b \<and>
           aer_Term reply = cm_currentTerm l \<and> aer_ConflictIndex reply = 0 \<and> aer_ConflictTerm reply = 0 \<and>
           following (cm_currentTerm l) f'"
proof -
  have nx: "0 \<le> fm_index 0 (cm_nextIndex l) p" "fm_index 0 (cm_nextIndex l) p \<le> int (length (cm_log l))"
    using l by (auto simp: leading_def)
  obtain req where req: "appendEntries_args (cm_currentTerm l) p l = Inr (req, fm_index 0 (cm_nextIndex l) p)"
    and fields: "ae_Term req = cm_currentTerm l" "ae_PrevLogIndex req = fm_index 0 (cm_nextIndex l) p - 1"
      "ae_Entries req = drop (nat (fm_index 0 (cm_nextIndex l) p)) (cm_log l)"
    using appendEntries_args_ok [OF nx] by simp
  have pi: "-1 \<le> ae_PrevLogIndex req" using nx fields by simp
  obtain b where b: "prevLogMatches req (cm_log f) = Inr b" using prevLogMatches_eq [OF pi] by blast
  have "log_encodable (ae_Entries req)"
    using l fields by (simp add: leading_def log_encodable_drop)
  with AppendEntriesHelper_returns [OF assms(1) _ _ _ _ pi _ b, of now] f fields obtain f' reply
    where run: "AppendEntriesHelper D now req f = Inr (f', reply)" and s: "aer_Success reply = b"
    by (auto simp: following_def)
  have dead: "cm_state f \<noteq> Dead" using f by (simp add: following_def)
  have "following (cm_currentTerm l) f'"
    using AppendEntriesHelper_following [OF run] f fields \<open>log_encodable (ae_Entries req)\<close>
    by (auto simp: following_def)
  moreover have "aer_Term reply = cm_currentTerm l"
    using AppendEntriesHelper_reply(1) [OF run dead] AppendEntriesHelper_frame(4) [OF run] dead f fields
    by (simp add: following_def)
  ultimately show thesis
    using that [OF req b] b fields run s AppendEntriesHelper_reply(2,3) [OF run dead]
      prevLogMatches_eq [OF pi] by auto
qed

text \<open>An accepted round: the peer holds the log of the leader and the leader knows.\<close>

lemma round_accepted:
  assumes "deps_ok D" and l: "leading p l" and f: "following (cm_currentTerm l) f"
    and match: "log_matching (cm_log l) (cm_log f)"
    and acc: "\<And>req b. appendEntries_args (cm_currentTerm l) p l = Inr (req, fm_index 0 (cm_nextIndex l) p) \<Longrightarrow>
       prevLogMatches req (cm_log f) = Inr b \<Longrightarrow> b"
  shows "\<exists>l' f' reply. replicate_round D now p l f = Inr (l', f', reply) \<and> aer_Success reply \<and>
    replicated p (cm_log l) l' f'"
proof -
  let ?ni = "fm_index 0 (cm_nextIndex l) p"
  have nx: "0 \<le> ?ni" "?ni \<le> int (length (cm_log l))" using l by (auto simp: leading_def)
  obtain req b where req: "appendEntries_args (cm_currentTerm l) p l = Inr (req, ?ni)"
    and b: "prevLogMatches req (cm_log f) = Inr b"
    and len: "length (ae_Entries req) = length (cm_log l) - nat ?ni"
    and "\<exists>f' reply. AppendEntriesHelper D now req f = Inr (f', reply) \<and> aer_Success reply = b \<and>
           aer_Term reply = cm_currentTerm l \<and> aer_ConflictIndex reply = 0 \<and> aer_ConflictTerm reply = 0 \<and>
           following (cm_currentTerm l) f'"
    using round_runs [OF assms(1) l f] by metis
  then obtain f' reply where run: "AppendEntriesHelper D now req f = Inr (f', reply)"
    and rep: "aer_Success reply" "aer_Term reply = cm_currentTerm l"
    using acc [OF req b] by auto
  obtain l' where l': "handleAEReply now (cm_currentTerm l) p ?ni (length (ae_Entries req)) reply l = Inr l'"
    and idx: "cm_nextIndex l' = fmupd p (?ni + int (length (ae_Entries req))) (cm_nextIndex l)"
      "cm_matchIndex l' = fmupd p (?ni + int (length (ae_Entries req)) - 1) (cm_matchIndex l)"
    using handleAEReply_success [OF rep, of now p ?ni] l by (auto simp: leading_def)
  have "?ni + int (length (ae_Entries req)) = int (length (cm_log l))" using len nx by simp
  then have "replicated p (cm_log l) l' f'"
    using accepted_holds_log [OF nx req run rep(1) match] idx by (simp add: replicated_def)
  with req run l' rep(1) show ?thesis by (simp add: replicate_round_def)
qed

text \<open>A rejected round leaves the logs alone and sends the leader back to the start of its log.\<close>

lemma round_rejected:
  assumes "deps_ok D" and l: "leading p l" and f: "following (cm_currentTerm l) f"
    and req: "appendEntries_args (cm_currentTerm l) p l = Inr (req, fm_index 0 (cm_nextIndex l) p)"
    and rej: "prevLogMatches req (cm_log f) = Inr False"
  shows "\<exists>l' f' reply. replicate_round D now p l f = Inr (l', f', reply) \<and> \<not> aer_Success reply \<and>
    l' = l\<lparr>cm_nextIndex := fmupd p 0 (cm_nextIndex l)\<rparr> \<and> cm_log f' = cm_log f \<and>
    following (cm_currentTerm l) f'"
proof -
  obtain f' reply where run: "AppendEntriesHelper D now req f = Inr (f', reply)"
    and rep: "\<not> aer_Success reply" "aer_Term reply = cm_currentTerm l" "aer_ConflictIndex reply = 0"
      "aer_ConflictTerm reply = 0" "following (cm_currentTerm l) f'"
    using round_runs [OF assms(1) l f, of now] req rej by (metis Inr_inject prod.inject)
  have "lastIndexOfTerm (cm_log l) 0 (length (cm_log l)) = -1"
    using l by (intro lastIndexOfTerm_none) (auto simp: leading_def)
  with rep l have "handleAEReply now (cm_currentTerm l) p (fm_index 0 (cm_nextIndex l) p)
      (length (ae_Entries req)) reply l = Inr (l\<lparr>cm_nextIndex := fmupd p 0 (cm_nextIndex l)\<rparr>)"
    by (simp add: handleAEReply_def leading_def)
  with req run rep AppendEntriesHelper_log(2) [OF run] show ?thesis by (simp add: replicate_round_def)
qed

lemma round_from_start:
  assumes "fm_index 0 (cm_nextIndex l) p = 0"
    and "appendEntries_args t p l = Inr (req, ni)" and "prevLogMatches req log = Inr b"
  shows b
  using assms by (auto simp: appendEntries_args_def prevLogMatches_def Let_def)

text \<open>Two rounds are always enough.\<close>

lemma two_rounds:
  assumes D: "deps_ok D" and l: "leading p l" and f: "following (cm_currentTerm l) f"
    and match: "log_matching (cm_log l) (cm_log f)"
  shows "\<exists>l' f' reply. replicate_round D now p l f = Inr (l', f', reply) \<and>
    (if aer_Success reply then replicated p (cm_log l) l' f'
     else \<exists>l'' f'' reply'. replicate_round D now' p l' f' = Inr (l'', f'', reply') \<and>
            aer_Success reply' \<and> replicated p (cm_log l) l'' f'')"
proof -
  obtain req b where req: "appendEntries_args (cm_currentTerm l) p l = Inr (req, fm_index 0 (cm_nextIndex l) p)"
    and b: "prevLogMatches req (cm_log f) = Inr b"
    using round_runs [OF D l f] by metis
  show ?thesis
  proof (cases b)
    case True
    then have "\<exists>l' f' reply. replicate_round D now p l f = Inr (l', f', reply) \<and> aer_Success reply \<and>
        replicated p (cm_log l) l' f'"
      using req b by (intro round_accepted [OF D l f match]) auto
    then show ?thesis by fastforce
  next
    case False
    obtain l' f' reply where r1: "replicate_round D now p l f = Inr (l', f', reply)" "\<not> aer_Success reply"
      and l': "l' = l\<lparr>cm_nextIndex := fmupd p 0 (cm_nextIndex l)\<rparr>" and f': "cm_log f' = cm_log f"
        "following (cm_currentTerm l) f'"
      using round_rejected [OF D l f req, of now] b False by auto
    have "leading p l'" using l by (simp add: l' leading_def)
    note lead' = this
    have foll': "following (cm_currentTerm l') f'" "log_matching (cm_log l') (cm_log f')"
      using f' match by (simp_all add: l')
    have zero: "fm_index 0 (cm_nextIndex l') p = 0" by (simp add: l')
    have "\<exists>l'' f'' reply'. replicate_round D now' p l' f' = Inr (l'', f'', reply') \<and>
        aer_Success reply' \<and> replicated p (cm_log l') l'' f''"
      by (rule round_accepted [OF D lead' foll']) (rule round_from_start [OF zero])
    with r1 show ?thesis by (simp add: l')
  qed
qed

end
