(* ===== verification/Raft_Commit.thy ===== *)
theory Raft_Commit
  imports Raft_Round
begin

text \<open>
  What is committed stays, and what is delivered on the commit channel is exactly the
  committed log, each entry once and in order, as long as the server is not restarted.
\<close>

section \<open>The interface of an ordered feed\<close>

text \<open>
  The consumer of the commit channel sees a sequence of batches. It needs: a log whose applied
  part never changes, and batches that continue where the last one ended.
\<close>

locale ordered_feed =
  fixes step :: "'s \<Rightarrow> 'l \<Rightarrow> 's \<Rightarrow> bool"
    and invar :: "'s \<Rightarrow> bool"
    and applied :: "'s \<Rightarrow> nat"
    and log :: "'s \<Rightarrow> 'e list"
    and batch :: "'l \<Rightarrow> 'e list"
  assumes invar_step: "invar s \<Longrightarrow> step s l s' \<Longrightarrow> invar s'"
    and applied_le: "invar s \<Longrightarrow> applied s \<le> length (log s)"
    and applied_step: "invar s \<Longrightarrow> step s l s' \<Longrightarrow> applied s \<le> applied s'"
    and applied_stable: "invar s \<Longrightarrow> step s l s' \<Longrightarrow> take (applied s) (log s') = take (applied s) (log s)"
    and batch_step: "invar s \<Longrightarrow> step s l s' \<Longrightarrow> batch l = drop (applied s) (take (applied s') (log s'))"
begin

lemma invar_run: "runs step s ls s' \<Longrightarrow> invar s \<Longrightarrow> invar s'"
  by (induction rule: runs.induct) (auto intro: invar_step)

lemma applied_run: "runs step s ls s' \<Longrightarrow> invar s \<Longrightarrow> applied s \<le> applied s'"
  by (induction rule: runs.induct) (auto dest: applied_step invar_step intro: order_trans)

lemma stable_run:
  "runs step s ls s' \<Longrightarrow> invar s \<Longrightarrow> take (applied s) (log s') = take (applied s) (log s)"
proof (induction rule: runs.induct)
  case (runs_cons s l s1 ls s2)
  then have "take (applied s1) (log s2) = take (applied s1) (log s1)" by (blast intro: invar_step)
  then have "take (applied s) (log s2) = take (applied s) (log s1)"
    using applied_step [OF runs_cons.prems runs_cons.hyps(1)] by (metis min.absorb1 take_take)
  with applied_stable [OF runs_cons.prems runs_cons.hyps(1)] show ?case by simp
qed simp

text \<open>Exactly once, in order, without gaps.\<close>

theorem feed_is_log:
  "runs step s ls s' \<Longrightarrow> invar s \<Longrightarrow>
   concat (map batch ls) = drop (applied s) (take (applied s') (log s'))"
proof (induction rule: runs.induct)
  case (runs_cons s l s1 ls s2)
  have inv: "invar s1" using runs_cons by (blast intro: invar_step)
  have le: "applied s \<le> applied s1" "applied s1 \<le> applied s2" "applied s2 \<le> length (log s2)"
    using runs_cons inv by (auto dest: applied_step applied_run intro: applied_le invar_run)
  have "take (applied s1) (log s2) = take (applied s1) (log s1)"
    using stable_run [OF runs_cons.hyps(2) inv] .
  then have "batch l = drop (applied s) (take (applied s1) (log s2))"
    using batch_step [OF runs_cons.prems runs_cons.hyps(1)] by simp
  moreover have "concat (map batch ls) = drop (applied s1) (take (applied s2) (log s2))"
    using runs_cons inv by simp
  moreover have "drop (applied s) (take (applied s2) (log s2)) =
      drop (applied s) (take (applied s1) (log s2)) @ drop (applied s1) (take (applied s2) (log s2))"
  proof -
    have "take (applied s2) (log s2) = take (applied s1) (log s2) @ drop (applied s1) (take (applied s2) (log s2))"
      using le by (metis append_take_drop_id min.absorb1 take_take)
    moreover have "applied s \<le> length (take (applied s1) (log s2))" using le by simp
    ultimately show ?thesis by (metis append_Nil diff_is_0_eq drop_0 drop_append)
  qed
  ultimately show ?case by simp
qed simp

end

section \<open>The indices of the log\<close>

definition log_ok :: "'s ConsensusModule \<Rightarrow> bool" where
  "log_ok cm \<longleftrightarrow> -1 \<le> cm_lastApplied cm \<and> cm_lastApplied cm \<le> cm_commitIndex cm \<and>
     cm_commitIndex cm < int (length (cm_log cm))"

text \<open>
  What a follower expects of a leader: entries that it has committed are not contradicted by a
  request that it does not refuse for its term.
\<close>

fun agrees :: "'s ConsensusModule \<Rightarrow> label \<Rightarrow> bool" where
  "agrees cm (L_AppendEntries req reply) = (cm_currentTerm cm \<le> ae_Term req \<longrightarrow>
     (\<forall>j < length (ae_Entries req). ae_PrevLogIndex req + 1 + int j \<le> cm_commitIndex cm \<longrightarrow>
        same_term (cm_log cm ! nat (ae_PrevLogIndex req + 1 + int j)) (ae_Entries req ! j)))"
| "agrees cm _ = True"

definition agreed_step :: "'s deps \<Rightarrow> 's ConsensusModule \<Rightarrow> label \<Rightarrow> 's ConsensusModule \<Rightarrow> bool" where
  "agreed_step D cm l cm' \<longleftrightarrow> cm_step D cm l cm' \<and> agrees cm l \<and> \<not> restarts l"

definition committed :: "'s ConsensusModule \<Rightarrow> LogEntry list" where
  "committed cm = take (nat (cm_commitIndex cm + 1)) (cm_log cm)"

definition commit_effect :: "'s ConsensusModule \<Rightarrow> 's ConsensusModule \<Rightarrow> bool" where
  "commit_effect cm cm' \<longleftrightarrow> cm_lastApplied cm' = cm_lastApplied cm \<and>
     cm_commitIndex cm \<le> cm_commitIndex cm' \<and> cm_commitIndex cm' < int (length (cm_log cm')) \<and>
     take (nat (cm_commitIndex cm + 1)) (cm_log cm') = committed cm"

lemma commit_effect_same:
  "cm_lastApplied cm' = cm_lastApplied cm \<Longrightarrow> cm_commitIndex cm' = cm_commitIndex cm \<Longrightarrow>
   cm_log cm' = cm_log cm \<Longrightarrow> log_ok cm \<Longrightarrow> commit_effect cm cm'"
  by (simp add: commit_effect_def log_ok_def committed_def)

lemma commit_effect_append:
  "cm_lastApplied cm' = cm_lastApplied cm \<Longrightarrow> cm_commitIndex cm' = cm_commitIndex cm \<Longrightarrow>
   cm_log cm' = cm_log cm @ es \<Longrightarrow> log_ok cm \<Longrightarrow> commit_effect cm cm'"
  by (simp add: commit_effect_def log_ok_def committed_def nat_le_iff)

lemma AppendEntries_commit_effect:
  assumes run: "AppendEntriesHelper D now req cm = Inr (cm', reply)" and ok: "log_ok cm"
    and agree: "agrees cm (L_AppendEntries req reply)"
  shows "commit_effect cm cm'"
proof (cases "aer_Success reply")
  case False
  with AppendEntriesHelper_log(2) [OF run] AppendEntriesHelper_frame(3) [OF run] ok
  show ?thesis by (intro commit_effect_same) auto
next
  case True
  let ?s = "nat (ae_PrevLogIndex req + 1)" and ?c = "nat (cm_commitIndex cm + 1)"
  from AppendEntriesHelper_log(1) [OF run True]
  have prev: "prevLogMatches req (cm_log cm) = Inr True"
    and log: "cm_log cm' = insertEntries ?s (ae_Entries req) (cm_log cm)"
    and term_ok: "cm_currentTerm cm \<le> ae_Term req"
    and ci: "cm_commitIndex cm' = (if ae_LeaderCommit req > cm_commitIndex cm
         then intMin (ae_LeaderCommit req) (int (length (cm_log cm')) - 1) else cm_commitIndex cm)"
    by auto
  note start = prevLogMatches_start [OF prev]
  have c: "?c \<le> length (cm_log cm)" using ok by (simp add: log_ok_def nat_le_iff)
  have st: "same_term (cm_log cm ! (?s + j)) (ae_Entries req ! j)"
    if "?s + j < ?c" "j < length (ae_Entries req)" for j
  proof -
    have "nat (ae_PrevLogIndex req + 1 + int j) = ?s + j" using start(1) by simp
    moreover have "ae_PrevLogIndex req + 1 + int j \<le> cm_commitIndex cm" using that(1) start(1) by linarith
    ultimately show ?thesis using agree term_ok that(2) by force
  qed
  note keeps = insertEntries_keeps [OF c start(2) st]
  have "take ?c (cm_log cm') = take ?c (cm_log cm)" "?c \<le> length (cm_log cm')"
    using keeps by (simp_all add: log)
  with ci ok AppendEntriesHelper_frame(3) [OF run] show ?thesis
    by (auto simp: commit_effect_def committed_def log_ok_def intMin_def split: if_splits)
qed

lemma AEReply_commit_effect:
  assumes run: "handleAEReply now saved p ni n reply cm = Inr cm'" and ok: "log_ok cm"
  shows "commit_effect cm cm'"
proof -
  have frame: "cm_log cm' = cm_log cm" "cm_lastApplied cm' = cm_lastApplied cm"
    using leaderCommit_frame [OF run] by auto
  have "cm_commitIndex cm \<le> cm_commitIndex cm' \<and> cm_commitIndex cm' < int (length (cm_log cm))"
  proof (cases "aer_Term reply \<le> cm_currentTerm cm \<and> cm_state cm = Leader \<and> saved = aer_Term reply \<and> aer_Success reply")
    case True
    let ?c1 = "cm\<lparr>cm_nextIndex := fmupd p (ni + int n) (cm_nextIndex cm),
        cm_matchIndex := fmupd p (ni + int n - 1) (cm_matchIndex cm)\<rparr>"
    have "-1 \<le> cm_commitIndex ?c1" using ok by (simp add: log_ok_def)
    then obtain ci where ci: "leaderCommit ?c1 = Inr ci" "cm_commitIndex cm \<le> ci"
      "ci < int (length (cm_log cm))"
      by (cases rule: leaderCommit_cases) (use ok in \<open>auto simp: log_ok_def\<close>)
    with run True show ?thesis
      by (auto simp: handleAEReply_def Let_def dest!: signal_frame split: if_splits)
  next
    case False
    with run ok show ?thesis
      by (auto simp: handleAEReply_def log_ok_def Let_def split: if_splits)
  qed
  with frame show ?thesis by (simp add: commit_effect_def committed_def)
qed

lemma commit_effect_finished: "commit_effect (finished g cm) cm' \<Longrightarrow> commit_effect cm cm'"
  by (simp add: commit_effect_def committed_def)

lemma log_ok_finished [simp]: "log_ok (finished g cm) = log_ok cm"
  by (simp add: log_ok_def)

text \<open>Everything but a delivery has a commit effect.\<close>

lemma step_commit_effect:
  assumes "cm_step D cm l cm'" and "agrees cm l" and ok: "log_ok cm" and "\<forall>es. l \<noteq> L_Commit es"
    and "\<not> restarts l"
  shows "commit_effect cm cm'"
  using assms
proof (cases rule: cm_step.cases)
  case (RequestVote now req reply)
  show ?thesis using RequestVoteHelper_frame [OF RequestVote(2)] ok by (intro commit_effect_same)
next
  case (AppendEntries now req reply)
  with assms(2) ok show ?thesis by (blast intro: AppendEntries_commit_effect)
next
  case (ForwardLeader req reply)
  show ?thesis
  proof (cases "cm_state cm = Leader")
    case True
    with ForwardLeaderHelper_frame [OF ForwardLeader(2)] ok show ?thesis
      by (intro commit_effect_append) auto
  next
    case False
    with ForwardLeaderHelper_frame [OF ForwardLeader(2)] ok show ?thesis
      by (intro commit_effect_same) auto
  qed
next
  case (Submitted command res)
  show ?thesis
  proof (cases "cm_state cm = Leader")
    case True
    with Submit_frame [OF Submitted(2)] ok show ?thesis by (intro commit_effect_append) auto
  next
    case False
    with Submit_frame [OF Submitted(2)] ok show ?thesis by (intro commit_effect_same) auto
  qed
next
  case (Tick main ts to now)
  then show ?thesis
    by (auto intro!: commit_effect_same ok simp: electionTick_def)
next
  case (VoteReply saved el peer reply now)
  then show ?thesis by (auto intro!: commit_effect_same ok simp: handleVoteReply_frame)
next
  case (AEReply saved peer ni n now reply)
  then show ?thesis using ok by (blast intro: commit_effect_finished AEReply_commit_effect
        [where cm = "finished g cm" for g] log_ok_finished [THEN iffD2])
next
  case (ForwardReply command leader reply)
  show ?thesis using handleForwardReply_frame [OF ForwardReply(3)] ok by (intro commit_effect_same) auto
next
  case (Commit entries)
  with assms(4) show ?thesis by blast
next
  case (CommitClosed entries)
  with assms(4) show ?thesis by blast
next
  case Stopped
  then show ?thesis by (auto intro!: commit_effect_same ok simp: Stop_def split: if_splits)
next
  case (SubmitAppends command)
  then show ?thesis using ok by (intro commit_effect_append) auto
next
  case SubmitPersists
  then show ?thesis using ok by (intro commit_effect_same) (auto dest!: persistToStorage_frame)
qed (auto intro!: commit_effect_same ok)

section \<open>Delivery\<close>

text \<open>The log as its consumer sees it: commands with their positions.\<close>

definition numbered :: "LogEntry list \<Rightarrow> (Command option \<times> int) list" where
  "numbered log = map (\<lambda>i. (le_Command (log ! i), int i)) [0..<length log]"

fun delivery :: "label \<Rightarrow> (Command option \<times> int) list" where
  "delivery (L_Commit es) = map (\<lambda>e. (ce_Command e, ce_Index e)) es"
| "delivery _ = []"

lemma length_numbered [simp]: "length (numbered log) = length log"
  by (simp add: numbered_def)

lemma nth_numbered [simp]: "i < length log \<Longrightarrow> numbered log ! i = (le_Command (log ! i), int i)"
  by (simp add: numbered_def)

lemma take_numbered: "take n (numbered log) = numbered (take n log)"
  by (rule nth_equalityI) auto

lemma take_numbered_cong: "take n log = take n log' \<Longrightarrow> take n (numbered log) = take n (numbered log')"
  by (simp add: take_numbered)

lemma length_number_entries [simp]: "length (number_entries t i es) = length es"
  by (induction es arbitrary: i) auto

lemma nth_number_entries:
  "j < length es \<Longrightarrow> number_entries t i es ! j =
     \<lparr>ce_Command = le_Command (es ! j), ce_Index = i + 1 + int j, ce_Term = t\<rparr>"
  by (induction es arbitrary: i j) (auto simp: nth_Cons split: nat.splits)

text \<open>The sender of commits never fails while the indices are in order.\<close>

lemma commitChanSender_returns:
  assumes "log_ok cm"
  shows "commitChanSender cm = Inr (cm\<lparr>cm_lastApplied := cm_commitIndex cm\<rparr>,
     number_entries (cm_currentTerm cm) (cm_lastApplied cm)
       (drop (nat (cm_lastApplied cm + 1)) (committed cm)))"
proof (cases "cm_lastApplied cm < cm_commitIndex cm")
  case True
  let ?a = "nat (cm_lastApplied cm + 1)" and ?c = "nat (cm_commitIndex cm + 1)"
  have n: "nat (cm_commitIndex cm + 1 - (cm_lastApplied cm + 1)) = ?c - ?a"
    using assms True unfolding log_ok_def by arith
  have "go_slice (cm_log cm) (cm_lastApplied cm + 1) (cm_commitIndex cm + 1) =
      Inr (take (?c - ?a) (drop ?a (cm_log cm)))"
    unfolding n [symmetric] go_slice_def using assms True by (simp add: log_ok_def)
  with True show ?thesis by (simp add: commitChanSender_def committed_def drop_take Let_def)
next
  case False
  with assms have "cm_lastApplied cm = cm_commitIndex cm" by (simp add: log_ok_def)
  then show ?thesis by (cases cm) (simp add: commitChanSender_def committed_def Let_def)
qed

lemma commitChanSender_delivery:
  assumes "log_ok cm" and "commitChanSender cm = Inr (cm', es)"
  shows "delivery (L_Commit es) = drop (nat (cm_lastApplied cm + 1)) (take (nat (cm_lastApplied cm' + 1)) (numbered (cm_log cm')))"
    and "cm_log cm' = cm_log cm" and "cm_commitIndex cm' = cm_commitIndex cm"
    and "cm_lastApplied cm' = cm_commitIndex cm"
proof -
  from commitChanSender_returns [OF assms(1)] assms(2)
  have es: "es = number_entries (cm_currentTerm cm) (cm_lastApplied cm)
       (drop (nat (cm_lastApplied cm + 1)) (committed cm))"
    and cm': "cm' = cm\<lparr>cm_lastApplied := cm_commitIndex cm\<rparr>" by auto
  show "delivery (L_Commit es) = drop (nat (cm_lastApplied cm + 1)) (take (nat (cm_lastApplied cm' + 1)) (numbered (cm_log cm')))"
    by (rule nth_equalityI)
      (use assms(1) in \<open>auto simp: es cm' committed_def nth_number_entries log_ok_def\<close>)
  show "cm_log cm' = cm_log cm" and "cm_commitIndex cm' = cm_commitIndex cm"
    and "cm_lastApplied cm' = cm_commitIndex cm" by (simp_all add: cm')
qed

text \<open>One step, in the terms of the feed.\<close>

lemma agreed_step_feed:
  assumes "log_ok cm" and "agreed_step D cm l cm'"
  shows "log_ok cm'" and "cm_lastApplied cm \<le> cm_lastApplied cm'"
    and "cm_commitIndex cm \<le> cm_commitIndex cm'"
    and "take (nat (cm_commitIndex cm + 1)) (cm_log cm') = committed cm"
    and "delivery l = drop (nat (cm_lastApplied cm + 1)) (take (nat (cm_lastApplied cm' + 1)) (numbered (cm_log cm')))"
proof -
  have "log_ok cm' \<and> cm_lastApplied cm \<le> cm_lastApplied cm' \<and> cm_commitIndex cm \<le> cm_commitIndex cm' \<and>
    take (nat (cm_commitIndex cm + 1)) (cm_log cm') = committed cm \<and>
    delivery l = drop (nat (cm_lastApplied cm + 1)) (take (nat (cm_lastApplied cm' + 1)) (numbered (cm_log cm')))"
  proof (cases "\<exists>es. l = L_Commit es")
    case True
    then obtain es where l: "l = L_Commit es" by blast
    with assms(2) obtain cm0 where cm0: "commitChanSender cm0 = Inr (cm', es)"
      and same: "cm_log cm0 = cm_log cm" "cm_commitIndex cm0 = cm_commitIndex cm"
        "cm_lastApplied cm0 = cm_lastApplied cm"
      by (auto simp: agreed_step_def elim!: Commit_stepE)
    have "log_ok cm0" using assms(1) same by (simp add: log_ok_def)
    from commitChanSender_delivery [OF this cm0] assms(1) same show ?thesis
      by (simp add: l log_ok_def committed_def del: delivery.simps)
  next
    case False
    then have "commit_effect cm cm'"
      using assms by (auto simp: agreed_step_def intro: step_commit_effect)
    moreover have "delivery l = []" using False by (cases l) auto
    ultimately show ?thesis using assms(1) by (auto simp: commit_effect_def log_ok_def)
  qed
  then show "log_ok cm'" and "cm_lastApplied cm \<le> cm_lastApplied cm'"
    and "cm_commitIndex cm \<le> cm_commitIndex cm'"
    and "take (nat (cm_commitIndex cm + 1)) (cm_log cm') = committed cm"
    and "delivery l = drop (nat (cm_lastApplied cm + 1)) (take (nat (cm_lastApplied cm' + 1)) (numbered (cm_log cm')))"
    by blast+
qed

lemma take_le_committed:
  "n \<le> nat (cm_commitIndex cm + 1) \<Longrightarrow> take (nat (cm_commitIndex cm + 1)) log = committed cm \<Longrightarrow>
   take n log = take n (cm_log cm)"
  unfolding committed_def by (metis min.absorb1 take_take)

interpretation commit_feed: ordered_feed "agreed_step D" log_ok "\<lambda>cm. nat (cm_lastApplied cm + 1)"
  "\<lambda>cm. numbered (cm_log cm)" delivery for D :: "'s deps"
proof unfold_locales
  fix s s' :: "'s ConsensusModule" and l
  assume s: "log_ok s"
  show "nat (cm_lastApplied s + 1) \<le> length (numbered (cm_log s))"
    using s by (simp add: log_ok_def nat_le_iff)
  assume st: "agreed_step D s l s'"
  note feed = agreed_step_feed [OF s st]
  show "log_ok s'" and "nat (cm_lastApplied s + 1) \<le> nat (cm_lastApplied s' + 1)"
    and "delivery l = drop (nat (cm_lastApplied s + 1)) (take (nat (cm_lastApplied s' + 1)) (numbered (cm_log s')))"
    using feed by (simp_all add: nat_mono)
  have "take (nat (cm_lastApplied s + 1)) (cm_log s') = take (nat (cm_lastApplied s + 1)) (cm_log s)"
    by (rule take_le_committed [OF _ feed(4)]) (use s in \<open>simp add: log_ok_def nat_mono\<close>)
  then show "take (nat (cm_lastApplied s + 1)) (numbered (cm_log s')) =
      take (nat (cm_lastApplied s + 1)) (numbered (cm_log s))"
    by (rule take_numbered_cong)
qed

text \<open>The committed part of the log is only ever extended.\<close>

definition committed_le :: "'s ConsensusModule \<Rightarrow> 's ConsensusModule \<Rightarrow> bool" where
  "committed_le cm cm' \<longleftrightarrow> cm_commitIndex cm \<le> cm_commitIndex cm' \<and>
     take (nat (cm_commitIndex cm + 1)) (committed cm') = committed cm"

lemma take_committed: "cm_commitIndex cm \<le> cm_commitIndex cm' \<Longrightarrow>
   take (nat (cm_commitIndex cm + 1)) (committed cm') = take (nat (cm_commitIndex cm + 1)) (cm_log cm')"
  unfolding committed_def by (simp add: min_absorb1 nat_mono)

lemma committed_le_refl: "committed_le cm cm"
  by (simp add: committed_le_def committed_def)

lemma committed_le_trans:
  assumes "committed_le a b" and "committed_le b c"
  shows "committed_le a c"
proof -
  have "nat (cm_commitIndex a + 1) \<le> nat (cm_commitIndex b + 1)"
    using assms(1) by (simp add: committed_le_def nat_mono)
  then have "take (nat (cm_commitIndex a + 1)) (committed c) =
      take (nat (cm_commitIndex a + 1)) (take (nat (cm_commitIndex b + 1)) (committed c))"
    by (simp add: min_absorb1)
  with assms show ?thesis by (simp add: committed_le_def)
qed

lemma committed_le_run: "runs (agreed_step D) cm ls cm' \<Longrightarrow> log_ok cm \<Longrightarrow> committed_le cm cm'"
proof (induction rule: runs.induct)
  case (runs_cons s l s1 ls s2)
  note feed = agreed_step_feed [OF runs_cons.prems runs_cons.hyps(1)]
  have "committed_le s s1" using feed(3,4) by (simp add: committed_le_def take_committed)
  with runs_cons.IH [OF feed(1)] show ?case by (blast intro: committed_le_trans)
qed (rule committed_le_refl)

end
