(* ===== verification/ChatSpec.thy ===== *)
theory ChatSpec
  imports Proto GoStrings
begin

text \<open>
  What the replicated application promises, free of keys, encodings and pointers: users by id,
  and groups by name with their members and the sequence of their posts, each with its author,
  its text and the set of names that like it. The group id, which every server draws for
  itself, is not part of it. The locale at the end is the interface between the disk store and
  the command interpreter.
\<close>

section \<open>Abstract state and operations\<close>

record post =
  post_author :: string
  post_text :: string
  post_likes :: "string fset"

record AGroup =
  ag_members :: "(uint32, string) fmap"
  ag_posts :: "post list"

record AChat =
  ac_users :: "uint32 \<rightharpoonup> User"
  ac_groups :: "string \<rightharpoonup> AGroup"

definition upd_group :: "string \<Rightarrow> (AGroup option \<Rightarrow> AGroup option) \<Rightarrow> AChat \<Rightarrow> AChat" where
  "upd_group n f c = c\<lparr>ac_groups := (ac_groups c)(n := f (ac_groups c n))\<rparr>"

definition upd_posts :: "string \<Rightarrow> (post list \<Rightarrow> post list) \<Rightarrow> AChat \<Rightarrow> AChat" where
  "upd_posts n f = upd_group n (map_option (\<lambda>g. g\<lparr>ag_posts := f (ag_posts g)\<rparr>))"

definition a_login :: "User \<Rightarrow> AChat \<Rightarrow> AChat" where
  "a_login u c = c\<lparr>ac_users := (ac_users c)(user_Id u \<mapsto> u)\<rparr>"

definition a_delete_user :: "uint32 \<Rightarrow> AChat \<Rightarrow> AChat" where
  "a_delete_user uid c = c\<lparr>ac_users := (ac_users c)(uid := None)\<rparr>"

definition a_join :: "string \<Rightarrow> uint32 \<Rightarrow> string \<Rightarrow> AChat \<Rightarrow> AChat" where
  "a_join n uid uname =
     upd_group n (\<lambda>g. case g of
         None \<Rightarrow> Some \<lparr>ag_members = fmupd uid uname fmempty, ag_posts = []\<rparr>
       | Some a \<Rightarrow> Some (a\<lparr>ag_members := fmupd uid uname (ag_members a)\<rparr>))"

text \<open>A member whose name is empty counts as absent and stays.\<close>

definition a_leave :: "string \<Rightarrow> uint32 \<Rightarrow> AChat \<Rightarrow> AChat" where
  "a_leave n uid =
     upd_group n (map_option (\<lambda>a. a\<lparr>ag_members :=
       (if fm_index [] (ag_members a) uid = [] then ag_members a else fmdrop uid (ag_members a))\<rparr>))"

definition a_post :: "string \<Rightarrow> post \<Rightarrow> AChat \<Rightarrow> AChat" where
  "a_post n p = upd_posts n (\<lambda>ps. ps @ [p])"

definition like_post :: "string \<Rightarrow> post \<Rightarrow> post" where
  "like_post u p = (if post_author p = u then p else p\<lparr>post_likes := finsert u (post_likes p)\<rparr>)"

definition unlike_post :: "string \<Rightarrow> post \<Rightarrow> post" where
  "unlike_post u p = (if post_author p = u then p else p\<lparr>post_likes := post_likes p |-| {|u|}\<rparr>)"

definition upd_nth :: "nat \<Rightarrow> ('a \<Rightarrow> 'a) \<Rightarrow> 'a list \<Rightarrow> 'a list" where
  "upd_nth i f xs = (if i < length xs then xs[i := f (xs ! i)] else xs)"

definition a_like :: "string \<Rightarrow> nat \<Rightarrow> string \<Rightarrow> AChat \<Rightarrow> AChat" where
  "a_like n i u = upd_posts n (upd_nth i (like_post u))"

definition a_unlike :: "string \<Rightarrow> nat \<Rightarrow> string \<Rightarrow> AChat \<Rightarrow> AChat" where
  "a_unlike n i u = upd_posts n (upd_nth i (unlike_post u))"

lemmas a_op_defs =
  a_login_def a_delete_user_def a_join_def a_leave_def a_post_def a_like_def a_unlike_def
  upd_posts_def upd_group_def

definition members :: "AChat \<Rightarrow> string \<Rightarrow> uint32 set" where
  "members c n = (case ac_groups c n of None \<Rightarrow> {} | Some a \<Rightarrow> fmdom' (ag_members a))"

definition posts :: "AChat \<Rightarrow> string \<Rightarrow> post list" where
  "posts c n = (case ac_groups c n of None \<Rightarrow> [] | Some a \<Rightarrow> ag_posts a)"

section \<open>Laws of the abstract operations\<close>

lemma length_upd_nth [simp]: "length (upd_nth i f xs) = length xs"
  by (simp add: upd_nth_def)

lemma nth_upd_nth: "j < length xs \<Longrightarrow> upd_nth i f xs ! j = (if j = i then f (xs ! j) else xs ! j)"
  by (simp add: upd_nth_def nth_list_update)

lemma upd_nth_comp: "upd_nth i f (upd_nth i g xs) = upd_nth i (\<lambda>x. f (g x)) xs"
  by (simp add: upd_nth_def)

lemma upd_posts_comp: "upd_posts n f (upd_posts n g c) = upd_posts n (\<lambda>ps. f (g ps)) c"
  by (cases "ac_groups c n") (simp_all add: upd_posts_def upd_group_def)

lemma like_post_idem [simp]: "like_post u (like_post u p) = like_post u p"
  by (simp add: like_post_def)

lemma unlike_like_post: "u |\<notin>| post_likes p \<Longrightarrow> unlike_post u (like_post u p) = p"
  by (simp add: like_post_def unlike_post_def)

lemma a_like_idem: "a_like n i u (a_like n i u c) = a_like n i u c"
  by (simp add: a_like_def upd_posts_comp upd_nth_comp)

lemma upd_nth_id: "(i < length xs \<Longrightarrow> f (xs ! i) = xs ! i) \<Longrightarrow> upd_nth i f xs = xs"
  by (auto simp: upd_nth_def list_update_same_conv)

lemma upd_posts_id: "f (posts c n) = posts c n \<Longrightarrow> upd_posts n f c = c"
  by (cases "ac_groups c n")
    (auto simp: upd_posts_def upd_group_def posts_def fun_upd_idem)

lemma a_unlike_like:
  assumes "i < length (posts c n) \<Longrightarrow> u |\<notin>| post_likes (posts c n ! i)"
  shows "a_unlike n i u (a_like n i u c) = c"
proof -
  have "upd_nth i (\<lambda>p. unlike_post u (like_post u p)) (posts c n) = posts c n"
    using assms by (intro upd_nth_id) (simp add: unlike_like_post)
  then show ?thesis
    by (simp add: a_like_def a_unlike_def upd_posts_comp upd_nth_comp upd_posts_id)
qed

lemma members_join: "members (a_join n uid uname c) m = (if m = n then insert uid (members c n) else members c m)"
  by (auto simp: members_def a_join_def upd_group_def split: option.splits)

lemma members_leave_other: "m \<noteq> n \<Longrightarrow> members (a_leave n uid c) m = members c m"
  by (simp add: members_def a_leave_def upd_group_def)

definition named_members :: "AChat \<Rightarrow> bool" where
  "named_members c \<longleftrightarrow> (\<forall>n a uid. ac_groups c n = Some a \<longrightarrow> fmlookup (ag_members a) uid \<noteq> Some [])"

lemma members_leave:
  assumes "named_members c"
  shows "members (a_leave n uid c) m = (if m = n then members c n - {uid} else members c m)"
proof (cases "ac_groups c n")
  case None
  then show ?thesis by (auto simp: members_def a_leave_def upd_group_def)
next
  case (Some a)
  show ?thesis
  proof (cases "fmlookup (ag_members a) uid")
    case None
    with Some show ?thesis
      by (auto simp: members_def a_leave_def upd_group_def fmlookup_dom'_iff)
  next
    case (Some v)
    with \<open>ac_groups c n = Some a\<close> assms have "v \<noteq> []"
      by (auto simp: named_members_def)
    with Some \<open>ac_groups c n = Some a\<close> show ?thesis
      by (auto simp: members_def a_leave_def upd_group_def)
  qed
qed

lemma named_members_join: "named_members c \<Longrightarrow> uname \<noteq> [] \<Longrightarrow> named_members (a_join n uid uname c)"
  unfolding named_members_def
  by (auto simp: a_join_def upd_group_def split: option.splits if_splits)

lemma named_members_leave: "named_members c \<Longrightarrow> named_members (a_leave n uid c)"
  unfolding named_members_def
  by (auto simp: a_leave_def upd_group_def split: if_splits)

lemma posts_simps [simp]:
  "posts (a_join n uid uname c) m = posts c m"
  "posts (a_leave n uid c) m = posts c m"
  "posts (a_login u c) m = posts c m"
  "posts (a_delete_user uid c) m = posts c m"
  by (auto simp: posts_def a_op_defs split: option.splits)

lemma posts_upd_posts:
  "ac_groups c n \<noteq> None \<Longrightarrow> posts (upd_posts n f c) m = (if m = n then f (posts c n) else posts c m)"
  by (auto simp: posts_def upd_posts_def upd_group_def)

lemma posts_upd_posts_le:
  "(\<And>ps. length (f ps) \<le> length ps + k) \<Longrightarrow> length (posts (upd_posts n f c) m) \<le> length (posts c m) + k"
  by (cases "ac_groups c n") (auto simp: posts_def upd_posts_def upd_group_def split: option.splits)

section \<open>The interface of the chat store\<close>

text \<open>
  Group names share the key space of the store with the decimal user ids, and the database has
  no empty key; a name outside both is a proper one.
\<close>

definition numeral_key :: "string \<Rightarrow> bool" where
  "numeral_key s \<longleftrightarrow> s \<noteq> [] \<and> list_all is_digit s"

definition group_name_ok :: "string \<Rightarrow> bool" where
  "group_name_ok s \<longleftrightarrow> s \<noteq> [] \<and> \<not> numeral_key s"

lemma numeral_key_Itoa [simp]: "numeral_key (Itoa n)"
  by (auto simp: numeral_key_def list_all_iff dest: Itoa_digits)

lemma group_name_not_Itoa: "group_name_ok n \<Longrightarrow> n \<noteq> Itoa k"
  by (auto simp: group_name_ok_def)

definition abs_post :: "ChatMessage \<Rightarrow> post" where
  "abs_post m =
     \<lparr>post_author = User_GetName (msg_MessagedBy m), post_text = msg_Message m,
      post_likes = fmdom (msg_LikedBy m)\<rparr>"

text \<open>An operation returns, keeps the invariant and has the abstract effect.\<close>

definition implements :: "'d res \<Rightarrow> ('d \<Rightarrow> bool) \<Rightarrow> ('d \<Rightarrow> AChat) \<Rightarrow> AChat \<Rightarrow> bool" where
  "implements r invar absf c \<longleftrightarrow> (\<exists>d'. r = Inr d' \<and> invar d' \<and> absf d' = c)"

definition message_ok :: "ChatMessage \<Rightarrow> bool" where
  "message_ok m \<longleftrightarrow> msg_MessagedBy m \<noteq> None"

definition max_posts :: nat where
  "max_posts = 2 ^ 32"

locale chat_store =
  fixes invar :: "'d \<Rightarrow> bool"
    and absf :: "'d \<Rightarrow> AChat"
    and save_user :: "User option \<Rightarrow> 'd \<Rightarrow> (bool \<times> 'd) res"
    and delete_user :: "uint32 \<Rightarrow> 'd \<Rightarrow> 'd res"
    and join :: "uint32 \<Rightarrow> string \<Rightarrow> User option \<Rightarrow> 'd \<Rightarrow> 'd res"
    and leave :: "uint32 \<Rightarrow> string \<Rightarrow> 'd \<Rightarrow> (bool \<times> 'd) res"
    and append :: "AppendChat option \<Rightarrow> 'd \<Rightarrow> 'd res"
    and like :: "LikeMessage option \<Rightarrow> 'd \<Rightarrow> 'd res"
    and unlike :: "UnLikeMessage option \<Rightarrow> 'd \<Rightarrow> 'd res"
  assumes save_user: "invar d \<Longrightarrow>
      implements (rbind (save_user (Some u) d) (\<lambda>(_, d'). Inr d')) invar absf (a_login u (absf d))"
    and delete_user: "invar d \<Longrightarrow>
      implements (delete_user uid d) invar absf (a_delete_user uid (absf d))"
    and join: "invar d \<Longrightarrow> group_name_ok n \<Longrightarrow>
      implements (join gid n uo d) invar absf (a_join n (User_GetId uo) (User_GetName uo) (absf d))"
    and leave: "invar d \<Longrightarrow> \<exists>d'. leave uid n d = Inr (True, d') \<and> invar d' \<and>
      absf d' = a_leave n uid (absf d)"
    and append: "invar d \<Longrightarrow> message_ok m \<Longrightarrow> length (posts (absf d) (grp_Groupname g)) < max_posts \<Longrightarrow>
      implements (append (Some \<lparr>app_Chatmessage = Some m, app_Group = Some g\<rparr>) d) invar absf
        (a_post (grp_Groupname g) (abs_post m) (absf d))"
    and like: "invar d \<Longrightarrow>
      implements (like (Some \<lparr>like_Likeduser = Some u, like_Messageid = i, like_Group = Some g\<rparr>) d)
        invar absf (a_like (grp_Groupname g) (unat i) (user_Name u) (absf d))"
    and unlike: "invar d \<Longrightarrow>
      implements (unlike (Some \<lparr>unlike_Unlikeduser = Some u, unlike_Messageid = i, unlike_Group = Some g\<rparr>) d)
        invar absf (a_unlike (grp_Groupname g) (unat i) (user_Name u) (absf d))"
begin

lemma implements_bind:
  assumes "implements r invar absf c" and "\<And>d'. invar d' \<Longrightarrow> absf d' = c \<Longrightarrow> implements (f d') invar absf c'"
  shows "implements (rbind r f) invar absf c'"
  using assms by (auto simp: implements_def)

text \<open>Moving a user from one group to another, as the join command does.\<close>

lemma switch_group:
  assumes "invar d" and "group_name_ok n"
  shows "implements
     (rbind (leave uid cur d) (\<lambda>(ok, d'). if ok then join gid n (Some u) d' else Inr d'))
     invar absf (a_join n (user_Id u) (user_Name u) (a_leave cur uid (absf d)))"
proof -
  obtain d' where l: "leave uid cur d = Inr (True, d')" "invar d'"
    "absf d' = a_leave cur uid (absf d)"
    using leave [OF assms(1)] by blast
  with join [OF l(2) assms(2), of gid "Some u"] show ?thesis by simp
qed

lemma logout_user:
  assumes "invar d"
  shows "implements (rbind (delete_user uid d) (\<lambda>d1. rbind (leave uid n d1) (\<lambda>(_, d2). Inr d2)))
     invar absf (a_leave n uid (a_delete_user uid (absf d)))"
proof (rule implements_bind [OF delete_user [OF assms]])
  fix d1
  assume "invar d1" and eq: "absf d1 = a_delete_user uid (absf d)"
  from leave [OF this(1)] obtain d2 where "leave uid n d1 = Inr (True, d2)" "invar d2"
    "absf d2 = a_leave n uid (absf d1)" by blast
  with eq show "implements (rbind (leave uid n d1) (\<lambda>(_, d2). Inr d2)) invar absf
      (a_leave n uid (a_delete_user uid (absf d)))"
    by (auto simp: implements_def)
qed

text \<open>Liking twice is liking once; unliking undoes a first like.\<close>

lemma like_twice:
  assumes "invar d"
  shows "implements
     (rbind (like (Some \<lparr>like_Likeduser = Some u, like_Messageid = i, like_Group = Some g\<rparr>) d)
        (like (Some \<lparr>like_Likeduser = Some u, like_Messageid = i, like_Group = Some g\<rparr>)))
     invar absf (a_like (grp_Groupname g) (unat i) (user_Name u) (absf d))"
  by (rule implements_bind [OF like [OF assms]]) (metis a_like_idem like)

lemma like_unlike:
  assumes "invar d"
    and "unat i < length (posts (absf d) (grp_Groupname g)) \<Longrightarrow>
      user_Name u |\<notin>| post_likes (posts (absf d) (grp_Groupname g) ! unat i)"
  shows "implements
     (rbind (like (Some \<lparr>like_Likeduser = Some u, like_Messageid = i, like_Group = Some g\<rparr>) d)
        (unlike (Some \<lparr>unlike_Unlikeduser = Some u, unlike_Messageid = i, unlike_Group = Some g\<rparr>)))
     invar absf (absf d)"
  by (rule implements_bind [OF like [OF assms(1)]]) (metis a_unlike_like assms(2) unlike)

end

end
