(* ===== verification/StorageSpec.thy ===== *)
theory StorageSpec
  imports Storage ChatSpec
begin

text \<open>
  The disk store implements the chat specification: the abstraction function from encoded
  groups and users, the invariant of the stored groups (message ids are exactly
  \<open>0 .. n-1\<close>, maps are not \<open>nil\<close>, every message has an author, no group under a numeral
  or empty key) and the interpretation of \<open>chat_store\<close> by the operations of
  \<open>server/storage.go\<close>.
\<close>

section \<open>Invariant and abstraction\<close>

definition msgs_wf :: "(uint32, ChatMessage option) fmap \<Rightarrow> bool" where
  "msgs_wf ms \<longleftrightarrow>
     (\<forall>i. case fmlookup ms i of
            None \<Rightarrow> fmsize ms \<le> unat i
          | Some x \<Rightarrow> unat i < fmsize ms \<and> (case x of None \<Rightarrow> False | Some m \<Rightarrow> message_ok m))"

definition group_wf :: "Group \<Rightarrow> bool" where
  "group_wf g \<longleftrightarrow>
     grp_Participants g \<noteq> None \<and>
     (case grp_Messages g of None \<Rightarrow> False | Some ms \<Rightarrow> msgs_wf ms)"

definition store_invar :: "'s deps \<Rightarrow> 's DiskStore \<Rightarrow> bool" where
  "store_invar D store \<longleftrightarrow>
     (\<forall>n g. GetGroup D n store = (Some g, True) \<longrightarrow> group_wf g \<and> group_name_ok n)"

definition abs_msg :: "ChatMessage option option \<Rightarrow> post" where
  "abs_msg x = (case x of
       Some (Some m) \<Rightarrow> abs_post m
     | _ \<Rightarrow> \<lparr>post_author = [], post_text = [], post_likes = {||}\<rparr>)"

definition abs_msgs :: "(uint32, ChatMessage option) fmap \<Rightarrow> post list" where
  "abs_msgs ms = map (\<lambda>i. abs_msg (fmlookup ms (of_nat i))) [0..<fmsize ms]"

definition abs_group :: "Group \<Rightarrow> AGroup" where
  "abs_group g =
     \<lparr>ag_members = nil_empty (grp_Participants g), ag_posts = abs_msgs (nil_empty (grp_Messages g))\<rparr>"

definition abs_store :: "'s deps \<Rightarrow> 's DiskStore \<Rightarrow> AChat" where
  "abs_store D store =
     \<lparr>ac_users = (\<lambda>uid. case badger_Get D (diskstore store) (Itoa (unat uid)) of
                    Some (Gob_User u) \<Rightarrow> Some u | _ \<Rightarrow> None),
      ac_groups = (\<lambda>n. case GetGroup D n store of (Some g, True) \<Rightarrow> Some (abs_group g) | _ \<Rightarrow> None)\<rparr>"

lemma abs_store_groups:
  "ac_groups (abs_store D store) n =
     (case GetGroup D n store of (Some g, True) \<Rightarrow> Some (abs_group g) | _ \<Rightarrow> None)"
  by (simp add: abs_store_def)

lemma GetGroup_cases:
  obtains g where "GetGroup D n store = (Some g, True)" | x where "GetGroup D n store = (x, False)"
proof (cases "GetGroup D n store")
  case (Pair x ok)
  show thesis
  proof (cases ok)
    case True
    have "x \<noteq> None"
    proof
      assume "x = None"
      with Pair True have "GetGroup D n store = (None, True)" by simp
      then show False
        by (auto simp: GetGroup_def split: option.splits elim: gob_decode_Group.elims)
    qed
    then obtain g where "x = Some g" by blast
    with Pair True have "GetGroup D n store = (Some g, True)" by simp
    then show thesis by (rule that(1))
  next
    case False
    with Pair that(2) show thesis by simp
  qed
qed

lemma store_invarD:
  assumes "store_invar D store" and "GetGroup D n store = (Some g, True)"
  obtains ps ms where "grp_Participants g = Some ps" and "grp_Messages g = Some ms"
    and "msgs_wf ms" and "group_name_ok n"
  using assms by (fastforce simp: store_invar_def group_wf_def split: option.splits)

lemma msgs_wf_encodable: "msgs_wf ms \<Longrightarrow> fmpred (\<lambda>_ m. m \<noteq> None) ms"
  unfolding msgs_wf_def fmpred_iff by (auto split: option.splits)

lemma group_wf_encodable: "group_wf g \<Longrightarrow> group_encodable g"
  using msgs_wf_encodable [of "the (grp_Messages g)"]
  by (simp add: group_wf_def group_encodable_def split: option.splits)

section \<open>Message maps as sequences\<close>

lemma unat_of_nat_small: "n < max_posts \<Longrightarrow> unat (of_nat n :: uint32) = n"
  by (simp add: max_posts_def unat_of_nat take_bit_eq_mod)

lemma msgs_wf_empty [simp]: "msgs_wf fmempty"
  by (simp add: msgs_wf_def fcard.rep_eq)

lemma msgs_wf_lookup:
  assumes "msgs_wf ms"
  shows "fmlookup ms i \<noteq> None \<longleftrightarrow> unat i < fmsize ms"
  using assms [unfolded msgs_wf_def, rule_format, of i] by (auto split: option.splits)

lemma msgs_wf_fresh:
  assumes "msgs_wf ms" and "fmsize ms < max_posts"
  shows "fmlookup ms (of_nat (fmsize ms)) = None"
proof -
  have "unat (of_nat (fmsize ms) :: uint32) = fmsize ms"
    using assms(2) by (rule unat_of_nat_small)
  with msgs_wf_lookup [OF assms(1), of "of_nat (fmsize ms)"] show ?thesis by simp
qed

lemma msgs_wf_append:
  assumes wf: "msgs_wf ms" and room: "fmsize ms < max_posts" and m: "message_ok m"
  shows "msgs_wf (fmupd (of_nat (fmsize ms)) (Some m) ms)"
proof -
  let ?k = "of_nat (fmsize ms) :: uint32"
  have k: "unat ?k = fmsize ms"
    using room by (rule unat_of_nat_small)
  have size: "fmsize (fmupd ?k (Some m) ms) = Suc (fmsize ms)"
    by (simp add: fmsize_upd msgs_wf_fresh [OF wf room] del: fmdom_fmupd)
  have "case fmlookup (fmupd ?k (Some m) ms) i of
          None \<Rightarrow> Suc (fmsize ms) \<le> unat i
        | Some x \<Rightarrow> unat i < Suc (fmsize ms) \<and> (case x of None \<Rightarrow> False | Some m \<Rightarrow> message_ok m)" for i
  proof (cases "i = ?k")
    case True
    with k m show ?thesis by simp
  next
    case False
    with k have "unat i \<noteq> fmsize ms" by (metis word_unat_eq_iff)
    with False wf [unfolded msgs_wf_def, rule_format, of i] show ?thesis
      by (auto split: option.splits)
  qed
  then show ?thesis unfolding msgs_wf_def size by blast
qed

lemma abs_msgs_append:
  assumes wf: "msgs_wf ms" and room: "fmsize ms < max_posts"
  shows "abs_msgs (fmupd (of_nat (fmsize ms)) (Some m) ms) = abs_msgs ms @ [abs_post m]"
proof -
  let ?k = "of_nat (fmsize ms) :: uint32"
  have size: "fmsize (fmupd ?k (Some m) ms) = Suc (fmsize ms)"
    by (simp add: fmsize_upd msgs_wf_fresh [OF wf room] del: fmdom_fmupd)
  have ne: "?k \<noteq> of_nat i" if "i < fmsize ms" for i
  proof
    assume eq: "?k = of_nat i"
    have "unat (of_nat i :: uint32) = i" and "unat ?k = fmsize ms"
      using that room by (auto intro!: unat_of_nat_small)
    with eq that show False by simp
  qed
  show ?thesis
    unfolding abs_msgs_def size using ne by (auto simp: abs_msg_def)
qed

text \<open>Replacing the message under a present key is an update of the sequence.\<close>

lemma msgs_wf_replace:
  assumes wf: "msgs_wf ms" and i: "fmlookup ms i = Some x" and m: "message_ok m"
  shows "msgs_wf (fmupd i (Some m) ms)"
proof -
  have size: "fmsize (fmupd i (Some m) ms) = fmsize ms"
    by (simp add: fmsize_upd i del: fmdom_fmupd)
  have lt: "unat i < fmsize ms" using msgs_wf_lookup [OF wf, of i] i by simp
  show ?thesis
    unfolding msgs_wf_def size
    using wf [unfolded msgs_wf_def] lt m by auto
qed

lemma abs_msgs_replace:
  assumes wf: "msgs_wf ms" and i: "fmlookup ms i = Some x" and small: "fmsize ms \<le> max_posts"
  shows "abs_msgs (fmupd i (Some m) ms) = (abs_msgs ms)[unat i := abs_post m]"
proof (rule nth_equalityI)
  have size: "fmsize (fmupd i (Some m) ms) = fmsize ms"
    by (simp add: fmsize_upd i del: fmdom_fmupd)
  then show "length (abs_msgs (fmupd i (Some m) ms)) = length ((abs_msgs ms)[unat i := abs_post m])"
    by (simp add: abs_msgs_def)
  fix j
  assume "j < length (abs_msgs (fmupd i (Some m) ms))"
  with size have j: "j < fmsize ms" by (simp add: abs_msgs_def)
  with small have "unat (of_nat j :: uint32) = j"
    by (intro unat_of_nat_small) simp
  then have "i = of_nat j \<longleftrightarrow> unat i = j" by (metis unat_eq_iff)
  with j size show "abs_msgs (fmupd i (Some m) ms) ! j = (abs_msgs ms)[unat i := abs_post m] ! j"
    by (auto simp: abs_msgs_def abs_msg_def nth_list_update)
qed

lemma fmsize_le_max_posts: "fmsize (ms :: (uint32, 'v) fmap) \<le> max_posts"
proof -
  have "card (fset (fmdom ms)) \<le> card (UNIV :: uint32 set)"
    by (rule card_mono) auto
  then show ?thesis by (simp add: fcard.rep_eq max_posts_def card_word)
qed

lemma abs_msgs_nth:
  assumes "fmlookup ms i = Some (Some m)" and "msgs_wf ms"
  shows "unat i < length (abs_msgs ms)" and "abs_msgs ms ! unat i = abs_post m"
proof -
  have "unat i < fmsize ms" using msgs_wf_lookup [OF assms(2), of i] assms(1) by simp
  then show "unat i < length (abs_msgs ms)" and "abs_msgs ms ! unat i = abs_post m"
    using assms(1) by (simp_all add: abs_msgs_def abs_msg_def)
qed

section \<open>Writing a group\<close>

lemma UpdateGroup_ok:
  assumes "deps_ok D" and "n \<noteq> []" and "group_encodable g"
  obtains store' where "UpdateGroup D n g store = Inr (True, store')"
    and "\<And>k. badger_Get D (diskstore store') k =
           (if k = n then Some (Gob_Group g) else badger_Get D (diskstore store) k)"
    and "replicatedlog store' = replicatedlog store"
proof -
  obtain s' where s': "badger_Set D (diskstore store) n (Gob_Group g) = (True, s')"
    using badger_Set_ok [OF assms(1,2)] by blast
  have "UpdateGroup D n g store = Inr (True, store\<lparr>diskstore := s'\<rparr>)"
    using assms(3) s' by (simp add: UpdateGroup_def copier_simps [OF assms(1)] gob_encode_Group_def)
  with that badger_SetE [OF assms(1) s'] show thesis by simp
qed

lemma upd_group_id: "f (ac_groups c n) = ac_groups c n \<Longrightarrow> upd_group n f c = c"
  by (simp add: upd_group_def fun_upd_idem)

lemma upd_group_cong: "f (ac_groups c n) = g (ac_groups c n) \<Longrightarrow> upd_group n f c = upd_group n g c"
  by (simp add: upd_group_def)

definition disk_ok :: "'s deps \<Rightarrow> 's DiskStore \<Rightarrow> bool" where
  "disk_ok D store \<longleftrightarrow> deps_ok D \<and> store_invar D store"

lemma disk_okI: "deps_ok D \<Longrightarrow> store_invar D store \<Longrightarrow> disk_ok D store"
  by (simp add: disk_ok_def)

lemma disk_okD: "disk_ok D store \<Longrightarrow> deps_ok D" "disk_ok D store \<Longrightarrow> store_invar D store"
  by (simp_all add: disk_ok_def)

lemma write_group:
  assumes ok: "disk_ok D store" and wf: "group_wf g" and n: "group_name_ok n"
  obtains store' where "UpdateGroup D n g store = Inr (True, store')"
    and "disk_ok D store'"
    and "abs_store D store' = upd_group n (\<lambda>_. Some (abs_group g)) (abs_store D store)"
proof -
  note D = disk_okD(1) [OF ok] and inv = disk_okD(2) [OF ok]
  obtain store' where st: "UpdateGroup D n g store = Inr (True, store')"
    and get: "\<And>k. badger_Get D (diskstore store') k =
           (if k = n then Some (Gob_Group g) else badger_Get D (diskstore store) k)"
    using UpdateGroup_ok [OF D _ group_wf_encodable [OF wf]] n by (metis group_name_ok_def)
  have gg: "GetGroup D m store' = (if m = n then (Some g, True) else GetGroup D m store)" for m
    by (simp add: GetGroup_def get)
  have "disk_ok D store'"
    using D inv wf n by (auto simp: store_invar_def gg disk_ok_def)
  moreover have "abs_store D store' = upd_group n (\<lambda>_. Some (abs_group g)) (abs_store D store)"
    using group_name_not_Itoa [OF n] by (auto simp: abs_store_def upd_group_def gg get fun_eq_iff)
  ultimately show thesis using that st by blast
qed

text \<open>
  The shape every read-modify-write of the store has once its group is found: the result
  of a checked \<open>UpdateGroup\<close>.
\<close>

lemma write_group_implements:
  assumes "disk_ok D store" and "group_wf g'" and "group_name_ok n"
    and "\<And>store'. rest (True, store') = Inr store'"
    and "Some (abs_group g') = f (ac_groups (abs_store D store) n)"
  shows "implements (rbind (UpdateGroup D n g' store) rest)
     (disk_ok D) (abs_store D) (upd_group n f (abs_store D store))"
proof -
  obtain store' where "UpdateGroup D n g' store = Inr (True, store')" "disk_ok D store'"
    "abs_store D store' = upd_group n (\<lambda>_. Some (abs_group g')) (abs_store D store)"
    using write_group [OF assms(1-3)] by blast
  with assms(4,5) show ?thesis
    unfolding implements_def by (auto intro: upd_group_cong)
qed

section \<open>The operations\<close>


lemma abs_groups_found:
  "GetGroup D n store = (Some g, True) \<Longrightarrow> ac_groups (abs_store D store) n = Some (abs_group g)"
  by (simp add: abs_store_groups)

lemma abs_groups_not_found:
  "GetGroup D n store = (x, False) \<Longrightarrow> ac_groups (abs_store D store) n = None"
  by (cases x) (simp_all add: abs_store_groups)

lemma upd_posts_not_found:
  "GetGroup D n store = (x, False) \<Longrightarrow> upd_posts n f (abs_store D store) = abs_store D store"
  by (simp add: upd_posts_def upd_group_id abs_groups_not_found)

lemma posts_found:
  "GetGroup D n store = (Some g, True) \<Longrightarrow>
   posts (abs_store D store) n = abs_msgs (nil_empty (grp_Messages g))"
  by (simp add: posts_def abs_groups_found abs_group_def)

lemma implements_Inr: "implements (Inr d) P absf c \<longleftrightarrow> P d \<and> absf d = c"
  by (simp add: implements_def)

lemma SaveUser_implements:
  assumes "disk_ok D store"
  shows "implements (rbind (SaveUser D (Some u) store) (\<lambda>(_, d'). Inr d')) (disk_ok D) (abs_store D)
     (a_login u (abs_store D store))"
proof -
  let ?k = "Itoa (unat (user_Id u))"
  obtain s' where s': "badger_Set D (diskstore store) ?k (Gob_User u) = (True, s')"
    using badger_Set_ok [of D ?k] disk_okD(1) [OF assms] by auto
  note get = badger_SetE [OF disk_okD(1) [OF assms] s']
  let ?store = "store\<lparr>diskstore := s'\<rparr>"
  have old: "snd (GetGroup D ?k store) = False"
    using disk_okD(2) [OF assms] group_name_not_Itoa by (cases rule: GetGroup_cases [of D ?k store])
      (auto simp: store_invar_def)
  have gg: "GetGroup D m ?store = (if m = ?k then (Some empty_Group, False) else GetGroup D m store)" for m
    by (simp add: GetGroup_def get)
  have "disk_ok D ?store"
    using assms by (auto simp: store_invar_def gg disk_ok_def)
  moreover have "abs_store D ?store = a_login u (abs_store D store)"
    using old by (auto simp: abs_store_def a_login_def gg get fun_eq_iff split: prod.splits option.splits)
  ultimately show ?thesis
    using disk_okD(1) [OF assms] s' by (simp add: SaveUser_def copier_simps implements_def)
qed

lemma DeleteUser_implements:
  assumes "disk_ok D store"
  shows "implements (DeleteUser D uid store) (disk_ok D) (abs_store D)
     (a_delete_user uid (abs_store D store))"
proof -
  let ?k = "Itoa (unat uid)"
  obtain s' where s': "badger_Delete D (diskstore store) ?k = (True, s')"
    using badger_Delete_ok [of D ?k] disk_okD(1) [OF assms] by auto
  note get = badger_DeleteE [OF disk_okD(1) [OF assms] s']
  let ?store = "store\<lparr>diskstore := s'\<rparr>"
  have old: "snd (GetGroup D ?k store) = False"
    using disk_okD(2) [OF assms] group_name_not_Itoa by (cases rule: GetGroup_cases [of D ?k store])
      (auto simp: store_invar_def)
  have gg: "GetGroup D m ?store = (if m = ?k then (None, False) else GetGroup D m store)" for m
    by (simp add: GetGroup_def get)
  have "disk_ok D ?store"
    using assms by (auto simp: store_invar_def gg disk_ok_def)
  moreover have "abs_store D ?store = a_delete_user uid (abs_store D store)"
    using old by (auto simp: abs_store_def a_delete_user_def gg get fun_eq_iff split: prod.splits option.splits)
  ultimately show ?thesis
    using assms s' by (simp add: DeleteUser_def implements_def)
qed

lemma group_wf_new [simp]: "group_wf (new_group gid n u)"
  by (simp add: group_wf_def new_group_def)

lemma abs_new_group:
  "abs_group (new_group gid n u) =
     \<lparr>ag_members = fmupd (User_GetId u) (User_GetName u) fmempty, ag_posts = []\<rparr>"
  by (simp add: abs_group_def new_group_def abs_msgs_def fcard.rep_eq)

lemma JoinGroup_implements:
  assumes ok: "disk_ok D store" and n: "group_name_ok n"
  shows "implements (JoinGroup D gid n u store) (disk_ok D) (abs_store D)
     (a_join n (User_GetId u) (User_GetName u) (abs_store D store))"
proof (cases rule: GetGroup_cases [of D n store])
  case (1 g)
  obtain ps ms where g: "grp_Participants g = Some ps" "grp_Messages g = Some ms" "msgs_wf ms"
    using store_invarD [OF disk_okD(2) [OF ok] 1] by metis
  let ?g = "g\<lparr>grp_Participants := Some (fmupd (User_GetId u) (User_GetName u) ps)\<rparr>"
  have wf: "group_wf ?g" using g by (simp add: group_wf_def)
  obtain store' where "UpdateGroup D n ?g store = Inr (True, store')" "disk_ok D store'"
    "abs_store D store' = upd_group n (\<lambda>_. Some (abs_group ?g)) (abs_store D store)"
    using write_group [OF ok wf n] by blast
  with 1 g ok show ?thesis
    by (auto simp: JoinGroup_def implements_def a_join_def abs_groups_found abs_group_def
        intro!: upd_group_cong)
next
  case (2 x)
  have "JoinGroup D gid n u store =
      rbind (UpdateGroup D n (new_group gid n u) store) (\<lambda>(_, store2). Inr store2)"
    using 2 by (cases x) (simp_all add: JoinGroup_def)
  then show ?thesis
    unfolding a_join_def using ok n
    by (auto intro!: write_group_implements simp: abs_groups_not_found [OF 2] abs_new_group)
qed

lemma RemoveUserInGroup_refines:
  assumes ok: "disk_ok D store"
  shows "\<exists>store'. RemoveUserInGroup D uid n store = Inr (True, store') \<and> disk_ok D store' \<and>
     abs_store D store' = a_leave n uid (abs_store D store)"
proof (cases rule: GetGroup_cases [of D n store])
  case (1 g)
  obtain ps ms where g: "grp_Participants g = Some ps" "grp_Messages g = Some ms" "msgs_wf ms"
    and n: "group_name_ok n"
    using store_invarD [OF disk_okD(2) [OF ok] 1] by metis
  show ?thesis
  proof (cases "fm_index [] ps uid = []")
    case True
    with 1 g ok show ?thesis
      by (simp add: RemoveUserInGroup_def a_leave_def upd_group_id abs_groups_found abs_group_def)
  next
    case False
    let ?g = "g\<lparr>grp_Participants := Some (fmdrop uid ps)\<rparr>"
    have wf: "group_wf ?g" using g by (simp add: group_wf_def)
    obtain store' where "UpdateGroup D n ?g store = Inr (True, store')" "disk_ok D store'"
      "abs_store D store' = upd_group n (\<lambda>_. Some (abs_group ?g)) (abs_store D store)"
      using write_group [OF ok wf n] by blast
    with 1 g ok False show ?thesis
      by (auto simp: RemoveUserInGroup_def a_leave_def abs_groups_found abs_group_def
          intro!: upd_group_cong)
  qed
next
  case (2 x)
  with ok show ?thesis
    by (cases x) (simp_all add: RemoveUserInGroup_def a_leave_def upd_group_id abs_groups_not_found)
qed

lemma AppendMessage_implements:
  assumes ok: "disk_ok D store" and m: "message_ok m"
    and room: "length (posts (abs_store D store) (grp_Groupname g)) < max_posts"
  shows "implements (AppendMessage D (Some \<lparr>app_Chatmessage = Some m, app_Group = Some g\<rparr>) store)
     (disk_ok D) (abs_store D) (a_post (grp_Groupname g) (abs_post m) (abs_store D store))"
proof (cases rule: GetGroup_cases [of D "grp_Groupname g" store])
  case (1 h)
  obtain ps ms where h: "grp_Participants h = Some ps" "grp_Messages h = Some ms" "msgs_wf ms"
    and n: "group_name_ok (grp_Groupname g)"
    using store_invarD [OF disk_okD(2) [OF ok] 1] by metis
  let ?h = "h\<lparr>grp_Messages := Some (fmupd (of_nat (fmsize ms)) (Some m) ms)\<rparr>"
  have size: "fmsize ms < max_posts"
    using room h by (simp add: posts_found [OF 1] abs_msgs_def)
  have wf: "group_wf ?h" using h msgs_wf_append [OF h(3) size m] by (simp add: group_wf_def)
  have "AppendMessage D (Some \<lparr>app_Chatmessage = Some m, app_Group = Some g\<rparr>) store =
      rbind (UpdateGroup D (grp_Groupname g) ?h store) (\<lambda>(_, store'). Inr store')"
    using 1 h by (simp add: AppendMessage_def)
  then show ?thesis
    unfolding a_post_def upd_posts_def using wf n h
    by (auto intro!: write_group_implements [OF ok]
        simp: abs_groups_found [OF 1] abs_group_def abs_msgs_append [OF h(3) size])
next
  case (2 x)
  with ok show ?thesis
    by (cases x) (simp_all add: AppendMessage_def a_post_def upd_posts_not_found [OF 2] implements_Inr)
qed

text \<open>An update of one message, and the cases in which it changes nothing.\<close>

lemma update_message_implements:
  assumes ok: "disk_ok D store" and found: "GetGroup D n store = (Some g, True)"
    and i: "fmlookup (nil_empty (grp_Messages g)) i = Some (Some m)"
    and m': "message_ok m'" "abs_post m' = f (abs_post m)"
  shows "implements
     (rbind (UpdateGroup D n (g\<lparr>grp_Messages :=
         Some (fmupd i (Some m') (nil_empty (grp_Messages g)))\<rparr>) store) (\<lambda>(_, store'). Inr store'))
     (disk_ok D) (abs_store D) (upd_posts n (upd_nth (unat i) f) (abs_store D store))"
proof -
  obtain ps ms where g: "grp_Participants g = Some ps" "grp_Messages g = Some ms" "msgs_wf ms"
    and n: "group_name_ok n"
    using store_invarD [OF disk_okD(2) [OF ok] found] by metis
  have wf: "group_wf (g\<lparr>grp_Messages := Some (fmupd i (Some m') ms)\<rparr>)"
    using g i msgs_wf_replace [OF g(3) _ m'(1)] by (simp add: group_wf_def)
  have "abs_msgs (fmupd i (Some m') ms) = upd_nth (unat i) f (abs_msgs ms)"
    using abs_msgs_replace [OF g(3) _ fmsize_le_max_posts] abs_msgs_nth [OF _ g(3)] i g(2) m'(2)
    by (simp add: upd_nth_def)
  with g n wf show ?thesis
    unfolding upd_posts_def
    by (auto intro!: write_group_implements [OF ok]
        simp: abs_groups_found [OF found] abs_group_def)
qed

lemma update_message_noop:
  assumes ok: "disk_ok D store" and found: "GetGroup D n store = (Some g, True)"
    and same: "\<And>m. fmlookup (nil_empty (grp_Messages g)) i = Some (Some m) \<Longrightarrow> f (abs_post m) = abs_post m"
  shows "upd_posts n (upd_nth (unat i) f) (abs_store D store) = abs_store D store"
proof (intro upd_posts_id upd_nth_id)
  obtain ms where g: "grp_Messages g = Some ms" "msgs_wf ms"
    using store_invarD [OF disk_okD(2) [OF ok] found] by metis
  assume "unat i < length (posts (abs_store D store) n)"
  then have "unat i < fmsize ms" by (simp add: posts_found [OF found] g abs_msgs_def)
  with g(2) obtain m where m: "fmlookup ms i = Some (Some m)"
    unfolding msgs_wf_def by (metis (no_types, lifting) linorder_not_le option.case_eq_if option.exhaust_sel)
  with same g(1) abs_msgs_nth(2) [OF m g(2)]
  show "f (posts (abs_store D store) n ! unat i) = posts (abs_store D store) n ! unat i"
    by (simp add: posts_found [OF found])
qed

lemma msgs_wf_author:
  assumes "msgs_wf ms" and "fmlookup ms i = Some x"
  obtains m a where "x = Some m" and "msg_MessagedBy m = Some a"
  using assms(1) [unfolded msgs_wf_def, rule_format, of i] assms(2)
  by (auto simp: message_ok_def split: option.splits)

lemma LikeMessage_implements:
  assumes ok: "disk_ok D store"
  shows "implements
     (LikeMessage D (Some \<lparr>like_Likeduser = Some u, like_Messageid = i, like_Group = Some lg\<rparr>) store)
     (disk_ok D) (abs_store D) (a_like (grp_Groupname lg) (unat i) (user_Name u) (abs_store D store))"
    (is "implements ?run _ _ _")
proof (cases rule: GetGroup_cases [of D "grp_Groupname lg" store])
  case (1 g)
  obtain ms where g: "grp_Messages g = Some ms" "msgs_wf ms"
    using store_invarD [OF disk_okD(2) [OF ok] 1] by metis
  note noop = update_message_noop [OF ok 1]
  show ?thesis
  proof (cases "fmlookup ms i")
    case None
    with 1 g ok show ?thesis
      by (auto simp: LikeMessage_def a_like_def implements_Inr intro!: noop [symmetric])
  next
    case (Some x)
    with g(2) obtain m a where m: "x = Some m" "msg_MessagedBy m = Some a"
      by (rule msgs_wf_author)
    show ?thesis
    proof (cases "user_Name a = user_Name u \<or> fmlookup (msg_LikedBy m) (user_Name u) \<noteq> None")
      case True
      then have "?run = Inr store" using 1 g Some m by (auto simp: LikeMessage_def)
      moreover have "like_post (user_Name u) (abs_post m) = abs_post m"
        using True m(2) by (auto simp: like_post_def abs_post_def finsert_absorb fmdomI)
      ultimately show ?thesis
        using ok Some m(1) g by (auto simp: a_like_def implements_Inr intro!: noop [symmetric])
    next
      case False
      let ?m = "m\<lparr>msg_LikedBy := fmupd (user_Name u) [] (msg_LikedBy m)\<rparr>"
      have "implements (rbind (UpdateGroup D (grp_Groupname lg) (g\<lparr>grp_Messages :=
           Some (fmupd i (Some ?m) (nil_empty (grp_Messages g)))\<rparr>) store) (\<lambda>(_, store'). Inr store'))
         (disk_ok D) (abs_store D)
         (upd_posts (grp_Groupname lg) (upd_nth (unat i) (like_post (user_Name u))) (abs_store D store))"
        using False m Some g
        by (intro update_message_implements [OF ok 1])
          (auto simp: message_ok_def like_post_def abs_post_def)
      with 1 g Some m False show ?thesis
        by (auto simp: LikeMessage_def a_like_def)
    qed
  qed
next
  case (2 x)
  with ok show ?thesis
    by (cases x) (simp_all add: LikeMessage_def a_like_def upd_posts_not_found [OF 2] implements_Inr)
qed

lemma UnLikeMessage_implements:
  assumes ok: "disk_ok D store"
  shows "implements
     (UnLikeMessage D (Some \<lparr>unlike_Unlikeduser = Some u, unlike_Messageid = i, unlike_Group = Some lg\<rparr>) store)
     (disk_ok D) (abs_store D) (a_unlike (grp_Groupname lg) (unat i) (user_Name u) (abs_store D store))"
    (is "implements ?run _ _ _")
proof (cases rule: GetGroup_cases [of D "grp_Groupname lg" store])
  case (1 g)
  obtain ms where g: "grp_Messages g = Some ms" "msgs_wf ms"
    using store_invarD [OF disk_okD(2) [OF ok] 1] by metis
  note noop = update_message_noop [OF ok 1]
  show ?thesis
  proof (cases "fmlookup ms i")
    case None
    with 1 g ok show ?thesis
      by (auto simp: UnLikeMessage_def a_unlike_def implements_Inr intro!: noop [symmetric])
  next
    case (Some x)
    with g(2) obtain m a where m: "x = Some m" "msg_MessagedBy m = Some a"
      by (rule msgs_wf_author)
    show ?thesis
    proof (cases "user_Name a = user_Name u \<or> fmlookup (msg_LikedBy m) (user_Name u) = None")
      case True
      then have "?run = Inr store" using 1 g Some m by (auto simp: UnLikeMessage_def)
      moreover have "unlike_post (user_Name u) (abs_post m) = abs_post m"
        using True m(2) by (auto simp: unlike_post_def abs_post_def fmdom_notI)
      ultimately show ?thesis
        using ok Some m(1) g by (auto simp: a_unlike_def implements_Inr intro!: noop [symmetric])
    next
      case False
      let ?m = "m\<lparr>msg_LikedBy := fmdrop (user_Name u) (msg_LikedBy m)\<rparr>"
      have "implements (rbind (UpdateGroup D (grp_Groupname lg) (g\<lparr>grp_Messages :=
           Some (fmupd i (Some ?m) (nil_empty (grp_Messages g)))\<rparr>) store) (\<lambda>(_, store'). Inr store'))
         (disk_ok D) (abs_store D)
         (upd_posts (grp_Groupname lg) (upd_nth (unat i) (unlike_post (user_Name u))) (abs_store D store))"
        using False m Some g
        by (intro update_message_implements [OF ok 1])
          (auto simp: message_ok_def unlike_post_def abs_post_def)
      with 1 g Some m False show ?thesis
        by (auto simp: UnLikeMessage_def a_unlike_def)
    qed
  qed
next
  case (2 x)
  with ok show ?thesis
    by (cases x) (simp_all add: UnLikeMessage_def a_unlike_def upd_posts_not_found [OF 2] implements_Inr)
qed

text \<open>The disk store is a chat store.\<close>

interpretation disk: chat_store "disk_ok D" "abs_store D" "SaveUser D" "DeleteUser D" "JoinGroup D"
  "RemoveUserInGroup D" "AppendMessage D" "LikeMessage D" "UnLikeMessage D" for D :: "'s deps"
  by unfold_locales
    (blast intro: SaveUser_implements DeleteUser_implements JoinGroup_implements
      RemoveUserInGroup_refines AppendMessage_implements LikeMessage_implements
      UnLikeMessage_implements)+

end
