(* ===== verification/RaftServer.thy ===== *)
theory RaftServer
  imports Raft_Commit StorageSpec
begin

text \<open>
  \<open>server/raft_server.go\<close>: the raft server of one machine, which owns the consensus module,
  the connections to the peers and the channel of groups to broadcast, and applies committed
  commands to the disk store (\<open>persistData\<close>, \<open>commitEntries\<close> of \<open>raft.go\<close>).

  The grpc connections are code outside the repository: \<open>Dial\<close> (\<open>None\<close> with an error),
  \<open>GetState().String()\<close> of a connection pointer and \<open>Close\<close> (whether its error is
  \<open>nil\<close>) are the fields of a record \<open>grpc\<close>.
\<close>

record 'c grpc =
  grpc_Dial :: "string \<Rightarrow> 'c option"
  grpc_GetState :: "'c option \<Rightarrow> string res"
  grpc_Close :: "'c \<Rightarrow> bool"

record ('s, 'c) Server =
  srv_serverId :: int
  srv_peerIds :: "int list"
  srv_cm :: "'s ConsensusModule"
  srv_commitChan :: "CommitEntry list"
  srv_peerClients :: "(int, 'c option) fmap"
  srv_broadcast :: "string list"
  srv_listener :: string
  srv_ready_closed :: bool

section \<open>Connections to the peers\<close>

definition GetPeerAddr :: "int \<Rightarrow> string" where
  "GetPeerAddr peerId = ''172.30.100.10'' @ Itoa_int peerId @ '':12000''"

definition ConnectToPeer ::
  "'c grpc \<Rightarrow> int \<Rightarrow> string \<Rightarrow> (int, 'c option) fmap \<Rightarrow> (int, 'c option) fmap res" where
  "ConnectToPeer G peerId addr clients =
     (let clientconn = grpc_Dial G addr
      in rbind (grpc_GetState G clientconn) (\<lambda>_. Inr (fmupd peerId clientconn clients)))"

definition ReconnectToPeer ::
  "'c grpc \<Rightarrow> int \<Rightarrow> (int, 'c option) fmap \<Rightarrow> (int, 'c option) fmap res" where
  "ReconnectToPeer G peerId clients = ConnectToPeer G peerId (GetPeerAddr peerId) clients"

definition other_ids :: "int \<Rightarrow> int list" where
  "other_ids serverId = filter (\<lambda>p. p \<noteq> serverId) [1..5]"

fun connect_each :: "'c grpc \<Rightarrow> int list \<Rightarrow> (int, 'c option) fmap \<Rightarrow> (int, 'c option) fmap res" where
  "connect_each G [] clients = Inr clients"
| "connect_each G (k # ks) clients =
     rbind (ConnectToPeer G k (GetPeerAddr k) clients) (connect_each G ks)"

definition ConnectAllPeers ::
  "'c grpc \<Rightarrow> int \<Rightarrow> (int, 'c option) fmap \<Rightarrow> (int, 'c option) fmap res" where
  "ConnectAllPeers G serverId clients = connect_each G (other_ids serverId) clients"

definition DisconnectAll :: "('s, 'c) Server \<Rightarrow> ('s, 'c) Server" where
  "DisconnectAll s = s\<lparr>srv_peerClients := fmmap (\<lambda>_. None) (srv_peerClients s)\<rparr>"

definition DisconnectPeer :: "'c grpc \<Rightarrow> int \<Rightarrow> ('s, 'c) Server \<Rightarrow> ('s, 'c) Server \<times> bool" where
  "DisconnectPeer G peerId s =
     (case fm_index None (srv_peerClients s) peerId of
        None \<Rightarrow> (s, True)
      | Some c \<Rightarrow> (s\<lparr>srv_peerClients := fmupd peerId None (srv_peerClients s)\<rparr>, grpc_Close G c))"

definition checkPeerConnection :: "'c grpc \<Rightarrow> int \<Rightarrow> ('s, 'c) Server \<Rightarrow> bool res" where
  "checkPeerConnection G peerId s =
     rbind (grpc_GetState G (fm_index None (srv_peerClients s) peerId)) (\<lambda>state.
       Inr (state = ''IDLE'' \<or> state = ''READY''))"

fun active_among :: "'c grpc \<Rightarrow> int list \<Rightarrow> ('s, 'c) Server \<Rightarrow> int list res" where
  "active_among G [] s = Inr []"
| "active_among G (k # ks) s =
     rbind (checkPeerConnection G k s) (\<lambda>up.
     rbind (active_among G ks s) (\<lambda>active. Inr (if up then k # active else active)))"

definition GetActivePeers :: "'c grpc \<Rightarrow> ('s, 'c) Server \<Rightarrow> int list res" where
  "GetActivePeers G s = active_among G (other_ids (srv_serverId s)) s"

section \<open>The server\<close>

definition NewServer ::
  "'s deps \<Rightarrow> (string \<Rightarrow> 's option) \<Rightarrow> 'c grpc \<Rightarrow> int \<Rightarrow> string \<Rightarrow> ('s, 'c) Server res" where
  "NewServer D open_db G serverId Listener =
     (let peerIds = other_ids serverId
      in rbind (ConnectAllPeers G serverId fmempty) (\<lambda>clients.
         rbind (NewConsensusModule D open_db serverId peerIds) (\<lambda>cm.
           Inr \<lparr>srv_serverId = serverId, srv_peerIds = peerIds, srv_cm = cm, srv_commitChan = [],
                srv_peerClients = clients, srv_broadcast = [],
                srv_listener = Listener, srv_ready_closed = False\<rparr>)))"

text \<open>
  \<open>Serve\<close> closes the channel the main loop of the consensus module waits for; nothing is ever
  sent on it.
\<close>

definition Serve :: "('s, 'c) Server \<Rightarrow> ('s, 'c) Server res" where
  "Serve s = (if srv_ready_closed s then Inl (Panic Close_Of_Closed)
     else Inr (s\<lparr>srv_ready_closed := True\<rparr>))"

definition GetListenAddr :: "('s, 'c) Server \<Rightarrow> string" where
  "GetListenAddr s = srv_listener s"

text \<open>The RPCs of the peers are those of the consensus module.\<close>

definition with_cm ::
  "('s ConsensusModule \<Rightarrow> ('s ConsensusModule \<times> 'r) res) \<Rightarrow> ('s, 'c) Server \<Rightarrow>
   (('s, 'c) Server \<times> 'r) res" where
  "with_cm f s = rbind (f (srv_cm s)) (\<lambda>(cm, r). Inr (s\<lparr>srv_cm := cm\<rparr>, r))"

definition Server_RequestVote ::
  "'s deps \<Rightarrow> int \<Rightarrow> RequestVoteRequest \<Rightarrow> ('s, 'c) Server \<Rightarrow>
   (('s, 'c) Server \<times> RequestVoteResponse) res" where
  "Server_RequestVote D now req = with_cm (RequestVoteHelper D now req)"

definition Server_ForwardLeader ::
  "'s deps \<Rightarrow> ForwardLeaderRequest \<Rightarrow> ('s, 'c) Server \<Rightarrow>
   (('s, 'c) Server \<times> ForwardLeaderResponse) res" where
  "Server_ForwardLeader D req = with_cm (ForwardLeaderHelper D req)"

definition Server_AppendEntries ::
  "'s deps \<Rightarrow> int \<Rightarrow> AppendEntriesRequest \<Rightarrow> ('s, 'c) Server \<Rightarrow>
   (('s, 'c) Server \<times> AppendEntriesResponse) res" where
  "Server_AppendEntries D now req = with_cm (AppendEntriesHelper D now req)"

text \<open>
  When the consensus module gets the reply of a peer, a connection that has been closed in the
  meantime is opened again before the reply is handled.
\<close>

definition reconnect_lost ::
  "'c grpc \<Rightarrow> int \<Rightarrow> (int, 'c option) fmap \<Rightarrow> (int, 'c option) fmap res" where
  "reconnect_lost G peerId clients =
     (if fm_index None clients peerId = None then ReconnectToPeer G peerId clients else Inr clients)"

definition Server_VoteReply ::
  "'c grpc \<Rightarrow> int \<Rightarrow> int \<Rightarrow> nat \<Rightarrow> int \<Rightarrow> RequestVoteResponse \<Rightarrow> ('s, 'c) Server \<Rightarrow> ('s, 'c) Server res" where
  "Server_VoteReply G now saved el peerId reply s =
     rbind (reconnect_lost G peerId (srv_peerClients s)) (\<lambda>clients.
       Inr (s\<lparr>srv_peerClients := clients, srv_cm := handleVoteReply now saved el reply (srv_cm s)\<rparr>))"

definition Server_AEReply ::
  "'c grpc \<Rightarrow> int \<Rightarrow> int \<Rightarrow> int \<Rightarrow> int \<Rightarrow> nat \<Rightarrow> AppendEntriesResponse \<Rightarrow> ('s, 'c) Server \<Rightarrow> ('s, 'c) Server res" where
  "Server_AEReply G now saved peerId ni n reply s =
     rbind (reconnect_lost G peerId (srv_peerClients s)) (\<lambda>clients.
     rbind (handleAEReply now saved peerId ni n reply (srv_cm s)) (\<lambda>cm.
       Inr (s\<lparr>srv_peerClients := clients, srv_cm := cm\<rparr>)))"

definition Server_ForwardReply ::
  "'c grpc \<Rightarrow> Command option \<Rightarrow> int \<Rightarrow> ForwardLeaderResponse \<Rightarrow> ('s, 'c) Server \<Rightarrow> ('s, 'c) Server res" where
  "Server_ForwardReply G command leader reply s =
     rbind (reconnect_lost G leader (srv_peerClients s)) (\<lambda>clients.
     rbind (handleForwardReply command reply (srv_cm s)) (\<lambda>cm.
       Inr (s\<lparr>srv_peerClients := clients, srv_cm := cm\<rparr>)))"

section \<open>Applying a committed command\<close>

text \<open>
  The store afterwards and the group names sent on the broadcast channel; \<open>gid\<close> is the
  group id that a join would draw.
\<close>

definition persistData ::
  "'s deps \<Rightarrow> uint32 \<Rightarrow> CommitEntry \<Rightarrow> 's DiskStore \<Rightarrow> ('s DiskStore \<times> string list) res" where
  "persistData D gid commitentry store =
     rbind (deref (ce_Command commitentry)) (\<lambda>command.
       let ev = cmd_Event command in
       if ev = ''u'' then
         rbind (SaveUser D (Command_GetLogin command) store) (\<lambda>(_, store1). Inr (store1, []))
       else if ev = ''j'' then
         rbind (deref (Command_GetJoinchat command)) (\<lambda>joinchat.
         rbind (deref (join_Joineduser joinchat)) (\<lambda>user.
         rbind (rbind (RemoveUserInGroup D (user_Id user) (join_Currgroup joinchat) store)
                  (\<lambda>(ok, store1).
                     if ok then JoinGroup D gid (join_Newgroup joinchat) (Some user) store1
                     else Inr store1)) (\<lambda>store2.
           Inr (store2, [join_Currgroup joinchat, join_Newgroup joinchat]))))
       else if ev = ''a'' then
         rbind (AppendMessage D (Command_GetAppend command) store) (\<lambda>store1.
         rbind (deref (Command_GetAppend command)) (\<lambda>a.
         rbind (deref (app_Group a)) (\<lambda>g. Inr (store1, [grp_Groupname g]))))
       else if ev = ''l'' then
         rbind (LikeMessage D (Command_GetLike command) store) (\<lambda>store1.
         rbind (deref (Command_GetLike command)) (\<lambda>l.
         rbind (deref (like_Group l)) (\<lambda>g. Inr (store1, [grp_Groupname g]))))
       else if ev = ''r'' then
         rbind (UnLikeMessage D (Command_GetUnlike command) store) (\<lambda>store1.
         rbind (deref (Command_GetUnlike command)) (\<lambda>l.
         rbind (deref (unlike_Group l)) (\<lambda>g. Inr (store1, [grp_Groupname g]))))
       else if ev = ''q'' then
         rbind (deref (Command_GetLogout command)) (\<lambda>logout.
         rbind (deref (logout_User logout)) (\<lambda>user.
         rbind (rbind (DeleteUser D (user_Id user) store) (\<lambda>store1.
                rbind (RemoveUserInGroup D (user_Id user) (logout_Currgroup logout) store1)
                  (\<lambda>(_, store2). Inr store2))) (\<lambda>store3.
           Inr (store3, [logout_Currgroup logout]))))
       else Inr (store, []))"

text \<open>
  \<open>commitEntries\<close> applies what it receives, one entry after the other; each with the group id
  it would draw.
\<close>

fun apply_entries ::
  "'s deps \<Rightarrow> (uint32 \<times> CommitEntry) list \<Rightarrow> 's DiskStore \<Rightarrow> ('s DiskStore \<times> string list) res" where
  "apply_entries D [] store = Inr (store, [])"
| "apply_entries D ((gid, e) # es) store =
     rbind (persistData D gid e store) (\<lambda>(store1, sent).
     rbind (apply_entries D es store1) (\<lambda>(store2, sent'). Inr (store2, sent @ sent')))"

definition commitEntries_step ::
  "'s deps \<Rightarrow> uint32 \<Rightarrow> ('s, 'c) Server \<Rightarrow> ('s, 'c) Server res" where
  "commitEntries_step D gid s =
     (case srv_commitChan s of
        [] \<Rightarrow> Inr s
      | e # es \<Rightarrow>
          rbind (persistData D gid e (cm_storage (srv_cm s))) (\<lambda>(store, sent).
            Inr (s\<lparr>srv_commitChan := es, srv_cm := (srv_cm s)\<lparr>cm_storage := store\<rparr>,
                   srv_broadcast := srv_broadcast s @ sent\<rparr>)))"

end
