(* ===== verification/Raft_Quorum.thy ===== *)
theory Raft_Quorum
  imports Raft_Commit
begin

text \<open>
  Majorities of the cluster: any two of them have a server in common, so the votes of an
  election and the copies of a committed entry, or the votes of two elections, meet in a server.
\<close>

section \<open>The interface of a quorum system\<close>

locale quorum_system =
  fixes quorum :: "'p set \<Rightarrow> bool"
  assumes meet: "quorum A \<Longrightarrow> quorum B \<Longrightarrow> \<exists>p. p \<in> A \<and> p \<in> B"
begin

text \<open>If every voter backs one candidate, two candidates backed by quorums are the same.\<close>

lemma one_winner:
  assumes "quorum A" and "quorum B"
    and "\<And>p. p \<in> A \<Longrightarrow> backs p c" and "\<And>p. p \<in> B \<Longrightarrow> backs p d"
    and "\<And>p. p \<in> A \<Longrightarrow> p \<in> B \<Longrightarrow> backs p c \<Longrightarrow> backs p d \<Longrightarrow> c = d"
  shows "c = d"
  using meet [OF assms(1,2)] assms(3-5) by blast

lemma nonempty: "quorum A \<Longrightarrow> A \<noteq> {}"
  using meet by blast

end

section \<open>Majorities of a cluster\<close>

definition cluster :: "'s ConsensusModule \<Rightarrow> int set" where
  "cluster cm = insert (cm_id cm) (set (cm_peerIds cm))"

definition cluster_ok :: "'s ConsensusModule \<Rightarrow> bool" where
  "cluster_ok cm \<longleftrightarrow> distinct (cm_peerIds cm) \<and> cm_id cm \<notin> set (cm_peerIds cm)"

definition is_quorum :: "'s ConsensusModule \<Rightarrow> int set \<Rightarrow> bool" where
  "is_quorum cm A \<longleftrightarrow> cluster_ok cm \<and> A \<subseteq> cluster cm \<and> majority (int (card A)) cm"

lemma card_cluster: "cluster_ok cm \<Longrightarrow> card (cluster cm) = length (cm_peerIds cm) + 1"
  by (simp add: cluster_def cluster_ok_def distinct_card)

interpretation majorities: quorum_system "is_quorum cm" for cm :: "'s ConsensusModule"
proof unfold_locales
  fix A B
  assume A: "is_quorum cm A" and B: "is_quorum cm B"
  show "\<exists>p. p \<in> A \<and> p \<in> B"
  proof (rule ccontr)
    assume "\<not> ?thesis"
    then have disj: "A \<inter> B = {}" by blast
    have fin: "finite (cluster cm)" by (simp add: cluster_def)
    have sub: "A \<subseteq> cluster cm" "B \<subseteq> cluster cm" using A B by (simp_all add: is_quorum_def)
    then have "card A + card B = card (A \<union> B)"
      using disj fin by (simp add: card_Un_disjoint finite_subset)
    also have "\<dots> \<le> card (cluster cm)" using sub fin by (intro card_mono) auto
    finally have "card A + card B \<le> card (cluster cm)" .
    moreover have "card (cluster cm) < 2 * card A" "card (cluster cm) < 2 * card B"
      using A B card_cluster [of cm] by (auto simp: is_quorum_def majority_def)
    ultimately show False by simp
  qed
qed

text \<open>Servers of one cluster have the same quorums.\<close>

lemma is_quorum_same:
  assumes "is_quorum cm A" and "cluster_ok cm'" and "cluster cm = cluster cm'"
  shows "is_quorum cm' A"
  using assms card_cluster [of cm] card_cluster [of cm'] by (auto simp: is_quorum_def majority_def)

section \<open>The copies that the commit rule counts\<close>

definition holders :: "'s ConsensusModule \<Rightarrow> int \<Rightarrow> int set" where
  "holders cm i = insert (cm_id cm) {p \<in> set (cm_peerIds cm). fm_index 0 (cm_matchIndex cm) p \<ge> i}"

lemma card_holders:
  assumes "cluster_ok cm"
  shows "int (card (holders cm i)) = matchCount cm i"
proof -
  let ?m = "\<lambda>p. fm_index 0 (cm_matchIndex cm) p \<ge> i"
  have "{p \<in> set (cm_peerIds cm). ?m p} = set (filter ?m (cm_peerIds cm))" by auto
  moreover have "card (set (filter ?m (cm_peerIds cm))) = length (filter ?m (cm_peerIds cm))"
    using assms by (intro distinct_card) (simp add: cluster_ok_def)
  ultimately show ?thesis using assms
    by (simp add: holders_def matchCount_def cluster_ok_def)
qed

lemma committable_quorum:
  "cluster_ok cm \<Longrightarrow> committable cm i \<Longrightarrow> is_quorum cm (holders cm (int i))"
  by (auto simp: is_quorum_def committable_def card_holders) (auto simp: holders_def cluster_def)

section \<open>Elections\<close>

text \<open>
  \<open>hist p\<close> is what server \<open>p\<close> has done. A candidate is elected in a term when it and the
  servers that granted it their vote in that term are a majority.
\<close>

definition elected :: "(int \<Rightarrow> label list) \<Rightarrow> 's ConsensusModule \<Rightarrow> int \<Rightarrow> int set \<Rightarrow> bool" where
  "elected hist cm t A \<longleftrightarrow> is_quorum cm A \<and>
     (\<forall>p \<in> A - {cm_id cm}. \<exists>l \<in> set (hist p). grant l = Some (t, cm_id cm))"

lemma elected_grants:
  assumes "\<And>p. \<exists>s s'. self_vote s \<and> runs (prompt_step D) s (hist p) s'"
    and "l1 \<in> set (hist p)" and "grant l1 = Some (t, c)"
    and "l2 \<in> set (hist p)" and "grant l2 = Some (t, d)"
  shows "c = d"
proof -
  obtain s s' where "self_vote s" and "runs (prompt_step D) s (hist p) s'" using assms(1) by blast
  with assms(2-5) show ?thesis using voter.one_vote_per_term by metis
qed

lemma elected_twice:
  assumes runs: "\<And>p. \<exists>s s'. self_vote s \<and> runs (prompt_step D) s (hist p) s'"
    and e1: "elected hist c1 t A" and e2: "elected hist c2 t B"
    and "cluster c1 = cluster c2" and "cm_id c1 \<noteq> cm_id c2"
  shows "cm_id c1 \<in> B \<or> cm_id c2 \<in> A"
proof (rule ccontr)
  assume no: "\<not> ?thesis"
  define backs where "backs p c \<longleftrightarrow> p \<in> {cm_id c1, cm_id c2} \<or> (\<exists>l \<in> set (hist p). grant l = Some (t, c))" for p c
  have "is_quorum c1 A" "is_quorum c2 B" using e1 e2 by (simp_all add: elected_def)
  moreover from this have "cluster_ok c1" by (simp only: is_quorum_def)
  ultimately have q: "is_quorum c1 A" "is_quorum c1 B"
    using assms(4) [symmetric] by (blast intro: is_quorum_same)+
  have "cm_id c1 = cm_id c2"
  proof (rule majorities.one_winner [OF q, of backs])
    show "backs p (cm_id c1)" if "p \<in> A" for p using e1 that by (auto simp: elected_def backs_def)
    show "backs p (cm_id c2)" if "p \<in> B" for p using e2 that by (auto simp: elected_def backs_def)
    show "cm_id c1 = cm_id c2" if "p \<in> A" "p \<in> B" "backs p (cm_id c1)" "backs p (cm_id c2)" for p
      using that no by (auto simp: backs_def intro: elected_grants [OF runs])
  qed
  with assms(5) show False ..
qed

end
