(* ===== verification/RaftServerSpec.thy ===== *)
theory RaftServerSpec
  imports RaftServer Raft_Quorum
begin

text \<open>
  The commands of the chat as abstract operations, and the refinement: applying a committed
  command to the disk store has the effect of its operation on the abstract chat, so servers
  that apply the same commands hold the same chat.
\<close>

section \<open>Operations and their commands\<close>

datatype chat_op =
    Op_Login User
  | Op_Join User string string
  | Op_Post ChatMessage Group
  | Op_Like User uint32 Group
  | Op_Unlike User uint32 Group
  | Op_Logout User string

fun command_of :: "chat_op \<Rightarrow> Command" where
  "command_of (Op_Login u) = \<lparr>cmd_Action = Some (Command_Login (Some u)), cmd_Event = ''u''\<rparr>"
| "command_of (Op_Join u new cur) = \<lparr>cmd_Action = Some (Command_Joinchat (Some
     \<lparr>join_Joineduser = Some u, join_Newgroup = new, join_Currgroup = cur\<rparr>)), cmd_Event = ''j''\<rparr>"
| "command_of (Op_Post m g) = \<lparr>cmd_Action = Some (Command_Append (Some
     \<lparr>app_Chatmessage = Some m, app_Group = Some g\<rparr>)), cmd_Event = ''a''\<rparr>"
| "command_of (Op_Like u i g) = \<lparr>cmd_Action = Some (Command_Like (Some
     \<lparr>like_Likeduser = Some u, like_Messageid = i, like_Group = Some g\<rparr>)), cmd_Event = ''l''\<rparr>"
| "command_of (Op_Unlike u i g) = \<lparr>cmd_Action = Some (Command_Unlike (Some
     \<lparr>unlike_Unlikeduser = Some u, unlike_Messageid = i, unlike_Group = Some g\<rparr>)), cmd_Event = ''r''\<rparr>"
| "command_of (Op_Logout u cur) = \<lparr>cmd_Action = Some (Command_Logout (Some
     \<lparr>logout_User = Some u, logout_Currgroup = cur\<rparr>)), cmd_Event = ''q''\<rparr>"

text \<open>Its effect, the groups it is announced to, and when it is well formed.\<close>

fun op_apply :: "chat_op \<Rightarrow> AChat \<Rightarrow> AChat" where
  "op_apply (Op_Login u) = a_login u"
| "op_apply (Op_Join u new cur) = (\<lambda>c. a_join new (user_Id u) (user_Name u) (a_leave cur (user_Id u) c))"
| "op_apply (Op_Post m g) = a_post (grp_Groupname g) (abs_post m)"
| "op_apply (Op_Like u i g) = a_like (grp_Groupname g) (unat i) (user_Name u)"
| "op_apply (Op_Unlike u i g) = a_unlike (grp_Groupname g) (unat i) (user_Name u)"
| "op_apply (Op_Logout u cur) = (\<lambda>c. a_leave cur (user_Id u) (a_delete_user (user_Id u) c))"

fun op_groups :: "chat_op \<Rightarrow> string list" where
  "op_groups (Op_Login u) = []"
| "op_groups (Op_Join u new cur) = [cur, new]"
| "op_groups (Op_Post m g) = [grp_Groupname g]"
| "op_groups (Op_Like u i g) = [grp_Groupname g]"
| "op_groups (Op_Unlike u i g) = [grp_Groupname g]"
| "op_groups (Op_Logout u cur) = [cur]"

fun op_ok :: "chat_op \<Rightarrow> AChat \<Rightarrow> bool" where
  "op_ok (Op_Join u new cur) c = group_name_ok new"
| "op_ok (Op_Post m g) c = (message_ok m \<and> length (posts c (grp_Groupname g)) < max_posts)"
| "op_ok _ c = True"

fun ops_ok :: "chat_op list \<Rightarrow> AChat \<Rightarrow> bool" where
  "ops_ok [] c = True"
| "ops_ok (x # xs) c = (op_ok x c \<and> ops_ok xs (op_apply x c))"

abbreviation ops_apply :: "chat_op list \<Rightarrow> AChat \<Rightarrow> AChat" where
  "ops_apply xs \<equiv> fold op_apply xs"

lemma ops_ok_append: "ops_ok (xs @ ys) c \<longleftrightarrow> ops_ok xs c \<and> ops_ok ys (ops_apply xs c)"
  by (induction xs arbitrary: c) auto

section \<open>The refinement\<close>

lemma implementsE:
  assumes "implements r invar absf c"
  obtains d' where "r = Inr d'" and "invar d'" and "absf d' = c"
  using assms by (auto simp: implements_def)

lemma persistData_refines:
  assumes ok: "disk_ok D store" and op: "op_ok x (abs_store D store)"
    and e: "ce_Command e = Some (command_of x)"
  shows "\<exists>store'. persistData D gid e store = Inr (store', op_groups x) \<and> disk_ok D store' \<and>
    abs_store D store' = op_apply x (abs_store D store)"
proof (cases x)
  case (Op_Login u)
  with e implementsE [OF disk.save_user [OF ok, of u]] show ?thesis
    by (fastforce simp: persistData_def Command_getters)
next
  case (Op_Join u new cur)
  with op have "group_name_ok new" by simp
  from implementsE [OF disk.switch_group [OF ok this, of "user_Id u" cur gid u]] obtain d' where
    "rbind (RemoveUserInGroup D (user_Id u) cur store)
       (\<lambda>(ok, d'). if ok then JoinGroup D gid new (Some u) d' else Inr d') = Inr d'"
    "disk_ok D d'" "abs_store D d' = op_apply x (abs_store D store)"
    using Op_Join by auto
  with e Op_Join show ?thesis by (simp add: persistData_def Command_getters cong: if_cong)
next
  case (Op_Post m g)
  with op have "message_ok m" "length (posts (abs_store D store) (grp_Groupname g)) < max_posts" by simp_all
  from implementsE [OF disk.append [OF ok this]] e Op_Post show ?thesis
    by (fastforce simp: persistData_def Command_getters)
next
  case (Op_Like u i g)
  from implementsE [OF disk.like [OF ok, of u i g]] e Op_Like show ?thesis
    by (fastforce simp: persistData_def Command_getters)
next
  case (Op_Unlike u i g)
  from implementsE [OF disk.unlike [OF ok, of u i g]] e Op_Unlike show ?thesis
    by (fastforce simp: persistData_def Command_getters)
next
  case (Op_Logout u cur)
  from implementsE [OF disk.logout_user [OF ok, of "user_Id u" cur]] obtain d' where
    "rbind (DeleteUser D (user_Id u) store) (\<lambda>d1. rbind (RemoveUserInGroup D (user_Id u) cur d1)
       (\<lambda>(_, d2). Inr d2)) = Inr d'"
    "disk_ok D d'" "abs_store D d' = op_apply x (abs_store D store)"
    using Op_Logout by auto
  with e Op_Logout show ?thesis by (simp add: persistData_def Command_getters)
qed

lemma apply_entries_refines:
  assumes "disk_ok D store" and "ops_ok xs (abs_store D store)"
    and "map (\<lambda>e. ce_Command (snd e)) es = map (\<lambda>x. Some (command_of x)) xs"
  shows "\<exists>store'. apply_entries D es store = Inr (store', concat (map op_groups xs)) \<and>
    disk_ok D store' \<and> abs_store D store' = ops_apply xs (abs_store D store)"
  using assms
proof (induction xs arbitrary: es store)
  case (Cons x xs)
  then obtain gid e es' where es: "es = (gid, e) # es'" and e: "ce_Command e = Some (command_of x)"
    and es': "map (\<lambda>e. ce_Command (snd e)) es' = map (\<lambda>x. Some (command_of x)) xs"
    by (cases es) auto
  have "op_ok x (abs_store D store)" using Cons.prems(2) by simp
  from persistData_refines [OF Cons.prems(1) this e] obtain store1 where
    s1: "persistData D gid e store = Inr (store1, op_groups x)" "disk_ok D store1"
      "abs_store D store1 = op_apply x (abs_store D store)" by blast
  with Cons.prems(2) have "ops_ok xs (abs_store D store1)" by simp
  from Cons.IH [OF s1(2) this es'] s1 show ?case by (auto simp: es)
qed simp

section \<open>Peers\<close>

lemma set_other_ids: "p \<in> set (other_ids i) \<longleftrightarrow> 1 \<le> p \<and> p \<le> 5 \<and> p \<noteq> i"
  by (auto simp: other_ids_def)

lemma distinct_other_ids: "distinct (other_ids i)"
  by (simp add: other_ids_def)

lemma GetPeerAddr_inj: "GetPeerAddr i = GetPeerAddr j \<longleftrightarrow> i = j"
  by (auto simp: GetPeerAddr_def)

text \<open>A network in which every peer can be dialled.\<close>

definition dialable :: "'c grpc \<Rightarrow> bool" where
  "dialable G \<longleftrightarrow> (\<forall>addr. \<exists>c. grpc_Dial G addr = Some c) \<and> (\<forall>c. returns (grpc_GetState G (Some c)))"

lemma connect_each_ok:
  assumes "dialable G"
  shows "connect_each G ks m = Inr (fold (\<lambda>k. fmupd k (grpc_Dial G (GetPeerAddr k))) ks m)"
proof (induction ks arbitrary: m)
  case (Cons k ks)
  obtain c where c: "grpc_Dial G (GetPeerAddr k) = Some c" using assms by (auto simp: dialable_def)
  obtain st where "grpc_GetState G (Some c) = Inr st"
    using assms by (fastforce simp: dialable_def returns_iff)
  with c Cons show ?case by (simp add: ConnectToPeer_def)
qed simp

text \<open>
  Handling a reply on the server is handling it in the consensus module, if the peer can be
  dialled again or is still connected; the peer is then connected.
\<close>

lemma reconnect_lost_ok:
  assumes "dialable G"
  obtains clients' where "reconnect_lost G p clients = Inr clients'" and "fm_index None clients' p \<noteq> None"
    and "\<And>q. q \<noteq> p \<Longrightarrow> fmlookup clients' q = fmlookup clients q"
proof (cases "fm_index None clients p = None")
  case True
  obtain c where c: "grpc_Dial G (GetPeerAddr p) = Some c" using assms by (auto simp: dialable_def)
  obtain st where "grpc_GetState G (Some c) = Inr st" using assms by (fastforce simp: dialable_def returns_iff)
  with c True show thesis
    using that [of "fmupd p (Some c) clients"]
    by (simp add: reconnect_lost_def ReconnectToPeer_def ConnectToPeer_def)
next
  case False
  with that [of clients] show thesis by (simp add: reconnect_lost_def)
qed

lemma server_replies:
  assumes "reconnect_lost G p (srv_peerClients s) = Inr clients"
  shows "Server_VoteReply G now saved el p vreply s =
      Inr (s\<lparr>srv_peerClients := clients, srv_cm := handleVoteReply now saved el vreply (srv_cm s)\<rparr>)"
    and "Server_AEReply G now saved p ni n areply s =
      rbind (handleAEReply now saved p ni n areply (srv_cm s)) (\<lambda>cm. Inr (s\<lparr>srv_peerClients := clients, srv_cm := cm\<rparr>))"
    and "Server_ForwardReply G command p freply s =
      rbind (handleForwardReply command freply (srv_cm s)) (\<lambda>cm. Inr (s\<lparr>srv_peerClients := clients, srv_cm := cm\<rparr>))"
  by (simp_all add: Server_VoteReply_def Server_AEReply_def Server_ForwardReply_def assms)

lemma fm_index_connected:
  "fm_index None (fold (\<lambda>k. fmupd k (f k)) ks m) k = (if k \<in> set ks then f k else fm_index None m k)"
  by (induction ks arbitrary: m) auto

definition peer_up :: "'c grpc \<Rightarrow> ('s, 'c) Server \<Rightarrow> int \<Rightarrow> bool" where
  "peer_up G s k \<longleftrightarrow>
     grpc_GetState G (fm_index None (srv_peerClients s) k) \<in> {Inr ''IDLE'', Inr ''READY''}"

lemma active_among_filter:
  assumes "\<And>k. k \<in> set ks \<Longrightarrow> returns (grpc_GetState G (fm_index None (srv_peerClients s) k))"
  shows "active_among G ks s = Inr (filter (peer_up G s) ks)"
  using assms
proof (induction ks)
  case (Cons k ks)
  obtain st where "grpc_GetState G (fm_index None (srv_peerClients s) k) = Inr st"
    using Cons.prems [of k] by (auto simp: returns_iff)
  with Cons show ?case by (simp add: checkPeerConnection_def peer_up_def)
qed simp

lemma NewServer_cases:
  assumes "NewServer D open_db G i addr = Inr s"
  shows "srv_serverId s = i" and "cm_id (srv_cm s) = i" and "cm_peerIds (srv_cm s) = other_ids i"
    and "cm_state (srv_cm s) = Follower" and "cm_commitIndex (srv_cm s) = -1"
    and "cm_lastApplied (srv_cm s) = -1" and "\<not> cm_newCommitClosed (srv_cm s)"
    and "connect_each G (other_ids i) fmempty = Inr (srv_peerClients s)"
  using assms
  by (auto simp: NewServer_def Let_def ConnectAllPeers_def NewConsensusModule_def init_cm_def
      restoreFromStorage_def split: if_splits)

text \<open>A new server is a member of the five-server cluster, with its log indices in order.\<close>

lemma NewServer_ok:
  assumes "NewServer D open_db G i addr = Inr s"
  shows "log_ok (srv_cm s)" and "i \<noteq> -1 \<Longrightarrow> self_vote (srv_cm s)"
  using NewServer_cases [OF assms]
  by (simp_all add: log_ok_def self_vote_def running_def)

end
