(* ===== verification/Raft_Calls.thy ===== *)
theory Raft_Calls
  imports Raft_Quorum "HOL-Library.Multiset"
begin

text \<open>
  The goroutines of \<open>server/raft.go\<close> that call other servers: which vote calls and append
  calls a step starts, finishes or counts. The arguments about the whole cluster count them.
\<close>

section \<open>The calls of an election\<close>

text \<open>
  The goroutines that the argument counts: the vote calls of a candidate and the append calls
  of a leader.
\<close>

fun tracked :: "goroutine \<Rightarrow> bool" where
  "tracked (Go_RequestVote saved el peer) = True"
| "tracked (Go_AwaitVote saved el peer) = True"
| "tracked (Go_SendAE saved peer) = True"
| "tracked _ = False"

fun vote_call :: "nat \<Rightarrow> int \<Rightarrow> goroutine \<Rightarrow> bool" where
  "vote_call e q (Go_RequestVote saved el peer) = (el = e \<and> peer = q)"
| "vote_call e q (Go_AwaitVote saved el peer) = (el = e \<and> peer = q)"
| "vote_call e q _ = False"

definition tracked_calls :: "'s ConsensusModule \<Rightarrow> goroutine multiset" where
  "tracked_calls cm = filter_mset tracked (mset (cm_spawned cm))"

definition vote_calls :: "nat \<Rightarrow> int \<Rightarrow> 's ConsensusModule \<Rightarrow> nat" where
  "vote_calls e q cm = size (filter_mset (vote_call e q) (tracked_calls cm))"

text \<open>A step that starts none of them and does not touch the count of an election.\<close>

definition quiet :: "'s ConsensusModule \<Rightarrow> 's ConsensusModule \<Rightarrow> bool" where
  "quiet cm cm' \<longleftrightarrow> tracked_calls cm' \<subseteq># tracked_calls cm \<and>
     cm_elections cm' = cm_elections cm \<and> cm_votes cm' = cm_votes cm"

lemma tracked_calls_spawn [simp]:
  "tracked_calls (spawn gs cm) = tracked_calls cm + filter_mset tracked (mset gs)"
  by (simp add: tracked_calls_def)

lemma tracked_calls_cong: "cm_spawned cm' = cm_spawned cm \<Longrightarrow> tracked_calls cm' = tracked_calls cm"
  by (simp add: tracked_calls_def)

lemma tracked_calls_finished: "tracked_calls (finished g cm) = tracked_calls cm - {#g#}"
proof (cases "tracked g")
  case True
  then show ?thesis by (simp add: tracked_calls_def finished_def filter_diff_mset)
next
  case False
  then have "g \<notin># tracked_calls cm" by (simp add: tracked_calls_def)
  with False show ?thesis
    by (simp add: tracked_calls_def finished_def filter_diff_mset diff_single_trivial)
qed

lemma quiet_refl [simp]: "quiet cm cm"
  by (simp add: quiet_def)

lemma quiet_trans: "quiet a b \<Longrightarrow> quiet b c \<Longrightarrow> quiet a c"
  by (auto simp: quiet_def)

lemma finished_votes [simp]:
  "cm_elections (finished g cm) = cm_elections cm" "cm_votes (finished g cm) = cm_votes cm"
  by (simp_all add: finished_def)

lemma quiet_finished: "quiet (finished g cm) cm' \<Longrightarrow> quiet cm cm'"
  by (auto simp: quiet_def tracked_calls_finished intro: subset_mset.order_trans diff_subset_eq_self)

lemma quiet_same:
  "cm_spawned cm' = cm_spawned cm \<Longrightarrow> cm_elections cm' = cm_elections cm \<Longrightarrow> cm_votes cm' = cm_votes cm \<Longrightarrow>
   quiet cm cm'"
  by (simp add: quiet_def tracked_calls_def)

lemma quiet_spawn: "\<forall>g \<in> set gs. \<not> tracked g \<Longrightarrow> quiet cm cm' \<Longrightarrow> quiet cm (spawn gs cm')"
  by (simp add: quiet_def mset_filter [symmetric] del: mset_filter)

lemma quiet_becomeFollower: "quiet cm cm' \<Longrightarrow> quiet cm (becomeFollower now t cm')"
  by (auto simp: quiet_def becomeFollower_def tracked_calls_def)

lemma AppendEntries_quiet:
  "AppendEntriesHelper D now req cm = Inr (cm', reply) \<Longrightarrow> quiet cm cm'"
  by (auto simp: AppendEntriesHelper_def Let_def quiet_def becomeFollower_def tracked_calls_def spawn_def
      dest!: persistToStorage_frame advanceCommit_frame split: if_splits)

lemma RequestVote_quiet:
  "RequestVoteHelper D now req cm = Inr (cm', reply) \<Longrightarrow> quiet cm cm'"
  by (auto simp: RequestVoteHelper_def Let_def quiet_def becomeFollower_def tracked_calls_def spawn_def
      dest!: persistToStorage_frame split: if_splits)

lemma Submit_quiet: "Submit D command cm = Inr (cm', ok) \<Longrightarrow> quiet cm cm'"
  by (auto simp: Submit_def forwardToLeader_def quiet_def tracked_calls_def spawn_def
      dest!: persistToStorage_frame split: if_splits)

lemma ForwardLeader_quiet: "ForwardLeaderHelper D req cm = Inr (cm', reply) \<Longrightarrow> quiet cm cm'"
  by (auto simp: ForwardLeaderHelper_def dest: Submit_quiet split: if_splits)

lemma AEReply_quiet:
  assumes "handleAEReply now saved p ni n reply cm = Inr cm'"
  shows "quiet cm cm'"
proof (cases "aer_Term reply > cm_currentTerm cm")
  case True
  with assms have "cm' = becomeFollower now (aer_Term reply) cm" by (simp add: handleAEReply_def)
  then show ?thesis by (simp add: quiet_becomeFollower)
next
  case False
  with assms show ?thesis
    by (auto simp: handleAEReply_def Let_def dest!: signal_frame intro!: quiet_same split: if_splits)
qed

lemma ForwardReply_quiet: "handleForwardReply command reply cm = Inr cm' \<Longrightarrow> quiet cm cm'"
  by (auto simp: handleForwardReply_def forwardToLeader_def quiet_def tracked_calls_def spawn_def
      dest!: signal_frame split: if_splits)

lemma commitChanSender_quiet: "commitChanSender cm = Inr (cm', es) \<Longrightarrow> quiet cm cm'"
  by (auto dest!: commitChanSender_frame intro!: quiet_same)

lemma startLeader_quiet: "quiet cm (startLeader cm)"
  by (simp add: startLeader_def quiet_def tracked_calls_def)

section \<open>What a step does to the calls\<close>

text \<open>
  A step is quiet, or starts an election, sends a vote request, counts a vote or starts the
  append calls of a leader, or it is a restart, which leaves no calls.
\<close>

definition starts_election :: "'s ConsensusModule \<Rightarrow> 's ConsensusModule \<Rightarrow> bool" where
  "starts_election cm cm' \<longleftrightarrow> cm_state cm' = Candidate \<and>
     cm_currentTerm cm' = wrap64 (cm_currentTerm cm + 1) \<and>
     cm_elections cm' = Suc (cm_elections cm) \<and>
     cm_votes cm' = (cm_votes cm)(Suc (cm_elections cm) := 1) \<and>
     tracked_calls cm' = tracked_calls cm +
       mset (map (Go_RequestVote (wrap64 (cm_currentTerm cm + 1)) (Suc (cm_elections cm))) (cm_peerIds cm))"

definition sends_vote :: "'s ConsensusModule \<Rightarrow> 's ConsensusModule \<Rightarrow> bool" where
  "sends_vote cm cm' \<longleftrightarrow> (\<exists>saved el peer. Go_RequestVote saved el peer \<in># tracked_calls cm \<and>
     tracked_calls cm' = tracked_calls cm - {#Go_RequestVote saved el peer#} + {#Go_AwaitVote saved el peer#} \<and>
     cm_elections cm' = cm_elections cm \<and> cm_votes cm' = cm_votes cm \<and>
     cm_currentTerm cm' = cm_currentTerm cm \<and> cm_state cm' = cm_state cm)"

definition counts_vote ::
  "int \<Rightarrow> nat \<Rightarrow> int \<Rightarrow> 's ConsensusModule \<Rightarrow> 's ConsensusModule \<Rightarrow> bool" where
  "counts_vote saved el peer cm cm' \<longleftrightarrow> Go_AwaitVote saved el peer \<in># tracked_calls cm \<and>
     tracked_calls cm' = tracked_calls cm - {#Go_AwaitVote saved el peer#} \<and>
     cm_elections cm' = cm_elections cm \<and>
     cm_votes cm' = (cm_votes cm)(el := cm_votes cm el + 1) \<and>
     cm_currentTerm cm' = cm_currentTerm cm \<and> cm_state cm' = cm_state cm"

definition starts_appends :: "'s ConsensusModule \<Rightarrow> 's ConsensusModule \<Rightarrow> bool" where
  "starts_appends cm cm' \<longleftrightarrow> cm_state cm = Leader \<and> cm_state cm' = Leader \<and>
     cm_currentTerm cm' = cm_currentTerm cm \<and>
     cm_elections cm' = cm_elections cm \<and> cm_votes cm' = cm_votes cm \<and>
     tracked_calls cm' = tracked_calls cm + mset (map (Go_SendAE (cm_currentTerm cm)) (cm_peerIds cm))"

lemma filter_tracked [simp]:
  "filter_mset tracked (image_mset (Go_RequestVote saved el) M) = image_mset (Go_RequestVote saved el) M"
  "filter_mset tracked (image_mset (Go_SendAE saved) M) = image_mset (Go_SendAE saved) M"
  by (induction M) simp_all

lemma startElection_starts: "starts_election cm (startElection now cm)"
  by (simp add: starts_election_def startElection_def Let_def tracked_calls_def)

lemma Tick_calls:
  assumes "cm' = after_tick main ts to (electionTick now ts to cm)"
  shows "quiet cm cm' \<or> starts_election cm cm'"
  using assms startElection_starts [of cm now]
  by (auto simp: electionTick_def after_tick_def quiet_def starts_election_def)

lemma leaderSendAEs_calls:
  "quiet cm (leaderSendAEs cm) \<or> starts_appends cm (leaderSendAEs cm)"
  by (auto simp: leaderSendAEs_def starts_appends_def)

lemma VoteReply_calls:
  assumes "cm_currentTerm cm = saved"
  shows "quiet cm (handleVoteReply now saved el reply cm) \<or>
    rvr_VoteGranted reply \<and> rvr_Term reply = saved \<and>
    tracked_calls (handleVoteReply now saved el reply cm) = tracked_calls cm \<and>
    cm_elections (handleVoteReply now saved el reply cm) = cm_elections cm \<and>
    cm_votes (handleVoteReply now saved el reply cm) = (cm_votes cm)(el := cm_votes cm el + 1) \<and>
    cm_currentTerm (handleVoteReply now saved el reply cm) = cm_currentTerm cm \<and>
    cm_state (handleVoteReply now saved el reply cm) = cm_state cm"
proof -
  consider "cm_state cm = Leader" | "cm_state cm \<noteq> Leader" "rvr_Term reply > saved"
    | "cm_state cm \<noteq> Leader" "\<not> rvr_Term reply > saved" by blast
  then show ?thesis
  proof cases
    case 1
    then show ?thesis by (simp add: handleVoteReply_def startLeader_quiet)
  next
    case 2
    then show ?thesis by (simp add: handleVoteReply_def quiet_becomeFollower)
  next
    case 3
    then show ?thesis by (auto simp: handleVoteReply_def Let_def tracked_calls_def)
  qed
qed

lemma tracked_calls_untracked [simp]:
  "\<not> tracked g \<Longrightarrow> tracked_calls (finished g cm) = tracked_calls cm"
  by (subst tracked_calls_finished, rule diff_single_trivial) (simp add: tracked_calls_def)

lemma pending_tracked: "tracked g \<Longrightarrow> pending g cm \<longleftrightarrow> g \<in># tracked_calls cm"
  by (simp add: pending_def tracked_calls_def)

lemma starts_untracked:
  assumes "\<not> tracked g"
  shows "starts_election (finished g cm) cm' \<longleftrightarrow> starts_election cm cm'"
    and "starts_appends (finished g cm) cm' \<longleftrightarrow> starts_appends cm cm'"
  using assms by (simp_all add: starts_election_def starts_appends_def)

lemma starts_appends_spawn:
  "\<not> tracked g \<Longrightarrow> starts_appends cm cm' \<Longrightarrow> starts_appends cm (spawn [g] cm')"
  by (simp add: starts_appends_def)

lemma VoteReply_step_calls:
  assumes "pending (Go_AwaitVote saved el peer) cm" and "cm_currentTerm cm = saved"
    and "cm' = handleVoteReply now saved el reply (finished (Go_AwaitVote saved el peer) cm)"
  shows "quiet cm cm' \<or>
    rvr_VoteGranted reply \<and> rvr_Term reply = saved \<and> counts_vote saved el peer cm cm'"
  using VoteReply_calls [of "finished (Go_AwaitVote saved el peer) cm" saved now el reply] assms
  by (auto simp: counts_vote_def tracked_calls_finished pending_tracked intro: quiet_finished)

inductive step_calls :: "'s ConsensusModule \<Rightarrow> label \<Rightarrow> 's ConsensusModule \<Rightarrow> bool" where
  "quiet cm cm' \<Longrightarrow> step_calls cm l cm'"
| "starts_election cm cm' \<Longrightarrow> step_calls cm L_Tick cm'"
| "sends_vote cm cm' \<Longrightarrow> step_calls cm (L_SendVote peer req) cm'"
| "counts_vote saved el peer cm cm' \<Longrightarrow> rvr_VoteGranted reply \<Longrightarrow> rvr_Term reply = saved \<Longrightarrow>
   saved = cm_currentTerm cm \<Longrightarrow> step_calls cm (L_VoteReply saved el peer reply) cm'"
| "starts_appends cm cm' \<Longrightarrow> step_calls cm L_Heartbeat cm'"
| "tracked_calls cm' = {#} \<Longrightarrow> cm_state cm' = Follower \<Longrightarrow> step_calls cm (L_Restart t v log) cm'"

lemma quiet_respawn: "\<forall>g' \<in> set gs. \<not> tracked g' \<Longrightarrow> quiet cm (spawn gs (finished g cm))"
  by (blast intro: quiet_finished quiet_spawn quiet_refl)

lemma prompt_step_calls:
  assumes "cm_step D cm l cm'" and "prompt cm l"
  shows "step_calls cm l cm'"
  using assms
proof (cases rule: cm_step.cases)
  case (Tick main ts to now)
  then show ?thesis
    using Tick_calls [OF Tick(2)] by (auto intro: step_calls.intros quiet_finished simp: starts_untracked)
next
  case (SendVote saved el peer)
  then have "sends_vote cm cm'"
    by (auto simp: sends_vote_def pending_tracked tracked_calls_finished)
  with SendVote(1) show ?thesis by (simp add: step_calls.intros)
next
  case (VoteReply saved el peer reply now)
  with assms(2) VoteReply_step_calls [OF VoteReply(3) _ VoteReply(2)] show ?thesis
    by (auto intro: step_calls.intros)
next
  case LeaderStart
  then have "quiet cm cm' \<or> starts_appends cm cm'"
    using leaderSendAEs_calls [of "finished Go_LeaderStart cm"]
    by (auto intro: quiet_finished quiet_spawn simp: starts_appends_spawn starts_untracked)
  with LeaderStart(1) show ?thesis by (auto intro: step_calls.intros)
next
  case Heartbeat
  then show ?thesis using leaderSendAEs_calls [of cm] by (auto intro: step_calls.intros)
next
  case Trigger
  let ?c = "cm\<lparr>cm_triggerAE := cm_triggerAE cm - 1\<rparr>"
  have "quiet ?c cm' \<or> starts_appends ?c cm'" using leaderSendAEs_calls [of ?c] Trigger(2) by simp
  then have "quiet cm cm' \<or> starts_appends cm cm'"
    by (simp add: quiet_def starts_appends_def tracked_calls_def)
  with Trigger(1) show ?thesis by (auto intro: step_calls.intros)
next
  case (SendAE saved peer req ni)
  have "quiet (finished (Go_SendAE saved peer) cm) cm'" using SendAE(2) by (simp add: quiet_spawn)
  then show ?thesis by (auto intro: step_calls.intros quiet_finished)
next
  case (MainLoop now)
  let ?c = "cm\<lparr>cm_electionResetEvent := now\<rparr>"
  have "cm' = spawn [Go_RunElectionTimer True] (finished Go_MainLoop ?c)"
    using MainLoop(2) by (simp add: finished_def)
  then have "quiet ?c cm'" by (simp add: quiet_respawn)
  then show ?thesis by (intro step_calls.intros(1)) (simp add: quiet_def tracked_calls_def)
next
  case LeaderLoopTriggeredEnd
  then have "quiet (finished Go_LeaderLoop cm) cm'" by (intro quiet_same) auto
  then show ?thesis by (auto intro: step_calls.intros quiet_finished)
next
  case (Commit entries)
  then have "quiet (cm\<lparr>cm_newCommitReady := cm_newCommitReady cm - 1\<rparr>) cm'"
    by (blast intro: commitChanSender_quiet)
  then show ?thesis by (intro step_calls.intros(1)) (simp add: quiet_def tracked_calls_def)
next
  case (Applied store)
  then have "quiet cm cm'" by (intro quiet_same) auto
  then show ?thesis by (rule step_calls.intros)
next
  case Stopped
  then have "quiet cm cm'" by (intro quiet_same) (auto simp: Stop_def split: if_splits)
  then show ?thesis by (rule step_calls.intros)
next
  case (SubmitAppends command)
  then have "quiet (Submit_append command cm) cm'" by (simp add: quiet_spawn)
  then show ?thesis by (intro step_calls.intros(1)) (simp add: quiet_def tracked_calls_def)
next
  case SubmitPersists
  then have "quiet (finished Go_Submitted cm) cm'"
    by (intro quiet_same) (auto dest!: persistToStorage_frame)
  then show ?thesis by (auto intro: step_calls.intros quiet_finished)
next
  case (Restart open_db)
  with restart_started(1) [OF Restart(2,3)] show ?thesis
    by (auto intro!: step_calls.intros(6) simp: started_def tracked_calls_def)
qed (auto intro!: step_calls.intros(1) quiet_respawn quiet_finished [OF quiet_refl] intro: quiet_finished
   AppendEntries_quiet RequestVote_quiet Submit_quiet ForwardLeader_quiet AEReply_quiet ForwardReply_quiet
   commitChanSender_quiet startLeader_quiet)

end
