(* ===== verification/Raft_Cluster.thy ===== *)
theory Raft_Cluster
  imports Raft_Calls
begin

text \<open>
  The servers of \<open>server/raft.go\<close> as one cluster. Every server takes the steps of its
  consensus module; what it receives has been sent by another server and the replies it handles
  have been given. Ghost components record which server has led which term, and with what log.
\<close>

section \<open>What a step does to role, term and log\<close>

type_synonym core = "int \<times> int \<times> LogEntry list \<times> CMState \<times> int \<times> (int, int) fmap \<times> (int, int) fmap \<times> nat"

definition core :: "'s ConsensusModule \<Rightarrow> core" where
  "core cm = (cm_currentTerm cm, cm_votedFor cm, cm_log cm, cm_state cm, cm_commitIndex cm,
     cm_nextIndex cm, cm_matchIndex cm, cm_elections cm)"

lemma core_spawn [simp]: "core (spawn gs cm) = core cm"
  by (simp add: core_def)

lemma core_finished [simp]: "core (finished g cm) = core cm"
  by (simp add: core_def finished_def)

lemma core_iff:
  "core cm' = core cm \<longleftrightarrow> cm_currentTerm cm' = cm_currentTerm cm \<and> cm_votedFor cm' = cm_votedFor cm \<and>
     cm_log cm' = cm_log cm \<and> cm_state cm' = cm_state cm \<and> cm_commitIndex cm' = cm_commitIndex cm \<and>
     cm_nextIndex cm' = cm_nextIndex cm \<and> cm_matchIndex cm' = cm_matchIndex cm \<and> cm_elections cm' = cm_elections cm"
  by (simp add: core_def)

lemma core_leaderSendAEs: "core (leaderSendAEs cm) = core cm"
  by (simp add: leaderSendAEs_def)

lemma core_commitChanSender: "commitChanSender cm = Inr (cm', es) \<Longrightarrow> core cm' = core cm"
  by (auto dest!: commitChanSender_frame simp: core_def)

lemma core_ForwardReply: "handleForwardReply command reply cm = Inr cm' \<Longrightarrow> core cm' = core cm"
  by (auto simp: handleForwardReply_def forwardToLeader_def core_def dest!: signal_frame split: if_splits)

definition submitted_entry :: "Command option \<Rightarrow> 's ConsensusModule \<Rightarrow> 's ConsensusModule" where
  "submitted_entry command cm =
     cm\<lparr>cm_log := cm_log cm @ [\<lparr>le_Command = command, le_Term = cm_currentTerm cm\<rparr>]\<rparr>"

lemma core_Submit:
  assumes "Submit D command cm = Inr (cm', ok)"
  shows "core cm' = core cm \<or> cm_state cm = Leader \<and> core cm' = core (submitted_entry command cm)"
  using assms
  by (auto simp: Submit_def forwardToLeader_def core_def submitted_entry_def dest!: persistToStorage_frame
      split: if_splits)

lemma core_startLeader: "core (startLeader (finished g cm)) = core (startLeader cm)"
  by (simp add: core_def startLeader_def)

lemma core_handleVoteReply:
  "core (handleVoteReply now saved el reply (finished g cm)) = core (handleVoteReply now saved el reply cm)"
  by (auto simp: handleVoteReply_def Let_def core_def startLeader_def)

lemma core_electionTick:
  "core (fst (electionTick now ts to (finished g cm))) = core cm \<or>
   cm_state cm \<in> {Candidate, Follower} \<and>
   core (fst (electionTick now ts to (finished g cm))) = core (startElection now cm)"
  by (auto simp: electionTick_def core_def startElection_def Let_def)

lemma core_after_tick [simp]: "core (after_tick m ts to r) = core (fst r)"
  by (simp add: after_tick_def split: prod.splits)

lemma cm_step_core [consumes 1, case_names vote append submit elect reply lead appended stop restart same]:
  assumes "cm_step D cm l cm'"
  obtains
    (vote) now req reply where "l = L_RequestVote req reply" "RequestVoteHelper D now req cm = Inr (cm', reply)"
  | (append) now req reply where "l = L_AppendEntries req reply" "AppendEntriesHelper D now req cm = Inr (cm', reply)"
  | (submit) command where "cm_state cm = Leader" "core cm' = core (submitted_entry command cm)"
  | (elect) now where "l = L_Tick" "cm_state cm \<in> {Candidate, Follower}" "core cm' = core (startElection now cm)"
  | (reply) now saved el peer reply where "l = L_VoteReply saved el peer reply"
      "core cm' = core (handleVoteReply now saved el reply cm)"
  | (lead) "l = L_StartLeader" "core cm' = core (startLeader cm)"
  | (appended) now saved peer ni n reply where "l = L_AEReply saved peer ni n reply"
      "handleAEReply now saved peer ni n reply (finished (Go_AwaitAE saved peer ni n) cm) = Inr cm'"
  | (stop) "l = L_Stop" "core cm' = core (cm\<lparr>cm_state := Dead\<rparr>)"
  | (restart) "l = L_Restart (cm_currentTerm cm') (cm_votedFor cm') (cm_log cm')" "started cm'"
  | (same) "core cm' = core cm"
  using assms
proof (cases rule: cm_step.cases)
  case (ForwardLeader req reply)
  then show ?thesis using core_Submit that(3,10) by (fastforce simp: ForwardLeaderHelper_def split: if_splits)
next
  case (Tick main ts to now)
  then show ?thesis using core_electionTick [of now ts to _ cm] that(4,10) by auto
next
  case (Trigger)
  then have "core cm' = core cm" by (simp add: core_leaderSendAEs) (simp add: core_def)
  then show ?thesis by (rule that(10))
next
  case (MainLoop now)
  have "core cm' = core cm" unfolding MainLoop(2) by simp (simp add: core_def)
  then show ?thesis by (rule that(10))
next
  case LeaderLoopTriggeredEnd
  have "core cm' = core cm" unfolding LeaderLoopTriggeredEnd(2) by (simp add: core_def)
  then show ?thesis by (rule that(10))
next
  case (Commit entries)
  have "core cm' = core cm" using core_commitChanSender [OF Commit(4)] by (simp add: core_def)
  then show ?thesis by (rule that(10))
next
  case Stopped
  then have "core cm' = core (cm\<lparr>cm_state := Dead\<rparr>)" by (auto simp: Stop_def core_def split: if_splits)
  with Stopped(1) show ?thesis by (rule that(8))
next
  case (SubmitAppends command)
  then have "core cm' = core (submitted_entry command cm)" by (simp add: submitted_entry_def)
  with SubmitAppends(3) show ?thesis by (rule that(3))
next
  case SubmitPersists
  then have "core cm' = core (finished Go_Submitted cm)"
    by (auto simp: core_def simp del: core_finished dest!: persistToStorage_frame)
  then show ?thesis by (intro that(10)) simp
next
  case (Restart open_db)
  show ?thesis by (rule that(9) [OF Restart(1) restart_started(1) [OF Restart(2,3)]])
next
  case (Submitted command ok)
  then show ?thesis using core_Submit [OF Submitted(2)] that(3,10) by blast
next
  case (Applied store)
  then have "core cm' = core cm" by (simp add: core_def)
  then show ?thesis by (rule that(10))
next
  case (ForwardReply command leader reply)
  have "core cm' = core cm" using core_ForwardReply [OF ForwardReply(3)] by simp
  then show ?thesis by (rule that(10))
next
  case (CommitClosed entries)
  then have "core cm' = core cm" by (blast intro: core_commitChanSender)
  then show ?thesis by (rule that(10))
qed (use that in \<open>auto simp: core_leaderSendAEs core_startLeader core_handleVoteReply\<close>)

section \<open>The network\<close>

record 's network =
  net_cm :: "int \<Rightarrow> 's ConsensusModule"
  net_hist :: "int \<Rightarrow> label list"
  net_led :: "(int \<times> int) set"
  net_logs :: "int \<Rightarrow> LogEntry list option"

text \<open>
  What a server handles has its cause: a request was sent to it by another server, a reply was
  given by the called server to a request of this one.
\<close>

fun deliverable :: "(int \<Rightarrow> label list) \<Rightarrow> int \<Rightarrow> label \<Rightarrow> bool" where
  "deliverable hist p (L_RequestVote req reply) =
     (\<exists>q. q \<noteq> p \<and> L_SendVote p req \<in> set (hist q))"
| "deliverable hist p (L_AppendEntries req reply) =
     (\<exists>q. q \<noteq> p \<and> L_SendAE p req \<in> set (hist q))"
| "deliverable hist p (L_VoteReply saved el peer reply) =
     (\<exists>req. L_RequestVote req reply \<in> set (hist peer) \<and> rv_Term req = saved \<and> rv_CandidateId req = p)"
| "deliverable hist p (L_AEReply saved peer ni n reply) =
     (\<exists>req. L_AppendEntries req reply \<in> set (hist peer) \<and> ae_Term req = saved \<and>
        ae_LeaderId req = p \<and> ae_PrevLogIndex req = ni - 1 \<and> length (ae_Entries req) = n)"
| "deliverable hist p _ = True"

text \<open>
  The schedules considered: besides those of \<open>prompt\<close>, a goroutine that has waited for the lock
  finds the server in the role and term it was started in. The code does not check this; what
  it does in other schedules is shown in \<open>Divergence_Properties\<close>.
\<close>

fun timely :: "'s ConsensusModule \<Rightarrow> label \<Rightarrow> bool" where
  "timely cm L_StartLeader = majority (cm_votes cm (cm_elections cm)) cm"
| "timely cm (L_SendAE peer req) = (cm_state cm = Leader \<and> cm_currentTerm cm = ae_Term req)"
| "timely cm (L_AEReply saved peer ni n reply) = (cm_currentTerm cm = saved)"
| "timely cm _ = True"

definition net_after :: "int \<Rightarrow> label \<Rightarrow> 's ConsensusModule \<Rightarrow> 's network \<Rightarrow> 's network" where
  "net_after p l cm N =
     N\<lparr>net_cm := (net_cm N)(p := cm), net_hist := (net_hist N)(p := net_hist N p @ [l]),
       net_led := (if cm_state cm = Leader then insert (p, cm_currentTerm cm) (net_led N) else net_led N),
       net_logs := (if cm_state cm = Leader then (net_logs N)(cm_currentTerm cm \<mapsto> cm_log cm)
                    else net_logs N)\<rparr>"

definition net_step :: "'s deps \<Rightarrow> int set \<Rightarrow> 's network \<Rightarrow> int \<times> label \<Rightarrow> 's network \<Rightarrow> bool" where
  "net_step D ids N pl N' \<longleftrightarrow>
     (case pl of (p, l) \<Rightarrow> p \<in> ids \<and> timely (net_cm N p) l \<and> deliverable (net_hist N) p l \<and>
        (\<exists>cm'. prompt_step D (net_cm N p) l cm' \<and> N' = net_after p l cm' N))"

text \<open>A server as it comes up on empty databases, and the cluster of such servers.\<close>

definition member :: "int set \<Rightarrow> int \<Rightarrow> 's ConsensusModule \<Rightarrow> bool" where
  "member ids p cm \<longleftrightarrow> cm_id cm = p \<and> cluster cm = ids \<and> cluster_ok cm \<and> p \<noteq> -1"

definition fresh_cm :: "'s ConsensusModule \<Rightarrow> bool" where
  "fresh_cm cm \<longleftrightarrow> cm_state cm = Follower \<and> cm_log cm = [] \<and> cm_commitIndex cm = -1 \<and>
     cm_lastApplied cm = -1 \<and> cm_currentTerm cm = 0 \<and> cm_votedFor cm = -1 \<and>
     \<not> cm_newCommitClosed cm \<and> pending Go_MainLoop cm \<and>
     pending Go_CommitChanSender cm \<and> tracked_calls cm = {#}"

definition net_init :: "int set \<Rightarrow> 's network \<Rightarrow> bool" where
  "net_init ids N \<longleftrightarrow>
     (\<forall>p \<in> ids. member ids p (net_cm N p) \<and> fresh_cm (net_cm N p)) \<and>
     (\<forall>p. net_hist N p = []) \<and> net_led N = {} \<and> net_logs N = Map.empty"

inductive reach :: "'s deps \<Rightarrow> int set \<Rightarrow> 's network \<Rightarrow> bool" for D ids where
  reach_init: "net_init ids N \<Longrightarrow> reach D ids N"
| reach_step: "reach D ids N \<Longrightarrow> net_step D ids N pl N' \<Longrightarrow> reach D ids N'"

lemma reach_runs: "runs (net_step D ids) N pls N' \<Longrightarrow> reach D ids N \<Longrightarrow> reach D ids N'"
  by (induction rule: runs.induct) (auto intro: reach_step)

lemma reach_after:
  assumes "reach D ids N" and "p \<in> ids" and "timely (net_cm N p) l" and "deliverable (net_hist N) p l"
    and "prompt_step D (net_cm N p) l cm'"
  shows "reach D ids (net_after p l cm' N)"
  using assms by (auto intro!: reach_step [of D ids N "(p, l)"] simp: net_step_def)

text \<open>Invariants are proved for one step of one server at a time.\<close>

lemma reach_invariant [consumes 1, case_names init step]:
  assumes "reach D ids N" and "\<And>N. net_init ids N \<Longrightarrow> P N"
    and "\<And>N p l cm'. reach D ids N \<Longrightarrow> P N \<Longrightarrow> p \<in> ids \<Longrightarrow> timely (net_cm N p) l \<Longrightarrow>
      deliverable (net_hist N) p l \<Longrightarrow> prompt_step D (net_cm N p) l cm' \<Longrightarrow> P (net_after p l cm' N)"
  shows "P N"
  using assms(1)
proof (induction rule: reach.induct)
  case (reach_step N pl N')
  then show ?case by (auto simp: net_step_def intro: assms(3))
qed (rule assms(2))

lemma net_after_simps [simp]:
  "net_cm (net_after p l cm N) q = (if q = p then cm else net_cm N q)"
  "net_hist (net_after p l cm N) q = (if q = p then net_hist N p @ [l] else net_hist N q)"
  "(q, t) \<in> net_led (net_after p l cm N) \<longleftrightarrow>
     (q, t) \<in> net_led N \<or> cm_state cm = Leader \<and> q = p \<and> t = cm_currentTerm cm"
  "net_logs (net_after p l cm N) t =
     (if cm_state cm = Leader \<and> t = cm_currentTerm cm then Some (cm_log cm) else net_logs N t)"
  by (auto simp: net_after_def)

lemma member_step: "prompt_step D cm l cm' \<Longrightarrow> member ids p cm \<Longrightarrow> member ids p cm'"
  by (auto simp: prompt_step_def member_def cluster_def cluster_ok_def dest: cm_step_identity)

lemma reach_member: "reach D ids N \<Longrightarrow> p \<in> ids \<Longrightarrow> member ids p (net_cm N p)"
  by (induction rule: reach_invariant) (auto simp: net_init_def intro: member_step)

lemma reach_ids:
  assumes "reach D ids N" and "p \<in> ids"
  shows "cm_id (net_cm N p) = p" and "cluster (net_cm N p) = ids" and "cluster_ok (net_cm N p)"
    and "p \<noteq> -1" and "set (cm_peerIds (net_cm N p)) = ids - {p}"
  using reach_member [OF assms] by (auto simp: member_def cluster_def cluster_ok_def)

lemma fresh_self_vote: "member ids p cm \<Longrightarrow> fresh_cm cm \<Longrightarrow> self_vote cm"
  by (simp add: self_vote_def running_def member_def fresh_cm_def)

lemma reach_run:
  assumes "reach D ids N" and "p \<in> ids"
  shows "\<exists>s. self_vote s \<and> runs (prompt_step D) s (net_hist N p) (net_cm N p)"
  using assms
proof (induction rule: reach_invariant)
  case (init N)
  then show ?case by (auto simp: net_init_def intro!: fresh_self_vote exI [of _ "net_cm N p"])
next
  case (step N q l cm')
  then show ?case by (auto intro: runs_snoc)
qed

lemma reach_self_vote: "reach D ids N \<Longrightarrow> p \<in> ids \<Longrightarrow> self_vote (net_cm N p)"
  by (induction rule: reach_invariant) (auto simp: net_init_def intro: fresh_self_vote voter.invar_step)

lemma reach_outside: "reach D ids N \<Longrightarrow> p \<notin> ids \<Longrightarrow> net_hist N p = []"
  by (induction rule: reach_invariant) (auto simp: net_init_def)

end
