(* ===== verification/Raft_Leaders.thy ===== *)
theory Raft_Leaders
  imports Raft_Cluster
begin

text \<open>
  Election safety: in every reachable state of the cluster a term has been led by at most one
  server. The vote counter of a candidate is accounted for by the servers that have granted it
  their vote and the vote calls that are still under way.
\<close>

section \<open>Terms, votes and roles\<close>

lemma net_step_core:
  assumes "prompt_step D cm l cm'"
  obtains
    (vote) now req reply where "l = L_RequestVote req reply" "RequestVoteHelper D now req cm = Inr (cm', reply)"
  | (append) now req reply where "l = L_AppendEntries req reply" "AppendEntriesHelper D now req cm = Inr (cm', reply)"
  | (submit) command where "cm_state cm = Leader" "core cm' = core (submitted_entry command cm)"
  | (elect) now where "l = L_Tick" "core cm' = core (startElection now cm)"
      "cm_currentTerm cm' = cm_currentTerm cm + 1"
  | (reply) now saved el peer reply where "l = L_VoteReply saved el peer reply"
      "core cm' = core (handleVoteReply now saved el reply cm)" "cm_currentTerm cm = saved"
  | (lead) "l = L_StartLeader" "core cm' = core (startLeader cm)" "cm_state cm = Candidate"
  | (appended) now saved peer ni n reply where "l = L_AEReply saved peer ni n reply"
      "handleAEReply now saved peer ni n reply (finished (Go_AwaitAE saved peer ni n) cm) = Inr cm'"
  | (stop) "l = L_Stop" "core cm' = core (cm\<lparr>cm_state := Dead\<rparr>)"
  | (restart) "restarts l" "started cm'" "cm_state cm' = Follower" "cm_currentTerm cm' = cm_currentTerm cm"
      "cm_votedFor cm' = cm_votedFor cm" "cm_log cm' = cm_log cm"
  | (same) "core cm' = core cm"
proof -
  from assms have "cm_step D cm l cm'" and p: "prompt cm l" by (simp_all add: prompt_step_def)
  then show thesis
  proof (cases rule: cm_step_core)
    case (elect now)
    with p have t: "cm_currentTerm cm' = cm_currentTerm cm + 1" by (simp add: core_iff wrap64_succ)
    show thesis by (rule that(4) [OF elect(1,3) t])
  next
    case restart
    show thesis by (rule that(9)) (use restart p in \<open>simp_all add: started_def\<close>)
  qed (use that p in auto)
qed

lemma step_to_leader:
  assumes "prompt_step D cm l cm'" and "cm_state cm' = Leader"
  shows "cm_currentTerm cm' = cm_currentTerm cm" and "cm_state cm = Leader \<or> l = L_StartLeader"
proof -
  from assms(1)
  have "cm_currentTerm cm' = cm_currentTerm cm \<and> (cm_state cm = Leader \<or> l = L_StartLeader)"
    using assms(2)
    by (cases rule: net_step_core)
      (auto simp: AppendEntriesHelper_frame RequestVoteHelper_frame handleVoteReply_vote submitted_entry_def
        core_iff dest!: leaderCommit_frame split: if_splits)
  then show "cm_currentTerm cm' = cm_currentTerm cm" and "cm_state cm = Leader \<or> l = L_StartLeader"
    by simp_all
qed

lemma step_to_candidate:
  assumes "prompt_step D cm l cm'" and "cm_state cm' = Candidate"
  shows "cm_state cm = Candidate \<and> cm_currentTerm cm' = cm_currentTerm cm \<and>
      cm_elections cm' = cm_elections cm \<and> cm_log cm' = cm_log cm \<or>
    cm_elections cm' = Suc (cm_elections cm) \<and> cm_currentTerm cm' = cm_currentTerm cm + 1 \<and>
      cm_log cm' = cm_log cm"
  using assms(1)
proof (cases rule: net_step_core)
  case (append now req reply)
  then have "cm_state cm = Candidate" "\<not> cm_currentTerm cm \<le> ae_Term req"
    using assms(2) AppendEntriesHelper_frame(5) [OF append(2)] by (simp_all split: if_splits)
  with append(2) show ?thesis
    by (auto simp: AppendEntriesHelper_def Let_def dest!: persistToStorage_frame)
next
  case (vote now req reply)
  then show ?thesis using assms(2) RequestVoteHelper_frame(3,6,7) [OF vote(2)]
    RequestVote_quiet [OF vote(2)] by (auto simp: quiet_def split: if_splits)
next
  case (elect now)
  then show ?thesis by (simp add: core_iff startElection_def Let_def)
next
  case (reply now saved el peer reply)
  then show ?thesis using assms(2)
    by (auto simp: core_iff handleVoteReply_def Let_def split: if_splits)
next
  case (appended now saved peer ni n reply)
  then show ?thesis using assms(2) leaderCommit_frame [OF appended(2)] AEReply_quiet [OF appended(2)]
    by (auto simp: quiet_def split: if_splits)
qed (use assms(2) in \<open>auto simp: core_iff submitted_entry_def\<close>)

text \<open>
  While its term lasts, a server that has led it stays leader, or it dies or is restarted; then it
  keeps its vote for itself. Otherwise it has accepted a request of its term.
\<close>

definition has_led :: "'s ConsensusModule \<Rightarrow> bool" where
  "has_led cm \<longleftrightarrow> cm_state cm \<noteq> Candidate \<and> cm_votedFor cm = cm_id cm"

lemma step_from_leader:
  assumes "prompt_step D cm l cm'" and "has_led cm" and "self_vote cm"
    and "cm_currentTerm cm' = cm_currentTerm cm"
  shows "has_led cm' \<or>
    (\<exists>req reply. l = L_AppendEntries req reply \<and> ae_Term req = cm_currentTerm cm \<and> cm_state cm = Leader)"
  using assms(1)
proof (cases rule: net_step_core)
  case (append now req reply)
  then show ?thesis using assms(2,4) AppendEntriesHelper_frame(1,4-6) [OF append(2)]
    by (cases "cm_state cm") (auto simp: has_led_def max_def split: if_splits)
next
  case (vote now req reply)
  have "cm_votedFor cm' = cm_votedFor cm"
    using RequestVoteHelper_vote [OF vote(2)] RequestVoteHelper_frame(6) [OF vote(2)] assms vote(1)
    by (cases "rvr_VoteGranted reply") (auto simp: has_led_def self_vote_def prompt_step_def split: if_splits)
  then show ?thesis using assms(2,4) RequestVoteHelper_frame(1,6,7) [OF vote(2)]
    by (auto simp: has_led_def split: if_splits)
next
  case (appended now saved peer ni n reply)
  then show ?thesis using assms(2,4) leaderCommit_frame [OF appended(2)] by (auto simp: has_led_def split: if_splits)
qed (use assms(1,2,4) in \<open>auto simp: core_iff submitted_entry_def handleVoteReply_vote has_led_def started_def
    prompt_step_def dest!: cm_step_identity\<close>)

context ballot
begin

lemma promise_stands:
  assumes "runs step s ls s'" and "invar s" and "l \<in> set ls" and "casts l = Some (t, c)"
  shows "promised s' t c"
proof -
  have kept: "runs step s1 ks s2 \<Longrightarrow> invar s1 \<Longrightarrow> promised s1 t c \<Longrightarrow> promised s2 t c" for s1 ks s2
    by (induction rule: runs.induct) (auto dest: promise_kept invar_step)
  from assms show ?thesis
    by (induction rule: runs.induct) (auto dest: promise_made invar_step intro: kept)
qed

end

definition granted :: "'s network \<Rightarrow> int \<Rightarrow> int \<Rightarrow> int \<Rightarrow> bool" where
  "granted N q t p \<longleftrightarrow> (\<exists>l \<in> set (net_hist N q). grant l = Some (t, p))"

lemma granted_ids: "reach D ids N \<Longrightarrow> granted N q t p \<Longrightarrow> q \<in> ids"
  using reach_outside by (fastforce simp: granted_def)

lemma granted_voted:
  assumes "reach D ids N" and "granted N q t p"
  shows "voted (net_cm N q) t p"
  using assms reach_run [OF assms(1) granted_ids [OF assms]] voter.promise_stands
  by (metis granted_def)

lemma granted_once:
  assumes "reach D ids N" and "granted N q t p" and "granted N q t p'"
  shows "p = p'"
  using assms reach_run [OF assms(1) granted_ids [OF assms(1,2)]] voter.one_vote_per_term
  by (metis granted_def)

lemma granted_after [simp]:
  "granted (net_after p l cm N) q t c \<longleftrightarrow> granted N q t c \<or> q = p \<and> grant l = Some (t, c)"
  by (auto simp: granted_def)

section \<open>The vote counter\<close>

definition election_ok :: "'s ConsensusModule \<Rightarrow> int \<Rightarrow> nat \<Rightarrow> bool" where
  "election_ok cm saved el \<longleftrightarrow> saved \<le> cm_currentTerm cm \<and> el \<le> cm_elections cm \<and>
     (saved = cm_currentTerm cm \<longrightarrow> el = cm_elections cm)"

fun call_ok :: "'s ConsensusModule \<Rightarrow> goroutine \<Rightarrow> bool" where
  "call_ok cm (Go_RequestVote saved el peer) = election_ok cm saved el"
| "call_ok cm (Go_AwaitVote saved el peer) = election_ok cm saved el"
| "call_ok cm _ = True"

definition calls_ok :: "'s ConsensusModule \<Rightarrow> bool" where
  "calls_ok cm \<longleftrightarrow> (\<forall>g \<in># tracked_calls cm. call_ok cm g)"

lemma call_ok_mono:
  assumes "call_ok cm g" and "cm_currentTerm cm \<le> cm_currentTerm cm'"
    and "cm_elections cm' = cm_elections cm \<or>
      cm_elections cm' = Suc (cm_elections cm) \<and> cm_currentTerm cm < cm_currentTerm cm'"
  shows "call_ok cm' g"
  using assms by (cases g) (auto simp: election_ok_def)

lemma calls_ok_step:
  assumes "prompt_step D cm l cm'" and "calls_ok cm"
  shows "calls_ok cm'"
proof -
  have le: "cm_currentTerm cm \<le> cm_currentTerm cm'" using assms(1) by (rule prompt_step_term)
  have mono: "call_ok cm g \<Longrightarrow> cm_elections cm' = cm_elections cm \<Longrightarrow> call_ok cm' g" for g
    using le by (blast intro: call_ok_mono)
  have "step_calls cm l cm'" and p: "prompt cm l"
    using assms(1) prompt_step_calls by (auto simp: prompt_step_def)
  then show ?thesis
  proof (cases rule: step_calls.cases)
    case 1
    then show ?thesis using assms(2) mono by (auto simp: calls_ok_def quiet_def dest: mset_subset_eqD)
  next
    case 2
    have "cm_currentTerm cm' = cm_currentTerm cm + 1"
      using 2 p by (simp add: starts_election_def wrap64_succ)
    then show ?thesis using 2 assms(2) call_ok_mono [of cm _ cm']
      by (auto simp: calls_ok_def starts_election_def election_ok_def)
  next
    case (3 peer req)
    then obtain saved el q where sends: "Go_RequestVote saved el q \<in># tracked_calls cm"
      "tracked_calls cm' = tracked_calls cm - {#Go_RequestVote saved el q#} + {#Go_AwaitVote saved el q#}"
      "cm_elections cm' = cm_elections cm"
      by (auto simp: sends_vote_def)
    then have "call_ok cm (Go_RequestVote saved el q)" using assms(2) by (simp add: calls_ok_def del: call_ok.simps)
    then have "election_ok cm' saved el" using sends(3) mono by fastforce
    with sends assms(2) mono show ?thesis by (auto simp: calls_ok_def dest: in_diffD)
  next
    case (4 saved el peer reply)
    then show ?thesis using assms(2) mono by (auto simp: calls_ok_def counts_vote_def dest: in_diffD)
  next
    case 5
    then show ?thesis using assms(2) mono by (auto simp: calls_ok_def starts_appends_def)
  next
    case 6
    then show ?thesis by (simp add: calls_ok_def)
  qed
qed

lemma reach_calls_ok: "reach D ids N \<Longrightarrow> p \<in> ids \<Longrightarrow> calls_ok (net_cm N p)"
  by (induction rule: reach_invariant)
    (auto simp: net_init_def fresh_cm_def calls_ok_def [of "net_cm _ _"] intro: calls_ok_step)

lemma vote_calls_none:
  assumes "calls_ok cm" and "cm_elections cm < el"
  shows "vote_calls el q cm = 0"
proof -
  have "\<not> vote_call el q g" if "g \<in># tracked_calls cm" for g
    using assms that by (cases g) (auto simp: calls_ok_def election_ok_def)
  then have "filter_mset (vote_call el q) (tracked_calls cm) = filter_mset (\<lambda>_. False) (tracked_calls cm)"
    by (intro filter_mset_cong) auto
  then show ?thesis by (simp add: vote_calls_def)
qed

lemma vote_calls_quiet: "quiet cm cm' \<Longrightarrow> vote_calls el q cm' \<le> vote_calls el q cm"
  by (simp add: vote_calls_def quiet_def size_mset_mono multiset_filter_mono)

lemma vote_calls_sends:
  assumes "sends_vote cm cm'"
  shows "vote_calls el q cm' = vote_calls el q cm"
proof -
  obtain saved e peer where g: "Go_RequestVote saved e peer \<in># tracked_calls cm"
    and c: "tracked_calls cm' = tracked_calls cm - {#Go_RequestVote saved e peer#} + {#Go_AwaitVote saved e peer#}"
    using assms by (auto simp: sends_vote_def)
  obtain M where "tracked_calls cm = add_mset (Go_RequestVote saved e peer) M"
    using g by (blast dest: multi_member_split)
  with c show ?thesis by (simp add: vote_calls_def)
qed

lemma vote_calls_counts:
  assumes "counts_vote saved el peer cm cm'"
  shows "vote_calls el q cm' = (if q = peer then vote_calls el q cm - 1 else vote_calls el q cm)"
    and "0 < vote_calls el peer cm"
proof -
  obtain M where "tracked_calls cm = add_mset (Go_AwaitVote saved el peer) M"
    using assms by (auto simp: counts_vote_def dest: multi_member_split)
  moreover from this have "tracked_calls cm' = M" using assms by (simp add: counts_vote_def)
  ultimately show "vote_calls el q cm' = (if q = peer then vote_calls el q cm - 1 else vote_calls el q cm)"
    and "0 < vote_calls el peer cm"
    by (simp_all add: vote_calls_def)
qed

lemma vote_calls_starts:
  assumes "starts_election cm cm'" and "calls_ok cm" and "distinct (cm_peerIds cm)"
  shows "vote_calls (cm_elections cm') q cm' = (if q \<in> set (cm_peerIds cm) then 1 else 0)"
proof -
  let ?el = "Suc (cm_elections cm)"
  have "size (filter_mset (vote_call ?el q) (tracked_calls cm)) = 0"
    using vote_calls_none [OF assms(2), of ?el q] by (simp only: vote_calls_def lessI)
  moreover have "size (filter_mset (vote_call ?el q) (image_mset (Go_RequestVote t ?el) (mset ps))) =
      count (mset ps) q" for t ps
    by (induction ps) auto
  ultimately show ?thesis using assms(1,3)
    by (simp only: vote_calls_def starts_election_def filter_union_mset size_union mset_map
        distinct_count_atmost_1)
qed

text \<open>
  The votes of a candidate are its own and those of a set of peers that have granted it; the
  other peers have at most one vote call each.
\<close>

definition tally :: "(int \<Rightarrow> bool) \<Rightarrow> 's ConsensusModule \<Rightarrow> bool" where
  "tally gr cm \<longleftrightarrow> (\<exists>S \<subseteq> set (cm_peerIds cm).
     cm_votes cm (cm_elections cm) = 1 + int (card S) \<and>
     (\<forall>q. vote_calls (cm_elections cm) q cm \<le> (if q \<in> set (cm_peerIds cm) - S then 1 else 0)) \<and>
     (\<forall>q \<in> S. gr q))"

lemma tally_mono: "tally gr cm \<Longrightarrow> (\<And>q. gr q \<Longrightarrow> gr' q) \<Longrightarrow> tally gr' cm"
  unfolding tally_def by blast

lemma tally_same:
  assumes "tally gr cm" and "cm_peerIds cm' = cm_peerIds cm" and "cm_elections cm' = cm_elections cm"
    and "cm_votes cm' = cm_votes cm"
    and "\<And>q. vote_calls (cm_elections cm) q cm' \<le> vote_calls (cm_elections cm) q cm"
  shows "tally gr cm'"
proof -
  obtain S where "S \<subseteq> set (cm_peerIds cm)" "cm_votes cm (cm_elections cm) = 1 + int (card S)"
    and calls: "\<And>q. vote_calls (cm_elections cm) q cm \<le> (if q \<in> set (cm_peerIds cm) - S then 1 else 0)"
    and "\<forall>q \<in> S. gr q"
    using assms(1) by (auto simp: tally_def)
  moreover have "vote_calls (cm_elections cm) q cm' \<le> (if q \<in> set (cm_peerIds cm) - S then 1 else 0)" for q
    using order_trans [OF assms(5) calls] .
  ultimately show ?thesis using assms(2-4) unfolding tally_def by (intro exI [of _ S]) auto
qed

lemma tally_counts:
  assumes "tally gr cm" and "counts_vote saved (cm_elections cm) peer cm cm'"
    and "cm_peerIds cm' = cm_peerIds cm" and "gr peer"
  shows "tally gr cm'"
proof -
  let ?el = "cm_elections cm"
  obtain S where S: "S \<subseteq> set (cm_peerIds cm)" "cm_votes cm ?el = 1 + int (card S)" "\<forall>q \<in> S. gr q"
    and calls: "\<And>q. vote_calls ?el q cm \<le> (if q \<in> set (cm_peerIds cm) - S then 1 else 0)"
    using assms(1) by (auto simp: tally_def)
  note counts = vote_calls_counts [OF assms(2)]
  have peer: "peer \<in> set (cm_peerIds cm) - S" using calls [of peer] counts(2) by (auto split: if_splits)
  have "finite S" using S(1) finite_subset by blast
  with peer have "card (insert peer S) = Suc (card S)" by simp
  moreover have "vote_calls ?el q cm' \<le> (if q \<in> set (cm_peerIds cm) - insert peer S then 1 else 0)" for q
    using calls [of q] counts(1) [of q] by (auto split: if_splits)
  ultimately show ?thesis unfolding tally_def using S peer assms(2-4)
    by (intro exI [of _ "insert peer S"]) (auto simp: counts_vote_def)
qed

lemma tally_step:
  assumes "prompt_step D cm l cm'" and "calls_ok cm" and "cluster_ok cm"
    and "cm_state cm' = Candidate"
    and "cm_state cm = Candidate \<Longrightarrow> tally gr cm"
    and "\<And>q. cm_currentTerm cm' = cm_currentTerm cm \<Longrightarrow> gr q \<Longrightarrow> gr' q"
    and "\<And>el peer reply. l = L_VoteReply (cm_currentTerm cm) el peer reply \<Longrightarrow> rvr_VoteGranted reply \<Longrightarrow>
      rvr_Term reply = cm_currentTerm cm \<Longrightarrow> gr peer"
  shows "tally gr' cm'"
proof -
  have step: "cm_step D cm l cm'" "prompt cm l" using assms(1) by (simp_all add: prompt_step_def)
  have peers: "cm_peerIds cm' = cm_peerIds cm" using cm_step_identity [OF step(1)] by blast
  have same: "cm_state cm = Candidate \<and> cm_currentTerm cm' = cm_currentTerm cm"
    if "cm_elections cm' = cm_elections cm"
    using step_to_candidate [OF assms(1,4)] that by auto
  have keep: "tally gr' cm'" if "cm_elections cm' = cm_elections cm" "cm_votes cm' = cm_votes cm"
      "\<And>q. vote_calls (cm_elections cm) q cm' \<le> vote_calls (cm_elections cm) q cm"
  proof -
    have "tally gr cm" using same [OF that(1)] assms(5) by blast
    then have "tally gr cm'" using peers that by (rule tally_same)
    then show ?thesis using same [OF that(1)] assms(6) by (blast intro: tally_mono)
  qed
  have "step_calls cm l cm'" using step by (rule prompt_step_calls)
  then show ?thesis
  proof (cases rule: step_calls.cases)
    case 1
    then show ?thesis by (intro keep) (auto simp: quiet_def intro: vote_calls_quiet)
  next
    case 2
    have "distinct (cm_peerIds cm)" using assms(3) by (simp add: cluster_ok_def)
    then show ?thesis using vote_calls_starts [OF 2(2) assms(2)] 2 peers
      by (auto simp: tally_def starts_election_def intro!: exI [of _ "{}"])
  next
    case (3 peer req)
    then show ?thesis by (intro keep) (auto simp: vote_calls_sends, auto simp: sends_vote_def)
  next
    case (4 saved el peer reply)
    have el: "el = cm_elections cm"
      using assms(2) 4(2,5) by (fastforce simp: calls_ok_def counts_vote_def election_ok_def)
    have e: "cm_elections cm' = cm_elections cm" using 4(2) by (simp add: counts_vote_def)
    have "gr peer" using assms(7) 4 by blast
    moreover have "tally gr cm" using same [OF e] assms(5) by blast
    ultimately have "tally gr cm'" using tally_counts 4(2) peers el by blast
    then show ?thesis using same [OF e] assms(6) by (blast intro: tally_mono)
  next
    case 5
    have "vote_calls el q cm' = vote_calls el q cm" for el q
      using 5 by (auto simp: starts_appends_def vote_calls_def filter_mset_image_mset)
    with 5 show ?thesis by (intro keep) (auto simp: starts_appends_def)
  next
    case 6
    with assms(4) show ?thesis by simp
  qed
qed

section \<open>Leaders\<close>

lemma granted_reply:
  assumes "deliverable (net_hist N) p (L_VoteReply saved el peer reply)" and "rvr_VoteGranted reply"
  shows "granted N peer saved p"
proof -
  obtain req where "L_RequestVote req reply \<in> set (net_hist N peer)"
    and "rv_Term req = saved" "rv_CandidateId req = p"
    using assms(1) by auto
  with assms(2) show ?thesis unfolding granted_def by (intro bexI [of _ "L_RequestVote req reply"]) auto
qed

lemma reach_tally:
  assumes "reach D ids N" and "p \<in> ids" and "cm_state (net_cm N p) = Candidate"
  shows "tally (\<lambda>q. granted N q (cm_currentTerm (net_cm N p)) p) (net_cm N p)"
  using assms
proof (induction rule: reach_invariant)
  case (init N)
  then show ?case by (auto simp: net_init_def fresh_cm_def)
next
  case (step N q l cm')
  show ?case
  proof (cases "q = p")
    case True
    have "tally (\<lambda>q. granted (net_after p l cm' N) q (cm_currentTerm cm') p) cm'"
    proof (rule tally_step [of D "net_cm N p" l])
      show "prompt_step D (net_cm N p) l cm'" using step.hyps(5) True by simp
      show "calls_ok (net_cm N p)" "cluster_ok (net_cm N p)"
        using step.hyps(1) step.prems(1) by (rule reach_calls_ok, rule reach_ids)
      show "cm_state cm' = Candidate" using step.prems True by simp
      show "cm_state (net_cm N p) = Candidate \<Longrightarrow>
          tally (\<lambda>q. granted N q (cm_currentTerm (net_cm N p)) p) (net_cm N p)"
        using step.IH step.prems(1) by blast
      show "granted N peer (cm_currentTerm (net_cm N p)) p"
        if "l = L_VoteReply (cm_currentTerm (net_cm N p)) el peer reply" "rvr_VoteGranted reply"
        for el peer reply
        using step.hyps(4) True that by (blast intro: granted_reply)
    qed auto
    with True show ?thesis by simp
  next
    case False
    with step show ?thesis by (auto elim: tally_mono)
  qed
qed

lemma reach_leader_led:
  "reach D ids N \<Longrightarrow> p \<in> ids \<Longrightarrow> cm_state (net_cm N p) = Leader \<Longrightarrow>
   (p, cm_currentTerm (net_cm N p)) \<in> net_led N"
  by (induction rule: reach_invariant) (auto simp: net_init_def fresh_cm_def)

lemma reach_led_ids: "reach D ids N \<Longrightarrow> (p, t) \<in> net_led N \<Longrightarrow> p \<in> ids"
  by (induction rule: reach_invariant) (auto simp: net_init_def)

lemma reach_led_term: "reach D ids N \<Longrightarrow> (p, t) \<in> net_led N \<Longrightarrow> t \<le> cm_currentTerm (net_cm N p)"
proof (induction rule: reach_invariant)
  case (step N q l cm')
  then show ?case using prompt_step_term [OF step.hyps(5)] by (auto intro: order_trans)
qed (auto simp: net_init_def)

text \<open>A request for entries comes from a server that has led its term.\<close>

lemma SendAE_label:
  assumes "prompt_step D cm (L_SendAE q req) cm'"
  obtains saved ni where "appendEntries_args saved q cm = Inr (req, ni)" and "ae_Term req = saved"
    and "core cm' = core cm"
  using assms unfolding prompt_step_def
  by (auto elim!: cm_step.cases simp: appendEntries_args_def Let_def split: if_splits)

lemma reach_sent_led:
  assumes "reach D ids N" and "L_SendAE q req \<in> set (net_hist N p)"
  shows "(p, ae_Term req) \<in> net_led N"
  using assms
proof (induction rule: reach_invariant)
  case (step N r l cm')
  show ?case
  proof (cases "L_SendAE q req \<in> set (net_hist N p)")
    case True
    with step.IH show ?thesis by simp
  next
    case False
    with step.prems have "r = p" and l: "l = L_SendAE q req" by (auto split: if_splits)
    moreover have "cm_state (net_cm N p) = Leader" "cm_currentTerm (net_cm N p) = ae_Term req"
      using step.hyps(3) l \<open>r = p\<close> by simp_all
    ultimately show ?thesis using reach_leader_led [OF step.hyps(1)] step.hyps(2) by fastforce
  qed
qed (simp add: net_init_def)

definition backed :: "'s network \<Rightarrow> int \<Rightarrow> int \<Rightarrow> int set \<Rightarrow> bool" where
  "backed N p t A \<longleftrightarrow> is_quorum (net_cm N p) A \<and> (\<forall>q \<in> A. q = p \<or> granted N q t p)"

lemma is_quorum_ids:
  assumes "reach D ids N" and "p \<in> ids" and "q \<in> ids" and "is_quorum (net_cm N p) A"
  shows "is_quorum (net_cm N q) A"
  using assms reach_ids(2,3) [OF assms(1)] by (blast intro: is_quorum_same)

lemma tally_majority:
  assumes "tally gr cm" and "cluster_ok cm" and "majority (cm_votes cm (cm_elections cm)) cm"
  obtains A where "is_quorum cm A" and "\<forall>q \<in> A. q = cm_id cm \<or> gr q"
proof -
  obtain S where S: "S \<subseteq> set (cm_peerIds cm)" "cm_votes cm (cm_elections cm) = 1 + int (card S)" "\<forall>q \<in> S. gr q"
    using assms(1) by (auto simp: tally_def)
  moreover have "finite S" "cm_id cm \<notin> S" using S(1) assms(2) finite_subset by (auto simp: cluster_ok_def)
  ultimately have "is_quorum cm (insert (cm_id cm) S)"
    using assms(2,3) by (auto simp: is_quorum_def cluster_def)
  with S(3) that show thesis by blast
qed

lemma backed_after:
  assumes "backed N p t A" and "prompt_step D (net_cm N q) l cm'"
  shows "backed (net_after q l cm' N) p t A"
  using assms is_quorum_same [of "net_cm N q" A cm'] cm_step_identity [of D "net_cm N q" l cm']
  by (auto simp: backed_def prompt_step_def is_quorum_def cluster_def cluster_ok_def majority_def)

lemma reach_led_backed:
  assumes "reach D ids N" and "(p, t) \<in> net_led N"
  shows "\<exists>A. backed N p t A"
  using assms
proof (induction rule: reach_invariant)
  case (step N q l cm')
  show ?case
  proof (cases "(p, t) \<in> net_led N")
    case True
    with step.IH backed_after [OF _ step.hyps(5)] show ?thesis by blast
  next
    case False
    with step.prems have new: "q = p" "cm_state cm' = Leader" "t = cm_currentTerm cm'" by auto
    with step.hyps(5) have t: "t = cm_currentTerm (net_cm N p)"
      and "cm_state (net_cm N p) = Leader \<or> l = L_StartLeader"
      using step_to_leader by metis+
    with False reach_leader_led [OF step.hyps(1,2)] new(1) have l: "l = L_StartLeader" by auto
    then have "cm_state (net_cm N p) = Candidate" and "majority (cm_votes (net_cm N p) (cm_elections (net_cm N p))) (net_cm N p)"
      using step.hyps(3,5) new(1) by (simp_all add: prompt_step_def)
    moreover have "cluster_ok (net_cm N p)" "cm_id (net_cm N p) = p"
      using reach_ids [OF step.hyps(1,2)] new(1) by simp_all
    ultimately obtain A where "is_quorum (net_cm N p) A" "\<forall>q \<in> A. q = p \<or> granted N q t p"
      using reach_tally [OF step.hyps(1,2)] tally_majority t new(1) by metis
    then have "backed N p t A" by (simp add: backed_def)
    with backed_after [OF _ step.hyps(5)] show ?thesis by blast
  qed
qed (auto simp: net_init_def)

section \<open>Election safety\<close>

text \<open>
  A server that has led a term has voted for nobody else in it, and as long as the term lasts it
  is no candidate and keeps the vote for itself.
\<close>

definition led_ok :: "'s network \<Rightarrow> bool" where
  "led_ok N \<longleftrightarrow> (\<forall>(p, t) \<in> net_led N. (\<forall>c. \<not> granted N p t c) \<and>
     (t = cm_currentTerm (net_cm N p) \<longrightarrow> has_led (net_cm N p)))"

lemma led_unique:
  assumes "reach D ids N" and "led_ok N" and "(p, t) \<in> net_led N" and "(q, t) \<in> net_led N"
  shows "p = q"
proof -
  obtain A B where A: "backed N p t A" and B: "backed N q t B"
    using reach_led_backed [OF assms(1)] assms(3,4) by blast
  have ids: "p \<in> ids" "q \<in> ids" using reach_led_ids [OF assms(1)] assms(3,4) by blast+
  have no: "\<not> granted N p t c" "\<not> granted N q t c" for c
    using assms(2-4) by (auto simp: led_ok_def)
  define backs where "backs r c \<longleftrightarrow> r = c \<or> granted N r t c" for r c
  show ?thesis
  proof (rule majorities.one_winner [of "net_cm N p" A B backs])
    show "is_quorum (net_cm N p) A" using A by (simp add: backed_def)
    show "is_quorum (net_cm N p) B"
      using B is_quorum_ids [OF assms(1) ids(2,1)] by (simp add: backed_def)
    show "backs r p" if "r \<in> A" for r using A that by (auto simp: backed_def backs_def)
    show "backs r q" if "r \<in> B" for r using B that by (auto simp: backed_def backs_def)
    show "p = q" if "backs r p" "backs r q" for r
      using that no granted_once [OF assms(1)] by (auto simp: backs_def)
  qed
qed

lemma grant_in_term:
  assumes "prompt_step D cm l cm'" and "self_vote cm" and "grant l = Some (t, c)"
  shows "cm_currentTerm cm \<le> t \<and> (t = cm_currentTerm cm \<longrightarrow> \<not> has_led cm)"
  using assms(1)
proof (cases rule: prompt_step_cases)
  case (2 now req reply)
  then show ?thesis using RequestVoteHelper_vote(1) [OF 2(2)] RequestVoteHelper_frame(6) [OF 2(2)] assms(2,3)
    by (auto simp: self_vote_def has_led_def split: if_splits)
qed (use assms(3) in simp)

lemma reach_led_ok: "reach D ids N \<Longrightarrow> led_ok N"
proof (induction rule: reach_invariant)
  case (step N q l cm')
  let ?cm = "net_cm N q" and ?N' = "net_after q l cm' N"
  have le: "cm_currentTerm ?cm \<le> cm_currentTerm cm'" using step.hyps(5) by (rule prompt_step_term)
  have sv: "self_vote ?cm" using step.hyps(1,2) by (rule reach_self_vote)
  show ?case unfolding led_ok_def
  proof (intro ballI, clarify)
    fix p t assume pt: "(p, t) \<in> net_led ?N'"
    show "(\<forall>c. \<not> granted ?N' p t c) \<and>
       (t = cm_currentTerm (net_cm ?N' p) \<longrightarrow> has_led (net_cm ?N' p))"
    proof (cases "p = q")
      case False
      with pt step.IH show ?thesis by (auto simp: led_ok_def)
    next
      case pq: True
      show ?thesis
      proof (cases "(p, t) \<in> net_led N")
        case True
        have t: "t \<le> cm_currentTerm ?cm" using reach_led_term [OF step.hyps(1)] True pq by blast
        have old: "\<not> granted N q t c" "t = cm_currentTerm ?cm \<Longrightarrow> has_led ?cm" for c
          using step.IH True pq by (auto simp: led_ok_def)
        have "grant l \<noteq> Some (t, c)" for c
          using grant_in_term [OF step.hyps(5) sv, of t c] t old(2) by auto
        moreover have "has_led cm'" if "t = cm_currentTerm cm'"
        proof (rule ccontr)
          assume no: "\<not> has_led cm'"
          have tc: "t = cm_currentTerm ?cm" using t le that by simp
          with that have same: "cm_currentTerm cm' = cm_currentTerm ?cm" by simp
          obtain req reply where l: "l = L_AppendEntries req reply" "ae_Term req = t"
            using step_from_leader [OF step.hyps(5) old(2) [OF tc] sv same] no tc by auto
          then obtain r where "r \<noteq> q" "L_SendAE q req \<in> set (net_hist N r)"
            using step.hyps(4) by auto
          then have "(r, t) \<in> net_led N" using reach_sent_led [OF step.hyps(1)] l(2) by blast
          with led_unique [OF step.hyps(1) step.IH] True pq \<open>r \<noteq> q\<close> show False by blast
        qed
        ultimately show ?thesis using pq old(1) by simp
      next
        case False
        with pt pq have new: "cm_state cm' = Leader" "t = cm_currentTerm cm'" by auto
        have reach': "reach D ids ?N'" using step.hyps by (rule reach_after)
        have "\<not> granted ?N' p t c" for c
        proof
          assume "granted ?N' p t c"
          then have "voted (net_cm ?N' p) t c" by (rule granted_voted [OF reach'])
          with new pq show False by (simp add: voted_def running_def)
        qed
        moreover have "has_led cm'"
          using reach_self_vote [OF reach' step.hyps(2)] new by (simp add: has_led_def self_vote_def running_def)
        ultimately show ?thesis using new pq by simp
      qed
    qed
  qed
qed (simp add: led_ok_def net_init_def)

theorem one_leader_per_term:
  "reach D ids N \<Longrightarrow> (p, t) \<in> net_led N \<Longrightarrow> (q, t) \<in> net_led N \<Longrightarrow> p = q"
  using led_unique reach_led_ok by blast

end
