(* ===== verification/Raft_Matching.thy ===== *)
theory Raft_Matching
  imports Raft_Leaders
begin

text \<open>
  Log matching in the cluster: every log is made of prefixes of leaders' logs, so two logs that
  have an entry of one term at one position are the same up to it.
\<close>

section \<open>Steps and logs\<close>

lemma step_log [consumes 1, case_names same submit append]:
  assumes "prompt_step D cm l cm'"
  obtains
    (same) "cm_log cm' = cm_log cm"
  | (submit) e where "cm_state cm = Leader" "cm_state cm' = Leader"
      "cm_currentTerm cm' = cm_currentTerm cm" "cm_log cm' = cm_log cm @ [e]"
      "le_Term e = cm_currentTerm cm"
  | (append) now req reply where "l = L_AppendEntries req reply"
      "AppendEntriesHelper D now req cm = Inr (cm', reply)" "aer_Success reply"
      "ae_Term req = cm_currentTerm cm'" "prevLogMatches req (cm_log cm) = Inr True"
      "cm_log cm' = insertEntries (nat (ae_PrevLogIndex req + 1)) (ae_Entries req) (cm_log cm)"
  using assms
proof (cases rule: net_step_core)
  case (vote now req reply)
  with that(1) RequestVoteHelper_frame(3) show ?thesis by blast
next
  case (append now req reply)
  show ?thesis
  proof (cases "aer_Success reply")
    case True
    note log = AppendEntriesHelper_log(1) [OF append(2) True]
    moreover have "ae_Term req = cm_currentTerm cm'"
      using log AppendEntriesHelper_frame(4) [OF append(2)] by simp
    ultimately show ?thesis using that(3) append True by blast
  next
    case False
    with that(1) AppendEntriesHelper_log(2) [OF append(2)] show ?thesis by blast
  qed
next
  case (submit command)
  with that(2) show ?thesis by (simp add: core_iff submitted_entry_def)
next
  case (appended now saved peer ni n reply)
  with that(1) leaderCommit_frame [OF appended(2)] show ?thesis by simp
qed (use that(1) in \<open>simp_all add: core_iff handleVoteReply_frame\<close>)

section \<open>Logs made of leaders' logs\<close>

definition log_led :: "(int \<Rightarrow> LogEntry list option) \<Rightarrow> LogEntry list \<Rightarrow> bool" where
  "log_led logs l \<longleftrightarrow> (\<forall>k < length l. \<exists>lu. logs (le_Term (l ! k)) = Some lu \<and> k < length lu \<and>
     take (Suc k) l = take (Suc k) lu)"

definition log_wf :: "(int \<Rightarrow> LogEntry list option) \<Rightarrow> int \<Rightarrow> LogEntry list \<Rightarrow> bool" where
  "log_wf logs t l \<longleftrightarrow> log_led logs l \<and> sorted (map le_Term l) \<and> (\<forall>e \<in> set l. le_Term e \<le> t)"

text \<open>Leaders' logs only grow, by entries of their term.\<close>

definition logs_grow :: "(int \<Rightarrow> LogEntry list option) \<Rightarrow> (int \<Rightarrow> LogEntry list option) \<Rightarrow> bool" where
  "logs_grow logs logs' \<longleftrightarrow>
     (\<forall>t l. logs t = Some l \<longrightarrow> (\<exists>es. logs' t = Some (l @ es) \<and> (\<forall>e \<in> set es. le_Term e = t)))"

lemma logs_growE:
  assumes "logs_grow logs logs'" and "logs t = Some l"
  obtains l' where "logs' t = Some l'" and "length l \<le> length l'"
    and "\<And>n. n \<le> length l \<Longrightarrow> take n l' = take n l"
    and "\<And>k. length l \<le> k \<Longrightarrow> k < length l' \<Longrightarrow> le_Term (l' ! k) = t"
proof -
  obtain es where es: "logs' t = Some (l @ es)" "\<forall>e \<in> set es. le_Term e = t"
    using assms unfolding logs_grow_def by blast
  show thesis by (rule that [OF es(1)]) (use es(2) in \<open>auto simp: nth_append\<close>)
qed

theorem log_led_matching:
  assumes "log_led logs l" and "log_led logs f"
  shows "log_matching l f"
  unfolding log_matching_def
proof (intro allI impI)
  fix i assume "i < min (length l) (length f)" and "same_term (l ! i) (f ! i)"
  moreover from this obtain lu where "logs (le_Term (l ! i)) = Some lu" "take (Suc i) l = take (Suc i) lu"
    using assms(1) by (auto simp: log_led_def)
  moreover have "\<exists>lu. logs (le_Term (f ! i)) = Some lu \<and> take (Suc i) f = take (Suc i) lu"
    using assms(2) calculation(1) by (auto simp: log_led_def)
  ultimately show "take (Suc i) l = take (Suc i) f" by (auto simp: same_term_def)
qed

lemma log_led_take: "log_led logs l \<Longrightarrow> log_led logs (take n l)"
  by (auto simp: log_led_def min_def)

lemma log_led_grow:
  assumes "log_led logs l" and "logs_grow logs logs'"
  shows "log_led logs' l"
  unfolding log_led_def
proof (intro allI impI)
  fix k assume "k < length l"
  then obtain lu where lu: "logs (le_Term (l ! k)) = Some lu" "k < length lu" "take (Suc k) l = take (Suc k) lu"
    using assms(1) by (auto simp: log_led_def)
  obtain lu' where "logs' (le_Term (l ! k)) = Some lu'" "length lu \<le> length lu'"
    "\<And>n. n \<le> length lu \<Longrightarrow> take n lu' = take n lu"
    using logs_growE [OF assms(2) lu(1)] by metis
  with lu(2,3) show "\<exists>lu. logs' (le_Term (l ! k)) = Some lu \<and> k < length lu \<and> take (Suc k) l = take (Suc k) lu"
    by (intro exI [of _ lu']) auto
qed

lemma log_wf_take: "log_wf logs t l \<Longrightarrow> log_wf logs t (take n l)"
  by (auto simp: log_wf_def log_led_take take_map [symmetric] sorted_wrt_take dest: in_set_takeD)

lemma log_wf_mono: "log_wf logs t l \<Longrightarrow> logs_grow logs logs' \<Longrightarrow> t \<le> t' \<Longrightarrow> log_wf logs' t' l"
  by (auto simp: log_wf_def intro: log_led_grow)

lemma log_wf_Nil [simp]: "log_wf logs t []"
  by (simp add: log_wf_def log_led_def)

text \<open>A leader appends an entry of its own term.\<close>

lemma log_wf_snoc:
  assumes "log_wf logs t l" and "logs t = Some (l @ [e])" and "le_Term e = t"
  shows "log_wf logs t (l @ [e])"
proof -
  have "log_led logs (l @ [e])" unfolding log_led_def
  proof (intro allI impI)
    fix k assume "k < length (l @ [e])"
    then consider "k < length l" | "k = length l" by fastforce
    then show "\<exists>lu. logs (le_Term ((l @ [e]) ! k)) = Some lu \<and> k < length lu \<and>
      take (Suc k) (l @ [e]) = take (Suc k) lu"
    proof cases
      case 1
      with assms(1) show ?thesis by (auto simp: log_wf_def log_led_def nth_append)
    next
      case 2
      with assms(2,3) show ?thesis by simp
    qed
  qed
  with assms(1,3) show ?thesis by (auto simp: log_wf_def sorted_append)
qed

text \<open>
  A merge of a part of a matching log: the log stays as it is or becomes that log, and what the
  two have in common stays.
\<close>

lemma insertEntries_merge:
  assumes match: "log_matching l f" and start: "start \<le> length l" "start \<le> length f"
    and prev: "start = 0 \<or> same_term (l ! (start - 1)) (f ! (start - 1))"
  shows "insertEntries start (drop start l) f = f \<or> insertEntries start (drop start l) f = l"
    and "length l \<le> length (insertEntries start (drop start l) f)"
    and "take (length l) (insertEntries start (drop start l) f) = l"
proof -
  show all: "take (length l) (insertEntries start (drop start l) f) = l"
    by (rule insertEntries_log_matching [OF assms])
  then show "length l \<le> length (insertEntries start (drop start l) f)"
    by (metis length_take min.cobounded1)
  show "insertEntries start (drop start l) f = f \<or> insertEntries start (drop start l) f = l"
  proof (cases rule: insertEntries_cases [of start "drop start l" f])
    case (cut m)
    have "start + m \<le> length f"
    proof (cases m)
      case (Suc k)
      with cut(3) [of k] show ?thesis by simp
    qed (use start in simp)
    with cut(1,2) have "length (insertEntries start (drop start l) f) = length l" by simp
    with all show ?thesis by simp
  qed simp
qed

lemma insertEntries_common:
  assumes "take n f = take n l" and "n \<le> length f" and "start \<le> length f"
  shows "take n (insertEntries start (take m (drop start l)) f) = take n f"
proof (rule insertEntries_keeps)
  fix j assume j: "start + j < n" "j < length (take m (drop start l))"
  then have "f ! (start + j) = l ! (start + j)" using assms(1) by (metis nth_take)
  moreover have "start \<le> length l" using j(2) by (simp, linarith)
  ultimately show "same_term (f ! (start + j)) (take m (drop start l) ! j)"
    using j(2) by (simp add: same_term_def)
qed (use assms in auto)

section \<open>The logs of the cluster\<close>

lemma reach_logs_led: "reach D ids N \<Longrightarrow> net_logs N t \<noteq> None \<longleftrightarrow> (\<exists>p. (p, t) \<in> net_led N)"
  by (induction rule: reach_invariant) (auto simp: net_init_def)

lemma reach_leader_log:
  assumes "reach D ids N" and "p \<in> ids" and "cm_state (net_cm N p) = Leader"
  shows "net_logs N (cm_currentTerm (net_cm N p)) = Some (cm_log (net_cm N p))"
  using assms
proof (induction rule: reach_invariant)
  case (step N q l cm')
  show ?case
  proof (cases "q = p")
    case False
    have "cm_currentTerm (net_cm N p) \<noteq> cm_currentTerm cm'" if "cm_state cm' = Leader"
    proof
      assume eq: "cm_currentTerm (net_cm N p) = cm_currentTerm cm'"
      have "reach D ids (net_after q l cm' N)" using step.hyps by (rule reach_after)
      then have "p = q"
        by (rule one_leader_per_term [of _ _ _ _ "cm_currentTerm cm'"])
          (use reach_leader_led [OF step.hyps(1)] step.prems False that eq in force)+
      with False show False by simp
    qed
    with step False show ?thesis by auto
  qed (use step.prems in auto)
qed (auto simp: net_init_def fresh_cm_def)

text \<open>A term that begins has no leader's log yet.\<close>

lemma reach_new_leader:
  assumes "reach D ids N" and "p \<in> ids" and "timely (net_cm N p) l" and "deliverable (net_hist N) p l"
    and "prompt_step D (net_cm N p) l cm'" and "cm_state cm' = Leader" and "cm_state (net_cm N p) \<noteq> Leader"
  shows "net_logs N (cm_currentTerm cm') = None" and "cm_log cm' = cm_log (net_cm N p)"
    and "cm_state (net_cm N p) = Candidate" and "cm_currentTerm cm' = cm_currentTerm (net_cm N p)"
    and "l = L_StartLeader"
proof -
  show l: "l = L_StartLeader" using step_to_leader [OF assms(5,6)] assms(7) by simp
  then show cand: "cm_state (net_cm N p) = Candidate" using assms(5) by (simp add: prompt_step_def)
  show t: "cm_currentTerm cm' = cm_currentTerm (net_cm N p)" using step_to_leader [OF assms(5,6)] by simp
  show "cm_log cm' = cm_log (net_cm N p)"
    using assms(5) by (cases rule: step_log) (use assms(7) l in auto)
  show "net_logs N (cm_currentTerm cm') = None"
  proof (rule ccontr)
    assume "net_logs N (cm_currentTerm cm') \<noteq> None"
    then obtain q where q: "(q, cm_currentTerm cm') \<in> net_led N" using reach_logs_led [OF assms(1)] by blast
    have "reach D ids (net_after p l cm' N)" using assms(1-5) by (rule reach_after)
    then have "q = p" by (rule one_leader_per_term [of _ _ _ _ "cm_currentTerm cm'"]) (use q assms(6) in auto)
    with q t reach_led_ok [OF assms(1)] cand show False by (auto simp: led_ok_def has_led_def)
  qed
qed

lemma logs_after:
  assumes "reach D ids N" and "p \<in> ids" and "timely (net_cm N p) l" and "deliverable (net_hist N) p l"
    and "prompt_step D (net_cm N p) l cm'"
  shows "logs_grow (net_logs N) (net_logs (net_after p l cm' N))"
proof (cases "cm_state cm' = Leader")
  case True
  have grown: "\<exists>es. cm_log cm' = k @ es \<and> (\<forall>e \<in> set es. le_Term e = cm_currentTerm cm')"
    if k: "net_logs N (cm_currentTerm cm') = Some k" for k
  proof (cases "cm_state (net_cm N p) = Leader")
    case leader: True
    have t: "cm_currentTerm cm' = cm_currentTerm (net_cm N p)" using step_to_leader [OF assms(5) True] by simp
    with k reach_leader_log [OF assms(1,2) leader] have "k = cm_log (net_cm N p)" by simp
    with assms(5) show ?thesis
    proof (cases rule: step_log)
      case (append now req reply)
      then show ?thesis using AppendEntriesHelper_frame(5) [OF append(2)] True append(3)
        AppendEntriesHelper_log(1) [OF append(2)] by simp
    qed (use t in simp_all)
  next
    case False
    with reach_new_leader(1) [OF assms True] k show ?thesis by simp
  qed
  then show ?thesis using True by (auto simp: logs_grow_def)
qed (simp add: logs_grow_def)

section \<open>Requests for entries\<close>

text \<open>A request carries a part of the log of the leader of its term.\<close>

definition request_of_log :: "AppendEntriesRequest \<Rightarrow> LogEntry list \<Rightarrow> bool" where
  "request_of_log req l \<longleftrightarrow> -1 \<le> ae_PrevLogIndex req \<and>
     nat (ae_PrevLogIndex req + 1) + length (ae_Entries req) \<le> length l \<and>
     ae_Entries req = take (length (ae_Entries req)) (drop (nat (ae_PrevLogIndex req + 1)) l) \<and>
     (0 \<le> ae_PrevLogIndex req \<longrightarrow> ae_PrevLogTerm req = le_Term (l ! nat (ae_PrevLogIndex req)))"

definition request_end :: "AppendEntriesRequest \<Rightarrow> nat" where
  "request_end req = nat (ae_PrevLogIndex req + 1) + length (ae_Entries req)"

lemma appendEntries_args_request:
  assumes "appendEntries_args saved p cm = Inr (req, ni)"
  shows "request_of_log req (cm_log cm)" and "ae_Term req = saved" and "ae_LeaderId req = cm_id cm"
    and "ae_LeaderCommit req = cm_commitIndex cm" and "request_end req = length (cm_log cm)"
    and "ae_PrevLogIndex req = ni - 1"
  using assms
  by (auto simp: appendEntries_args_def Let_def go_nth_def go_slice_def request_of_log_def request_end_def
      nat_diff_distrib split: if_splits)

lemma request_of_log_grow:
  assumes "request_of_log req l" and "length l \<le> length l'" and "\<And>n. n \<le> length l \<Longrightarrow> take n l' = take n l"
  shows "request_of_log req l'"
proof -
  have nth: "l' ! i = l ! i" if "i < length l" for i
    using assms(3) [of "Suc i"] that by (metis Suc_leI lessI nth_take)
  let ?s = "nat (ae_PrevLogIndex req + 1)" and ?n = "length (ae_Entries req)"
  have len: "?s + ?n \<le> length l" using assms(1) by (simp add: request_of_log_def)
  then have "take (?s + ?n) l' = take (?s + ?n) l" by (rule assms(3))
  then have "take ?n (drop ?s l') = take ?n (drop ?s l)"
    by (metis add.commute take_drop)
  with assms(1,2) len show ?thesis by (auto simp: request_of_log_def nth)
qed

lemma reach_sent_request:
  assumes "reach D ids N" and "L_SendAE q req \<in> set (net_hist N p)"
  shows "\<exists>l. net_logs N (ae_Term req) = Some l \<and> request_of_log req l \<and> ae_LeaderId req = p"
  using assms
proof (induction rule: reach_invariant)
  case (step N r l cm')
  note grow = logs_after [OF step.hyps]
  show ?case
  proof (cases "L_SendAE q req \<in> set (net_hist N p)")
    case True
    with step.IH obtain k where k: "net_logs N (ae_Term req) = Some k" "request_of_log req k" "ae_LeaderId req = p"
      by blast
    from logs_growE [OF grow k(1)] k(2,3) show ?thesis by (metis request_of_log_grow)
  next
    case False
    with step.prems have r: "r = p" and l: "l = L_SendAE q req" by (auto split: if_splits)
    have lead: "cm_state (net_cm N p) = Leader" "cm_currentTerm (net_cm N p) = ae_Term req"
      using step.hyps(3) l r by simp_all
    obtain saved ni where args: "appendEntries_args saved q (net_cm N p) = Inr (req, ni)"
      using step.hyps(5) l r by (auto elim: SendAE_label)
    have "net_logs N (ae_Term req) = Some (cm_log (net_cm N p))"
      using reach_leader_log [OF step.hyps(1)] step.hyps(2) r lead by metis
    with logs_growE [OF grow this] appendEntries_args_request(1,3) [OF args] request_of_log_grow
      reach_ids(1) [OF step.hyps(1)] step.hyps(2) r
    show ?thesis by metis
  qed
qed (simp add: net_init_def)

section \<open>Log matching\<close>

text \<open>What an accepted request does to the log of the server that accepts it.\<close>

lemma accepted_merge:
  assumes "log_matching l f" and "request_of_log req l" and "prevLogMatches req f = Inr True"
  defines "f' \<equiv> insertEntries (nat (ae_PrevLogIndex req + 1)) (ae_Entries req) f"
  shows "f' = f \<or> f' = take (request_end req) l"
    and "take (request_end req) f' = take (request_end req) l" and "request_end req \<le> length f'"
    and "\<And>n. take n f = take n l \<Longrightarrow> n \<le> length f \<Longrightarrow> take n f' = take n f"
proof -
  let ?s = "nat (ae_PrevLogIndex req + 1)" and ?n = "length (ae_Entries req)"
  let ?l = "take (request_end req) l"
  have len: "?s + ?n \<le> length l" and entries: "ae_Entries req = take ?n (drop ?s l)" and "-1 \<le> ae_PrevLogIndex req"
    using assms(2) by (simp_all add: request_of_log_def)
  have drop: "ae_Entries req = drop ?s ?l" using entries by (simp add: request_end_def drop_take)
  have start: "?s \<le> length ?l" "?s \<le> length f"
    using len prevLogMatches_start(2) [OF assms(3)] by (simp_all add: request_end_def)
  have "?s = 0 \<or> same_term (?l ! (?s - 1)) (f ! (?s - 1))"
  proof (cases "?s = 0")
    case False
    then have "0 \<le> ae_PrevLogIndex req" "nat (ae_PrevLogIndex req) = ?s - 1" by auto
    with assms(2,3) False show ?thesis
      by (auto simp: prevLogMatches_def go_nth_def same_term_def request_of_log_def request_end_def split: if_splits)
  qed simp
  moreover have "log_matching ?l f" using assms(1) by (auto simp: log_matching_def min_absorb1)
  ultimately have merge: "insertEntries ?s (drop ?s ?l) f = f \<or> insertEntries ?s (drop ?s ?l) f = ?l"
      "length ?l \<le> length (insertEntries ?s (drop ?s ?l) f)"
      "take (length ?l) (insertEntries ?s (drop ?s ?l) f) = ?l"
    using insertEntries_merge [of ?l f ?s] start by blast+
  have f': "f' = insertEntries ?s (drop ?s ?l) f" by (simp only: f'_def drop [symmetric])
  have "length ?l = request_end req" using len by (simp add: request_end_def)
  with merge show "f' = f \<or> f' = ?l" "take (request_end req) f' = ?l" "request_end req \<le> length f'"
    by (simp_all add: f')
  show "take n f' = take n f" if "take n f = take n l" "n \<le> length f" for n
    unfolding f'_def by (subst entries) (rule insertEntries_common [OF that start(2)])
qed

definition logs_wf :: "int set \<Rightarrow> 's network \<Rightarrow> bool" where
  "logs_wf ids N \<longleftrightarrow>
     (\<forall>p \<in> ids. log_wf (net_logs N) (cm_currentTerm (net_cm N p)) (cm_log (net_cm N p))) \<and>
     (\<forall>t l. net_logs N t = Some l \<longrightarrow> log_wf (net_logs N) t l)"

lemma step_log_wf:
  assumes "reach D ids N" and "logs_wf ids N" and "p \<in> ids" and "timely (net_cm N p) l"
    and "deliverable (net_hist N) p l" and "prompt_step D (net_cm N p) l cm'"
  shows "log_wf (net_logs (net_after p l cm' N)) (cm_currentTerm cm') (cm_log cm')"
proof -
  let ?logs = "net_logs (net_after p l cm' N)"
  note grow = logs_after [OF assms(1,3-6)]
  have own: "log_wf (net_logs N) (cm_currentTerm (net_cm N p)) (cm_log (net_cm N p))"
    using assms(2,3) by (simp add: logs_wf_def)
  have t: "cm_currentTerm (net_cm N p) \<le> cm_currentTerm cm'" using assms(6) by (rule prompt_step_term)
  have old: "log_wf ?logs (cm_currentTerm cm') (cm_log (net_cm N p))"
    using own grow t by (rule log_wf_mono)
  from assms(6) show ?thesis
  proof (cases rule: step_log)
    case same
    with old show ?thesis by simp
  next
    case (submit e)
    have "?logs (cm_currentTerm cm') = Some (cm_log (net_cm N p) @ [e])"
      using submit(2,4) by simp
    with old submit(3-5) show ?thesis by (simp add: log_wf_snoc)
  next
    case (append now req reply)
    obtain q where "L_SendAE p req \<in> set (net_hist N q)" using assms(5) append(1) by auto
    then obtain k where k: "net_logs N (ae_Term req) = Some k" "request_of_log req k"
      using reach_sent_request [OF assms(1)] by blast
    have wf: "log_wf (net_logs N) (ae_Term req) k" using assms(2) k(1) by (simp add: logs_wf_def)
    then have "log_matching k (cm_log (net_cm N p))"
      using own log_led_matching by (auto simp: log_wf_def)
    from accepted_merge(1) [OF this k(2) append(5)] append(6)
    have "cm_log cm' = cm_log (net_cm N p) \<or> cm_log cm' = take (request_end req) k" by simp
    moreover have "log_wf ?logs (cm_currentTerm cm') (take (request_end req) k)"
      using wf append(4) by (intro log_wf_take log_wf_mono [OF wf grow]) simp
    ultimately show ?thesis using old by auto
  qed
qed

lemma reach_logs_wf: "reach D ids N \<Longrightarrow> logs_wf ids N"
proof (induction rule: reach_invariant)
  case (init N)
  then show ?case by (simp add: logs_wf_def net_init_def fresh_cm_def)
next
  case (step N p l cm')
  let ?N' = "net_after p l cm' N"
  note wf = step_log_wf [OF step.hyps(1) step.IH step.hyps(2-5)] and grow = logs_after [OF step.hyps]
  have "log_wf (net_logs ?N') (cm_currentTerm (net_cm ?N' q)) (cm_log (net_cm ?N' q))" if "q \<in> ids" for q
  proof (cases "q = p")
    case False
    then show ?thesis using step.IH that by (auto simp: logs_wf_def intro: log_wf_mono [OF _ grow])
  qed (use wf in simp)
  moreover have "log_wf (net_logs ?N') t k" if "net_logs ?N' t = Some k" for t k
  proof (cases "cm_state cm' = Leader \<and> t = cm_currentTerm cm'")
    case True
    with wf that show ?thesis by simp
  next
    case False
    with that have "net_logs N t = Some k" by (auto split: if_splits)
    then show ?thesis using step.IH by (auto simp: logs_wf_def intro: log_wf_mono [OF _ grow])
  qed
  ultimately show ?case by (simp only: logs_wf_def) blast
qed

lemma reach_log_wf:
  assumes "reach D ids N"
  shows "p \<in> ids \<Longrightarrow> log_wf (net_logs N) (cm_currentTerm (net_cm N p)) (cm_log (net_cm N p))"
    and "net_logs N t = Some l \<Longrightarrow> log_wf (net_logs N) t l"
  using reach_logs_wf [OF assms] by (auto simp: logs_wf_def)

theorem logs_match:
  assumes "reach D ids N" and "p \<in> ids" and "q \<in> ids"
  shows "log_matching (cm_log (net_cm N p)) (cm_log (net_cm N q))"
proof (rule log_led_matching)
  show "log_led (net_logs N) (cm_log (net_cm N p))" "log_led (net_logs N) (cm_log (net_cm N q))"
    using reach_log_wf(1) [OF assms(1)] assms(2,3) by (simp_all add: log_wf_def)
qed

end
