(* ===== verification/Raft_Completeness.thy ===== *)
theory Raft_Completeness
  imports Raft_Matching
begin

text \<open>
  Leader completeness: what a majority has stored in the term of its leader is in the log of
  every later leader. The argument follows the servers through their terms: a server keeps
  what it has acknowledged as long as the leaders it hears from have it, and votes only for
  candidates whose logs are at least as complete.
\<close>

section \<open>One step of the cluster\<close>

definition net_move :: "'s deps \<Rightarrow> int set \<Rightarrow> 's network \<Rightarrow> int \<Rightarrow> label \<Rightarrow> 's ConsensusModule \<Rightarrow> bool" where
  "net_move D ids N p l cm' \<longleftrightarrow> reach D ids N \<and> p \<in> ids \<and> timely (net_cm N p) l \<and>
     deliverable (net_hist N) p l \<and> prompt_step D (net_cm N p) l cm'"

lemma reach_induct [consumes 1, case_names init step]:
  assumes "reach D ids N" and "\<And>N. net_init ids N \<Longrightarrow> P N"
    and "\<And>N p l cm'. net_move D ids N p l cm' \<Longrightarrow> P N \<Longrightarrow> P (net_after p l cm' N)"
  shows "P N"
  using assms(1) by (induction rule: reach_invariant) (auto intro: assms(2,3) simp: net_move_def)

lemma net_moveD:
  assumes "net_move D ids N p l cm'"
  shows "reach D ids N" and "p \<in> ids" and "timely (net_cm N p) l" and "deliverable (net_hist N) p l"
    and "prompt_step D (net_cm N p) l cm'" and "cm_currentTerm (net_cm N p) \<le> cm_currentTerm cm'"
    and "reach D ids (net_after p l cm' N)"
    and "logs_grow (net_logs N) (net_logs (net_after p l cm' N))"
  using assms reach_after logs_after prompt_step_term by (auto simp: net_move_def)

lemma move_term: "net_move D ids N p l cm' \<Longrightarrow>
  cm_currentTerm (net_cm N q) \<le> cm_currentTerm (net_cm (net_after p l cm' N) q)"
  by (auto dest: net_moveD(6))

lemma reach_term: "reach D ids N \<Longrightarrow> p \<in> ids \<Longrightarrow> 0 \<le> cm_currentTerm (net_cm N p)"
proof (induction rule: reach_induct)
  case (step N q l cm')
  then show ?case using move_term [OF step.hyps, of p] by simp
qed (simp add: net_init_def fresh_cm_def)

lemma reach_led_nonneg: "reach D ids N \<Longrightarrow> (p, t) \<in> net_led N \<Longrightarrow> 0 \<le> t"
proof (induction rule: reach_induct)
  case (step N q l cm')
  then show ?case using reach_term [OF net_moveD(7,2) [OF step.hyps]] by auto
qed (simp add: net_init_def)

section \<open>What a server has acknowledged\<close>

text \<open>
  Server \<open>s\<close> has acknowledged the first \<open>n\<close> entries of the log of term \<open>t\<close>: it has led the
  term, or accepted a request of that term that reaches so far.
\<close>

definition acked :: "'s network \<Rightarrow> int \<Rightarrow> int \<Rightarrow> nat \<Rightarrow> bool" where
  "acked N s t n \<longleftrightarrow> (s, t) \<in> net_led N \<or>
     (\<exists>req reply. L_AppendEntries req reply \<in> set (net_hist N s) \<and> aer_Success reply \<and>
        ae_Term req = t \<and> n \<le> request_end req)"

definition led_log :: "'s network \<Rightarrow> int \<Rightarrow> LogEntry list" where
  "led_log N t = (case net_logs N t of None \<Rightarrow> [] | Some l \<Rightarrow> l)"

text \<open>The first \<open>n\<close> entries of the log of term \<open>t\<close> end with an entry of that term.\<close>

definition own_entry :: "'s network \<Rightarrow> int \<Rightarrow> nat \<Rightarrow> bool" where
  "own_entry N t n \<longleftrightarrow> net_logs N t \<noteq> None \<and> 0 < n \<and> n \<le> length (led_log N t) \<and>
     le_Term (led_log N t ! (n - 1)) = t"

text \<open>They are also in the logs of the leaders between \<open>t\<close> and \<open>u\<close>.\<close>

definition agree_between :: "'s network \<Rightarrow> int \<Rightarrow> nat \<Rightarrow> int \<Rightarrow> bool" where
  "agree_between N t n u \<longleftrightarrow>
     (\<forall>t'. t < t' \<and> t' < u \<and> net_logs N t' \<noteq> None \<longrightarrow> take n (led_log N t') = take n (led_log N t))"

lemma led_log_Some [simp]: "net_logs N t = Some l \<Longrightarrow> led_log N t = l"
  by (simp add: led_log_def)

lemma led_log_after [simp]:
  "led_log (net_after p l cm N) t =
     (if cm_state cm = Leader \<and> t = cm_currentTerm cm then cm_log cm else led_log N t)"
  by (simp add: led_log_def)

lemma led_log_grows:
  assumes "net_move D ids N p l cm'" and "net_logs N t \<noteq> None"
  defines "k' \<equiv> led_log (net_after p l cm' N) t" and "k \<equiv> led_log N t"
  shows "net_logs (net_after p l cm' N) t \<noteq> None" and "length k \<le> length k'"
    and "\<And>n. n \<le> length k \<Longrightarrow> take n k' = take n k"
    and "\<And>i. length k \<le> i \<Longrightarrow> i < length k' \<Longrightarrow> le_Term (k' ! i) = t"
proof -
  obtain j where j: "net_logs N t = Some j" using assms(2) by blast
  obtain j' where "net_logs (net_after p l cm' N) t = Some j'" "length j \<le> length j'"
    "\<And>n. n \<le> length j \<Longrightarrow> take n j' = take n j"
    "\<And>i. length j \<le> i \<Longrightarrow> i < length j' \<Longrightarrow> le_Term (j' ! i) = t"
    using logs_growE [OF net_moveD(8) [OF assms(1)] j] by blast
  with j show "net_logs (net_after p l cm' N) t \<noteq> None" and "length k \<le> length k'"
    and "\<And>n. n \<le> length k \<Longrightarrow> take n k' = take n k"
    and "\<And>i. length k \<le> i \<Longrightarrow> i < length k' \<Longrightarrow> le_Term (k' ! i) = t"
    by (simp_all add: k_def k'_def del: led_log_after net_after_simps)
qed

lemma acked_after:
  "acked (net_after p l cm' N) s t n \<longleftrightarrow> acked N s t n \<or>
     s = p \<and> (cm_state cm' = Leader \<and> t = cm_currentTerm cm' \<or>
       (\<exists>req reply. l = L_AppendEntries req reply \<and> aer_Success reply \<and> ae_Term req = t \<and> n \<le> request_end req))"
  by (auto simp: acked_def)

lemma acked_new_term:
  assumes "net_move D ids N p l cm'" and "acked (net_after p l cm' N) s t n" and "\<not> acked N s t n"
  shows "s = p" and "t = cm_currentTerm cm'"
proof -
  show "s = p" using assms(2,3) by (simp add: acked_after)
  from assms(2,3) consider "t = cm_currentTerm cm'"
    | req reply where "l = L_AppendEntries req reply" "aer_Success reply" "ae_Term req = t"
    by (auto simp: acked_after)
  then show "t = cm_currentTerm cm'"
  proof cases
    case 2
    with net_moveD(5) [OF assms(1)] obtain now where
      run: "AppendEntriesHelper D now req (net_cm N p) = Inr (cm', reply)"
      by (auto simp: prompt_step_def elim: AppendEntries_stepE)
    show ?thesis
      using AppendEntriesHelper_log(1) [OF run] AppendEntriesHelper_frame(4) [OF run] 2 by simp
  qed
qed

lemma acked_term: "reach D ids N \<Longrightarrow> acked N s t n \<Longrightarrow> t \<le> cm_currentTerm (net_cm N s)"
proof (induction rule: reach_induct)
  case (step N p l cm')
  show ?case
  proof (cases "acked N s t n")
    case True
    with step.IH move_term [OF step.hyps, of s] show ?thesis by simp
  next
    case False
    with acked_new_term [OF step.hyps step.prems] show ?thesis by simp
  qed
qed (simp add: acked_def net_init_def)

lemma acked_ids: "reach D ids N \<Longrightarrow> acked N s t n \<Longrightarrow> s \<in> ids"
  using reach_led_ids reach_outside by (fastforce simp: acked_def)

text \<open>An accepted request reaches no farther than the log it is taken from.\<close>

lemma reach_append_cause:
  assumes "reach D ids N" and "L_AppendEntries req reply \<in> set (net_hist N s)"
  shows "\<exists>q. q \<noteq> s \<and> L_SendAE s req \<in> set (net_hist N q)"
  using assms
proof (induction rule: reach_induct)
  case (step N p l cm')
  then show ?case using net_moveD(4) [OF step.hyps] by (fastforce split: if_splits)
qed (simp add: net_init_def)

lemma reach_append_request:
  assumes "reach D ids N" and "L_AppendEntries req reply \<in> set (net_hist N s)"
  shows "net_logs N (ae_Term req) \<noteq> None" and "request_of_log req (led_log N (ae_Term req))"
    and "request_end req \<le> length (led_log N (ae_Term req))"
proof -
  obtain q where "L_SendAE s req \<in> set (net_hist N q)" using reach_append_cause [OF assms] by blast
  then obtain k where "net_logs N (ae_Term req) = Some k" "request_of_log req k"
    using reach_sent_request [OF assms(1)] by blast
  then show "net_logs N (ae_Term req) \<noteq> None" and "request_of_log req (led_log N (ae_Term req))"
    and "request_end req \<le> length (led_log N (ae_Term req))"
    by (auto simp: request_of_log_def request_end_def)
qed

section \<open>Looking back one step\<close>

lemma own_entry_nth:
  assumes "own_entry N t n" and "take n l = take n (led_log N t)"
  shows "n \<le> length l" and "le_Term (l ! (n - 1)) = t"
proof -
  have n: "0 < n" "n \<le> length (led_log N t)" "le_Term (led_log N t ! (n - 1)) = t"
    using assms(1) by (simp_all add: own_entry_def)
  show "n \<le> length l" using assms(2) n(2) by (metis length_take min.absorb2 min.cobounded1)
  show "le_Term (l ! (n - 1)) = t"
    using assms(2) n(1,3) by (metis diff_less nth_take zero_less_one)
qed

text \<open>An entry that was acknowledged before the step was there before the step, unless the step
  is the leader's own.\<close>

lemma own_entry_before:
  assumes "net_move D ids N p l cm'" and "own_entry (net_after p l cm' N) t n" and "acked N s t n"
  shows "own_entry N t n \<or> s = p \<and> cm_state cm' = Leader \<and> t = cm_currentTerm cm'"
proof (cases "cm_state cm' = Leader \<and> t = cm_currentTerm cm'")
  case False
  with assms(2) show ?thesis by (auto simp: own_entry_def)
next
  case True
  note r = net_moveD(1,7) [OF assms(1)]
  show ?thesis
  proof (cases "(s, t) \<in> net_led N")
    case led: True
    then have "(s, t) \<in> net_led (net_after p l cm' N)" "(p, t) \<in> net_led (net_after p l cm' N)"
      using True by auto
    then show ?thesis using one_leader_per_term [OF r(2)] True by blast
  next
    case False
    then obtain req reply where req: "L_AppendEntries req reply \<in> set (net_hist N s)" "ae_Term req = t"
      "n \<le> request_end req"
      using assms(3) by (auto simp: acked_def)
    note k = reach_append_request [OF r(1) req(1), unfolded req(2)]
    have n: "0 < n" "n \<le> length (led_log N t)" using assms(2) req(3) k(3) by (auto simp: own_entry_def)
    then have "take n (led_log (net_after p l cm' N) t) = take n (led_log N t)"
      by (intro led_log_grows(3) [OF assms(1) k(1)])
    with own_entry_nth(2) [OF assms(2), of "led_log N t"] n k(1) show ?thesis
      by (simp add: own_entry_def)
  qed
qed

lemma own_entry_after:
  assumes "net_move D ids N p l cm'" and "own_entry N t n"
  shows "own_entry (net_after p l cm' N) t n"
    and "take n (led_log (net_after p l cm' N) t) = take n (led_log N t)"
proof -
  have k: "net_logs N t \<noteq> None" and n: "n \<le> length (led_log N t)" "0 < n"
    using assms(2) by (auto simp: own_entry_def)
  note grows = led_log_grows [OF assms(1) k]
  show same: "take n (led_log (net_after p l cm' N) t) = take n (led_log N t)"
    by (rule grows(3)) (rule n(1))
  show "own_entry (net_after p l cm' N) t n"
    unfolding own_entry_def using grows(1,2) n own_entry_nth(2) [OF assms(2) same] by (auto intro: order_trans)
qed

lemma agree_between_before:
  assumes "net_move D ids N p l cm'" and "own_entry N t n" and "agree_between (net_after p l cm' N) t n u"
  shows "agree_between N t n u"
  unfolding agree_between_def
proof (intro allI impI)
  fix t' assume t': "t < t' \<and> t' < u \<and> net_logs N t' \<noteq> None"
  let ?N' = "net_after p l cm' N"
  note grows = led_log_grows [OF assms(1), of t']
  have "take n (led_log ?N' t') = take n (led_log ?N' t)"
    using assms(3) t' grows(1) by (simp add: agree_between_def del: led_log_after net_after_simps)
  then have eq: "take n (led_log ?N' t') = take n (led_log N t)"
    using own_entry_after(2) [OF assms(1,2)] by simp
  have "n \<le> length (led_log N t')"
  proof (rule ccontr)
    assume short: "\<not> n \<le> length (led_log N t')"
    have "le_Term (led_log ?N' t' ! (n - 1)) = t'"
      using short own_entry_nth(1) [OF assms(2) eq] assms(2) t' by (intro grows(4)) (auto simp: own_entry_def)
    with own_entry_nth(2) [OF assms(2) eq] t' show False by simp
  qed
  then have "take n (led_log ?N' t') = take n (led_log N t')" using t' by (intro grows(3)) auto
  with eq show "take n (led_log N t') = take n (led_log N t)" by simp
qed

lemma agree_between_mono: "agree_between N t n u \<Longrightarrow> u' \<le> u \<Longrightarrow> agree_between N t n u'"
  by (auto simp: agree_between_def)

lemma agree_between_none: "agree_between N t n u \<Longrightarrow> net_logs N u = None \<Longrightarrow> agree_between N t n (u + 1)"
  unfolding agree_between_def by (metis zless_add1_eq)

section \<open>Acknowledged entries are kept\<close>

lemma take_le_length: "take n l = take n k \<Longrightarrow> n \<le> length k \<Longrightarrow> n \<le> length l"
  by (metis length_take min.absorb2 min.cobounded1)

text \<open>What an accepted request of term \<open>u\<close> does to a log that shares \<open>n\<close> entries with the log of \<open>u\<close>.\<close>

lemma step_log_accepted:
  assumes "net_move D ids N p l cm'" and "l = L_AppendEntries req reply"
    and "prevLogMatches req (cm_log (net_cm N p)) = Inr True"
    and "cm_log cm' = insertEntries (nat (ae_PrevLogIndex req + 1)) (ae_Entries req) (cm_log (net_cm N p))"
  shows "take (request_end req) (cm_log cm') = take (request_end req) (led_log N (ae_Term req))"
    and "take n (cm_log (net_cm N p)) = take n (led_log N (ae_Term req)) \<Longrightarrow> n \<le> length (cm_log (net_cm N p)) \<Longrightarrow>
      take n (cm_log cm') = take n (led_log N (ae_Term req))"
    and "net_logs N (ae_Term req) \<noteq> None" and "request_end req \<le> length (led_log N (ae_Term req))"
proof -
  note r = net_moveD(1) [OF assms(1)]
  obtain q where "L_SendAE p req \<in> set (net_hist N q)" using net_moveD(4) [OF assms(1)] assms(2) by auto
  then obtain k where k: "net_logs N (ae_Term req) = Some k" "request_of_log req k"
    using reach_sent_request [OF r] by blast
  then show "net_logs N (ae_Term req) \<noteq> None" and "request_end req \<le> length (led_log N (ae_Term req))"
    by (auto simp: request_of_log_def request_end_def)
  have "log_led (net_logs N) k" "log_led (net_logs N) (cm_log (net_cm N p))"
    using reach_log_wf(2) [OF r k(1)] reach_log_wf(1) [OF r net_moveD(2) [OF assms(1)]]
    by (simp_all add: log_wf_def)
  then have "log_matching k (cm_log (net_cm N p))" by (rule log_led_matching)
  note merge = accepted_merge [OF this k(2) assms(3)]
  show "take (request_end req) (cm_log cm') = take (request_end req) (led_log N (ae_Term req))"
    using merge(2) assms(4) k(1) by simp
  show "take n (cm_log cm') = take n (led_log N (ae_Term req))"
    if "take n (cm_log (net_cm N p)) = take n (led_log N (ae_Term req))" "n \<le> length (cm_log (net_cm N p))"
    using merge(4) [of n] that assms(4) k(1) by simp
qed

lemma step_keeps:
  assumes "net_move D ids N p l cm'" and "own_entry N t n" and "t \<le> cm_currentTerm (net_cm N p)"
    and "take n (cm_log (net_cm N p)) = take n (led_log N t)"
    and "agree_between N t n (cm_currentTerm cm' + 1)"
  shows "take n (cm_log cm') = take n (led_log N t)"
  using net_moveD(5) [OF assms(1)]
proof (cases rule: step_log)
  case same
  with assms(4) show ?thesis by simp
next
  case (submit e)
  with assms(4) own_entry_nth(1) [OF assms(2,4)] show ?thesis by simp
next
  case (append now req reply)
  note acc = step_log_accepted [OF assms(1) append(1,5,6)]
  have "t \<le> ae_Term req" using append(4) assms(3) net_moveD(6) [OF assms(1)] by simp
  then have "take n (led_log N (ae_Term req)) = take n (led_log N t)"
    using assms(5) append(4) acc(3) by (cases "t = ae_Term req") (auto simp: agree_between_def)
  with acc(2) [of n] assms(4) own_entry_nth(1) [OF assms(2,4)] show ?thesis by simp
qed

theorem acknowledged_kept:
  assumes "reach D ids N" and "acked N s t n" and "own_entry N t n"
    and "agree_between N t n (cm_currentTerm (net_cm N s) + 1)"
  shows "take n (cm_log (net_cm N s)) = take n (led_log N t)"
  using assms
proof (induction rule: reach_induct)
  case (step N p l cm')
  let ?N' = "net_after p l cm' N"
  note r = net_moveD(1,7) [OF step.hyps]
  show ?case
  proof (cases "acked N s t n")
    case True
    show ?thesis
    proof (cases "own_entry N t n")
      case own: True
      have same: "take n (led_log ?N' t) = take n (led_log N t)" using step.hyps own by (rule own_entry_after)
      have agree: "agree_between N t n (cm_currentTerm (net_cm ?N' s) + 1)"
        using step.hyps own step.prems(3) by (rule agree_between_before)
      then have "agree_between N t n (cm_currentTerm (net_cm N s) + 1)"
        by (rule agree_between_mono) (use move_term [OF step.hyps, of s] in simp)
      then have old: "take n (cm_log (net_cm N s)) = take n (led_log N t)" using step.IH True own by blast
      have "take n (cm_log (net_cm ?N' s)) = take n (led_log N t)"
      proof (cases "s = p")
        case True
        with step_keeps [OF step.hyps own] acked_term [OF r(1) \<open>acked N s t n\<close>] old agree show ?thesis by simp
      qed (use old in simp)
      with same show ?thesis by simp
    next
      case False
      with own_entry_before [OF step.hyps step.prems(2) True] show ?thesis by simp
    qed
  next
    case False
    with step.prems(1) consider "s = p" "cm_state cm' = Leader" "t = cm_currentTerm cm'"
      | req reply where "s = p" "l = L_AppendEntries req reply" "aer_Success reply" "ae_Term req = t"
        "n \<le> request_end req"
      by (auto simp: acked_after)
    then show ?thesis
    proof cases
      case 1
      then show ?thesis by simp
    next
      case 2
      from net_moveD(5) [OF step.hyps] obtain now where
        run: "AppendEntriesHelper D now req (net_cm N p) = Inr (cm', reply)"
        using 2(2) by (auto simp: prompt_step_def elim: AppendEntries_stepE)
      note log = AppendEntriesHelper_log(1) [OF run 2(3)]
      have f: "cm_state cm' \<noteq> Leader" using AppendEntriesHelper_frame(5) [OF run] log by simp
      note acc = step_log_accepted [OF step.hyps 2(2)]
      have "take (request_end req) (cm_log cm') = take (request_end req) (led_log N t)"
        using acc(1) log 2(4) by blast
      then have "take n (cm_log cm') = take n (led_log N t)" using 2(5) by (metis min.absorb1 take_take)
      with f 2(1) show ?thesis by simp
    qed
  qed
qed (simp add: own_entry_def net_init_def)

section \<open>Vote requests\<close>

lemma reach_vote_cause:
  assumes "reach D ids N" and "L_RequestVote req reply \<in> set (net_hist N s)"
  shows "\<exists>q. q \<noteq> s \<and> L_SendVote s req \<in> set (net_hist N q)"
  using assms
proof (induction rule: reach_induct)
  case (step N p l cm')
  then show ?case using net_moveD(4) [OF step.hyps] by (fastforce split: if_splits)
qed (simp add: net_init_def)

lemma SendVote_label:
  assumes "net_move D ids N p (L_SendVote q req) cm'"
  shows "rv_CandidateId req = p" and "rv_Term req \<le> cm_currentTerm (net_cm N p)"
    and "(rv_LastLogIndex req, rv_LastLogTerm req) = lastLogIndexAndTerm (net_cm N p)"
    and "core cm' = core (net_cm N p)"
proof -
  note r = net_moveD(1,2) [OF assms]
  from net_moveD(5) [OF assms] obtain saved el where g: "pending (Go_RequestVote saved el q) (net_cm N p)"
    and req: "req = requestVote_args saved (net_cm N p)" and "core cm' = core (net_cm N p)"
    by (auto simp: prompt_step_def elim!: cm_step.cases)
  then show "core cm' = core (net_cm N p)" by blast
  show "rv_CandidateId req = p"
    and "(rv_LastLogIndex req, rv_LastLogTerm req) = lastLogIndexAndTerm (net_cm N p)"
    using req reach_ids(1) [OF r] by (simp_all add: requestVote_args_def)
  have "Go_RequestVote saved el q \<in># tracked_calls (net_cm N p)" using g by (simp add: pending_tracked)
  then have "saved \<le> cm_currentTerm (net_cm N p)"
    using reach_calls_ok [OF r] by (fastforce simp: calls_ok_def election_ok_def)
  with req show "rv_Term req \<le> cm_currentTerm (net_cm N p)" by (simp add: requestVote_args_def)
qed

lemma reach_sent_vote:
  assumes "reach D ids N" and "L_SendVote q req \<in> set (net_hist N p)"
  shows "rv_CandidateId req = p \<and> rv_Term req \<le> cm_currentTerm (net_cm N p) \<and>
    (cm_state (net_cm N p) = Candidate \<and> rv_Term req = cm_currentTerm (net_cm N p) \<longrightarrow>
      (rv_LastLogIndex req, rv_LastLogTerm req) = lastLogIndexAndTerm (net_cm N p))"
  using assms
proof (induction rule: reach_induct)
  case (step N r l cm')
  show ?case
  proof (cases "L_SendVote q req \<in> set (net_hist N p)")
    case old: True
    note IH = step.IH [OF old]
    show ?thesis
    proof (cases "r = p")
      case True
      note move = net_moveD(5,6) [OF step.hyps, unfolded True]
      have "lastLogIndexAndTerm cm' = lastLogIndexAndTerm (net_cm N p) \<and> cm_state (net_cm N p) = Candidate \<and>
          rv_Term req = cm_currentTerm (net_cm N p)"
        if "cm_state cm' = Candidate" "rv_Term req = cm_currentTerm cm'"
        using step_to_candidate [OF move(1) that(1)] that(2) IH by (auto simp: lastLogIndexAndTerm_def Let_def)
      with IH move(2) True show ?thesis by auto
    qed (use IH in simp)
  next
    case False
    with step.prems have r: "r = p" and l: "l = L_SendVote q req" by (auto split: if_splits)
    note send = SendVote_label [OF step.hyps [unfolded l r]]
    then have "lastLogIndexAndTerm cm' = lastLogIndexAndTerm (net_cm N p)"
      by (simp add: core_iff lastLogIndexAndTerm_def)
    with send r show ?thesis by (simp add: core_iff)
  qed
qed (simp add: net_init_def)

text \<open>The log of a vote request goes at least as far as the first \<open>n\<close> entries of the log of term \<open>t\<close>.\<close>

definition reaches :: "int \<Rightarrow> nat \<Rightarrow> int \<times> int \<Rightarrow> bool" where
  "reaches t n e \<longleftrightarrow> t < snd e \<or> t = snd e \<and> int n \<le> fst e + 1"

lemma reaches_own:
  assumes "own_entry N t n" and "take n (cm_log cm) = take n (led_log N t)" and "sorted (map le_Term (cm_log cm))"
  shows "reaches t n (lastLogIndexAndTerm cm)"
proof -
  have n: "0 < n" "n \<le> length (cm_log cm)" "le_Term (cm_log cm ! (n - 1)) = t"
    using own_entry_nth [OF assms(1,2)] assms(1) by (simp_all add: own_entry_def)
  then have "le_Term (cm_log cm ! (n - 1)) \<le> le_Term (cm_log cm ! (length (cm_log cm) - 1))"
    using sorted_nth_mono [OF assms(3), of "n - 1" "length (cm_log cm) - 1"] by simp
  with n show ?thesis by (auto simp: reaches_def lastLogIndexAndTerm_def Let_def)
qed

lemma reaches_vote:
  assumes "vote_cond req cm" and "reaches t n (lastLogIndexAndTerm cm)"
  shows "reaches t n (rv_LastLogIndex req, rv_LastLogTerm req)"
  using assms by (auto simp: vote_cond_def reaches_def split: prod.splits)

text \<open>A vote given before the term has a leader is given to a log that has all the voter acknowledged.\<close>

theorem vote_reaches:
  assumes "reach D ids N" and "L_RequestVote req reply \<in> set (net_hist N s)" and "rvr_VoteGranted reply"
    and "net_logs N (rv_Term req) = None"
    and "t < rv_Term req" and "acked N s t n" and "own_entry N t n" and "agree_between N t n (rv_Term req)"
  shows "reaches t n (rv_LastLogIndex req, rv_LastLogTerm req)"
  using assms
proof (induction rule: reach_induct)
  case (step N p l cm')
  let ?N' = "net_after p l cm' N"
  note r = net_moveD(1,7) [OF step.hyps]
  have none: "net_logs N (rv_Term req) = None"
    using led_log_grows(1) [OF step.hyps, of "rv_Term req"] step.prems(3) by blast
  have granted: "granted ?N' s (rv_Term req) (rv_CandidateId req)"
    unfolding granted_def using step.prems(1,2) by (intro bexI [of _ "L_RequestVote req reply"]) simp_all
  have le: "rv_Term req \<le> cm_currentTerm (net_cm ?N' s)"
    using granted_voted [OF r(2) granted] by (auto simp: voted_def)
  have old: "acked N s t n"
  proof (rule ccontr)
    assume "\<not> acked N s t n"
    from acked_new_term [OF step.hyps step.prems(5) this] le step.prems(4) show False by simp
  qed
  have own: "own_entry N t n"
    using own_entry_before [OF step.hyps step.prems(6) old] le step.prems(4) by auto
  have agree: "agree_between N t n (rv_Term req)"
    using step.hyps own step.prems(7) by (rule agree_between_before)
  show ?case
  proof (cases "L_RequestVote req reply \<in> set (net_hist N s)")
    case True
    with step.IH step.prems none old own agree show ?thesis by blast
  next
    case False
    with step.prems(1) have s: "s = p" and l: "l = L_RequestVote req reply" by (auto split: if_splits)
    let ?cm = "net_cm N p"
    obtain now where run: "RequestVoteHelper D now req ?cm = Inr (cm', reply)"
      using net_moveD(5) [OF step.hyps] l by (auto simp: prompt_step_def elim: RequestVote_stepE)
    have le': "cm_currentTerm ?cm \<le> rv_Term req"
      using RequestVoteHelper_vote(1) [OF run step.prems(2)] RequestVote_term [OF run] by simp
    have "agree_between N t n (cm_currentTerm ?cm + 1)"
      using agree_between_none [OF agree none] by (rule agree_between_mono) (use le' in simp)
    then have "take n (cm_log ?cm) = take n (led_log N t)"
      using acknowledged_kept [OF r(1)] old own s by blast
    moreover have "sorted (map le_Term (cm_log ?cm))"
      using reach_log_wf(1) [OF r(1) net_moveD(2) [OF step.hyps]] by (simp add: log_wf_def)
    ultimately have reach: "reaches t n (lastLogIndexAndTerm ?cm)" by (rule reaches_own [OF own])
    have alive: "cm_state ?cm \<noteq> Dead" using RequestVoteHelper_vote(1) [OF run step.prems(2)] by blast
    obtain cm1 where "cm1 = (if rv_Term req > cm_currentTerm ?cm then becomeFollower now (rv_Term req) ?cm else ?cm)"
      and "rvr_VoteGranted reply = vote_cond req cm1"
      using run alive by (rule RequestVoteHelper_Inr) blast
    moreover from this have "lastLogIndexAndTerm cm1 = lastLogIndexAndTerm ?cm"
      by (simp add: lastLogIndexAndTerm_def)
    ultimately show ?thesis using reaches_vote step.prems(2) reach by metis
  qed
qed (simp add: net_init_def)

section \<open>Leader completeness\<close>

text \<open>A candidate whose last entry reaches that far has the entries.\<close>

lemma reaches_complete:
  assumes "reach D ids N" and "p \<in> ids" and "net_logs N (cm_currentTerm (net_cm N p)) = None"
    and "own_entry N t n" and "agree_between N t n (cm_currentTerm (net_cm N p))"
    and "reaches t n (lastLogIndexAndTerm (net_cm N p))"
  shows "take n (cm_log (net_cm N p)) = take n (led_log N t)"
proof -
  let ?l = "cm_log (net_cm N p)" and ?T = "cm_currentTerm (net_cm N p)"
  have wf: "log_wf (net_logs N) ?T ?l" using reach_log_wf(1) [OF assms(1,2)] .
  have k: "net_logs N t \<noteq> None" and n: "0 < n" using assms(4) by (auto simp: own_entry_def)
  have t0: "0 \<le> t" using k reach_logs_led [OF assms(1)] reach_led_nonneg [OF assms(1)] by blast
  have ne: "?l \<noteq> []" using assms(6) t0 n by (auto simp: reaches_def lastLogIndexAndTerm_def)
  define i u where "i = length ?l - 1" and "u = le_Term (?l ! i)"
  have i: "i < length ?l" "length ?l = Suc i" using ne by (simp_all add: i_def)
  have r: "t < u \<or> t = u \<and> n \<le> Suc i"
    using assms(6) ne i(2) by (auto simp: reaches_def lastLogIndexAndTerm_def Let_def u_def i_def [symmetric])
  obtain lu where lu: "net_logs N u = Some lu" "i < length lu" "take (Suc i) ?l = take (Suc i) lu"
    using wf i(1) unfolding log_wf_def log_led_def u_def by blast
  show ?thesis
  proof (cases "t = u")
    case True
    then have "n \<le> Suc i" using r by simp
    with lu(3) True lu(1) show ?thesis by (metis led_log_Some min.absorb1 take_take)
  next
    case False
    then have u: "t < u" using r by simp
    have "u \<le> ?T" using wf i(1) by (simp add: log_wf_def u_def)
    with lu(1) assms(3) have "u < ?T" by (cases "u = ?T") auto
    with u assms(5) lu(1) have eq: "take n lu = take n (led_log N t)"
      unfolding agree_between_def by (metis led_log_Some option.distinct(1))
    have "n \<le> Suc i"
    proof (rule ccontr)
      assume "\<not> n \<le> Suc i"
      then have "i \<le> n - 1" "n - 1 < length lu" using own_entry_nth(1) [OF assms(4) eq] n by auto
      moreover have "sorted (map le_Term lu)" using reach_log_wf(2) [OF assms(1) lu(1)] by (simp add: log_wf_def)
      ultimately have "le_Term (lu ! i) \<le> le_Term (lu ! (n - 1))"
        using sorted_nth_mono [of "map le_Term lu" i "n - 1"] by simp
      moreover have "lu ! i = ?l ! i" using lu(3) by (metis lessI nth_take)
      ultimately show False using own_entry_nth(2) [OF assms(4) eq] u by (simp add: u_def)
    qed
    then have "take n ?l = take n lu" using lu(3) by (metis min.absorb1 take_take)
    with eq show ?thesis by simp
  qed
qed

definition electors :: "'s network \<Rightarrow> int \<Rightarrow> int \<Rightarrow> int set \<Rightarrow> bool" where
  "electors N c u A \<longleftrightarrow> is_quorum (net_cm N c) A \<and>
     (\<forall>s \<in> A. u \<le> cm_currentTerm (net_cm N s) \<and>
       (\<forall>t n. t < u \<and> acked N s t n \<and> own_entry N t n \<and> agree_between N t n u \<longrightarrow>
          take n (led_log N u) = take n (led_log N t)))"

lemma is_quorum_after:
  assumes "net_move D ids N p l cm'" and "is_quorum (net_cm N c) A"
  shows "is_quorum (net_cm (net_after p l cm' N) c) A"
proof (cases "c = p")
  case True
  have "cm_id cm' = cm_id (net_cm N p)" "cm_peerIds cm' = cm_peerIds (net_cm N p)"
    using net_moveD(5) [OF assms(1)] cm_step_identity by (auto simp: prompt_step_def)
  with assms(2) True show ?thesis
    by (auto simp: is_quorum_def cluster_def cluster_ok_def majority_def)
qed (use assms(2) in simp)

lemma electors_after:
  assumes "net_move D ids N p l cm'" and "electors N c u A" and "net_logs N u \<noteq> None"
  shows "electors (net_after p l cm' N) c u A"
proof -
  let ?N' = "net_after p l cm' N"
  have "take n (led_log ?N' u) = take n (led_log ?N' t)"
    if s: "s \<in> A" and t: "t < u" and ack: "acked ?N' s t n" and own: "own_entry ?N' t n"
      and agree: "agree_between ?N' t n u" for s t n
  proof -
    have le: "u \<le> cm_currentTerm (net_cm N s)" using assms(2) s by (simp add: electors_def)
    have new: "t \<noteq> cm_currentTerm cm'" if "s = p" using le t net_moveD(6) [OF assms(1)] that by auto
    have old: "acked N s t n" using acked_new_term [OF assms(1) ack] new by blast
    have own': "own_entry N t n" using own_entry_before [OF assms(1) own old] new by blast
    have "agree_between N t n u" using assms(1) own' agree by (rule agree_between_before)
    with assms(2) s t old own' have eq: "take n (led_log N u) = take n (led_log N t)"
      by (auto simp: electors_def)
    have "take n (led_log ?N' u) = take n (led_log N u)"
      by (rule led_log_grows(3) [OF assms(1,3)]) (rule own_entry_nth(1) [OF own' eq])
    with eq own_entry_after(2) [OF assms(1) own'] show ?thesis by simp
  qed
  moreover have "u \<le> cm_currentTerm (net_cm ?N' s)" if "s \<in> A" for s
    using assms(2) that move_term [OF assms(1), of s] by (force simp: electors_def)
  ultimately show ?thesis using assms(1,2) is_quorum_after
    unfolding electors_def by (blast intro: is_quorum_after)
qed

lemma new_leader_electors:
  assumes move: "net_move D ids N p l cm'" and "cm_state cm' = Leader" and "cm_state (net_cm N p) \<noteq> Leader"
  shows "\<exists>A. electors (net_after p l cm' N) p (cm_currentTerm cm') A"
proof -
  let ?N' = "net_after p l cm' N" and ?u = "cm_currentTerm cm'"
  note r = net_moveD(1,7) [OF move]
  note new = reach_new_leader [OF net_moveD(1-5) [OF move] assms(2,3)]
  obtain A where A: "is_quorum cm' A" "\<And>s. s \<in> A \<Longrightarrow> s = p \<or> granted N s ?u p"
    using reach_led_backed [OF r(2), of p ?u] assms(2) new(5) by (auto simp: backed_def)
  have none: "net_logs N (cm_currentTerm (net_cm N p)) = None" using new(1,4) by simp
  have "?u \<le> cm_currentTerm (net_cm ?N' s) \<and>
      (\<forall>t n. t < ?u \<and> acked ?N' s t n \<and> own_entry ?N' t n \<and> agree_between ?N' t n ?u \<longrightarrow>
        take n (led_log ?N' ?u) = take n (led_log ?N' t))" if s: "s \<in> A" for s
  proof (intro conjI allI impI)
    show "?u \<le> cm_currentTerm (net_cm ?N' s)"
      using A(2) [OF s] granted_voted [OF r(1)] by (fastforce simp: voted_def)
    fix t n
    assume hyp: "t < ?u \<and> acked ?N' s t n \<and> own_entry ?N' t n \<and> agree_between ?N' t n ?u"
    have ack: "acked N s t n" using acked_new_term [OF move, of s t n] hyp by blast
    have own: "own_entry N t n" using own_entry_before [OF move _ ack] hyp by blast
    have agree: "agree_between N t n ?u" using move own by (rule agree_between_before) (use hyp in blast)
    have "reaches t n (lastLogIndexAndTerm (net_cm N p))"
    proof (cases "s = p")
      case True
      have "agree_between N t n (cm_currentTerm (net_cm N p) + 1)"
        using agree_between_none [OF agree new(1)] new(4) by simp
      then have "take n (cm_log (net_cm N p)) = take n (led_log N t)"
        using acknowledged_kept [OF r(1) ack own] True by simp
      then show ?thesis
        using reach_log_wf(1) [OF net_moveD(1,2) [OF move]] by (intro reaches_own [OF own]) (auto simp: log_wf_def)
    next
      case False
      then obtain req reply where lab: "L_RequestVote req reply \<in> set (net_hist N s)" "rvr_VoteGranted reply"
        and req: "rv_Term req = ?u" "rv_CandidateId req = p"
        using A(2) [OF s] by (auto simp: granted_def elim!: grant.elims split: if_splits)
      have "reaches t n (rv_LastLogIndex req, rv_LastLogTerm req)"
        using vote_reaches [OF r(1) lab] new(1) hyp ack own agree by (simp add: req(1))
      moreover obtain q where "L_SendVote s req \<in> set (net_hist N q)"
        using reach_vote_cause [OF r(1) lab(1)] by blast
      ultimately show ?thesis using reach_sent_vote [OF r(1)] req new(3,4) by metis
    qed
    then have "take n (cm_log (net_cm N p)) = take n (led_log N t)"
      using reaches_complete [OF net_moveD(1,2) [OF move] none own] agree new(4) by simp
    then show "take n (led_log ?N' ?u) = take n (led_log ?N' t)"
      using new(2) assms(2) own_entry_after(2) [OF move own] by simp
  qed
  moreover have "is_quorum (net_cm ?N' p) A" using A(1) by simp
  ultimately have "electors ?N' p ?u A" by (simp only: electors_def) blast
  then show ?thesis by blast
qed

lemma reach_electors:
  assumes "reach D ids N" and "(c, u) \<in> net_led N"
  shows "\<exists>A. electors N c u A"
  using assms
proof (induction rule: reach_induct)
  case (step N p l cm')
  note r = net_moveD(1,2) [OF step.hyps]
  show ?case
  proof (cases "(c, u) \<in> net_led N")
    case True
    then show ?thesis using step.IH electors_after [OF step.hyps] reach_logs_led [OF r(1)] by blast
  next
    case False
    with step.prems have "c = p" "cm_state cm' = Leader" "u = cm_currentTerm cm'" by auto
    moreover have "cm_state (net_cm N p) \<noteq> Leader"
      using reach_leader_led [OF r] False calculation step_to_leader(1) [OF net_moveD(5) [OF step.hyps]] by auto
    ultimately show ?thesis using new_leader_electors [OF step.hyps] by blast
  qed
qed (simp add: net_init_def)

text \<open>Entries that a majority has acknowledged in the term they belong to.\<close>

definition chosen :: "'s network \<Rightarrow> int \<Rightarrow> nat \<Rightarrow> bool" where
  "chosen N t n \<longleftrightarrow> own_entry N t n \<and>
     (\<exists>c Q. (c, t) \<in> net_led N \<and> is_quorum (net_cm N c) Q \<and> (\<forall>s \<in> Q. acked N s t n))"

theorem leader_completeness:
  assumes "reach D ids N" and "chosen N t n" and "net_logs N u \<noteq> None" and "t < u"
  shows "take n (led_log N u) = take n (led_log N t)"
  using assms(3,4)
proof (induction "nat (u - t)" arbitrary: u rule: less_induct)
  case less
  have agree: "agree_between N t n u" unfolding agree_between_def using less.hyps by auto
  obtain c Q where c: "(c, t) \<in> net_led N" "is_quorum (net_cm N c) Q" "\<forall>s \<in> Q. acked N s t n"
    and own: "own_entry N t n"
    using assms(2) by (auto simp: chosen_def)
  obtain d where d: "(d, u) \<in> net_led N" using reach_logs_led [OF assms(1)] less.prems(1) by blast
  obtain A where A: "electors N d u A" using reach_electors [OF assms(1) d] by blast
  have "is_quorum (net_cm N c) A"
    using A is_quorum_ids [OF assms(1) reach_led_ids [OF assms(1) d] reach_led_ids [OF assms(1) c(1)]]
    by (simp add: electors_def)
  then obtain s where "s \<in> Q" "s \<in> A" using majorities.meet [OF c(2)] by blast
  with A c(3) own agree less.prems(2) show ?case by (auto simp: electors_def)
qed

end
