(* ===== verification/Raft_Safety.thy ===== *)
theory Raft_Safety
  imports Raft_Completeness "HOL-Library.Sublist"
begin

text \<open>
  State machine safety: what servers have committed agrees, and what they deliver on their
  commit channels are prefixes of one sequence. A server that has been restarted delivers this
  sequence from the start once more.
\<close>

section \<open>Chosen entries\<close>

lemma chosen_after:
  assumes "net_move D ids N p l cm'" and "chosen N t n"
  shows "chosen (net_after p l cm' N) t n"
proof -
  obtain c Q where "(c, t) \<in> net_led N" "is_quorum (net_cm N c) Q" "\<forall>s \<in> Q. acked N s t n"
    using assms(2) by (auto simp: chosen_def)
  then have "(c, t) \<in> net_led (net_after p l cm' N)" "is_quorum (net_cm (net_after p l cm' N) c) Q"
    "\<forall>s \<in> Q. acked (net_after p l cm' N) s t n"
    using is_quorum_after [OF assms(1)] by (auto simp: acked_after)
  with own_entry_after(1) [OF assms(1)] assms(2) show ?thesis unfolding chosen_def by blast
qed

text \<open>A log is safe up to \<open>n\<close> entries if these are chosen, or part of what is.\<close>

definition safe_upto :: "'s network \<Rightarrow> int \<Rightarrow> LogEntry list \<Rightarrow> nat \<Rightarrow> bool" where
  "safe_upto N u l n \<longleftrightarrow> n = 0 \<or>
     (\<exists>t m. chosen N t m \<and> n \<le> m \<and> t \<le> u \<and> take n l = take n (led_log N t))"

lemma chosen_own: "chosen N t m \<Longrightarrow> own_entry N t m"
  by (simp add: chosen_def)

lemma safe_upto_length: "safe_upto N u l n \<Longrightarrow> n \<le> length l"
  by (auto simp: safe_upto_def own_entry_def dest!: chosen_own intro: take_le_length)

lemma safe_upto_mono: "safe_upto N u l n \<Longrightarrow> u \<le> u' \<Longrightarrow> take n l' = take n l \<Longrightarrow> safe_upto N u' l' n"
  unfolding safe_upto_def by (metis order_trans)

lemma safe_upto_after:
  assumes "net_move D ids N p l cm'" and "safe_upto N u k n"
  shows "safe_upto (net_after p l cm' N) u k n"
proof (cases "n = 0")
  case False
  then obtain t m where c: "chosen N t m" "n \<le> m" "t \<le> u" "take n k = take n (led_log N t)"
    using assms(2) by (auto simp: safe_upto_def)
  have "take m (led_log (net_after p l cm' N) t) = take m (led_log N t)"
    using assms(1) chosen_own [OF c(1)] by (rule own_entry_after)
  then have "take n (led_log (net_after p l cm' N) t) = take n (led_log N t)"
    using c(2) by (metis min.absorb1 take_take)
  with chosen_after [OF assms(1) c(1)] c(2-4) show ?thesis unfolding safe_upto_def by metis
qed (simp add: safe_upto_def)

text \<open>Later leaders have what is safe, and any two safe logs agree.\<close>

lemma chosen_in_leader:
  assumes "reach D ids N" and "chosen N t m" and "net_logs N u \<noteq> None" and "t \<le> u" and "n \<le> m"
  shows "take n (led_log N u) = take n (led_log N t)"
proof (cases "t = u")
  case False
  then have "take m (led_log N u) = take m (led_log N t)"
    using leader_completeness [OF assms(1-3)] assms(4) by simp
  with assms(5) show ?thesis by (metis min.absorb1 take_take)
qed simp

lemma safe_in_leader:
  assumes "reach D ids N" and "safe_upto N u' l n" and "net_logs N u \<noteq> None" and "u' \<le> u"
  shows "take n l = take n (led_log N u)"
proof (cases "n = 0")
  case False
  then obtain t m where "chosen N t m" "n \<le> m" "t \<le> u'" "take n l = take n (led_log N t)"
    using assms(2) by (auto simp: safe_upto_def)
  with chosen_in_leader [OF assms(1) _ assms(3)] assms(4) show ?thesis by force
qed simp

lemma safe_agree:
  assumes "reach D ids N" and "safe_upto N u l n" and "safe_upto N u' l' n"
  shows "take n l = take n l'"
proof (cases "n = 0")
  case False
  then obtain t m where 1: "chosen N t m" "n \<le> m" "take n l = take n (led_log N t)"
    using assms(2) by (auto simp: safe_upto_def)
  from False obtain t' m' where 2: "chosen N t' m'" "n \<le> m'" "take n l' = take n (led_log N t')"
    using assms(3) by (auto simp: safe_upto_def)
  have logs: "net_logs N t \<noteq> None" "net_logs N t' \<noteq> None"
    using chosen_own [OF 1(1)] chosen_own [OF 2(1)] by (auto simp: own_entry_def)
  show ?thesis
  proof (cases "t \<le> t'")
    case True
    with chosen_in_leader [OF assms(1) 1(1) logs(2) _ 1(2)] 1(3) 2(3) show ?thesis by simp
  next
    case False
    with chosen_in_leader [OF assms(1) 2(1) logs(1) _ 2(2)] 1(3) 2(3) show ?thesis by simp
  qed
qed simp

lemma acked_less: "acked N s t n \<Longrightarrow> m \<le> n \<Longrightarrow> acked N s t m"
  unfolding acked_def using order_trans by blast

section \<open>The leader's record of its followers\<close>

definition match_ok :: "'s network \<Rightarrow> int \<Rightarrow> bool" where
  "match_ok N p \<longleftrightarrow> (\<forall>q \<in> set (cm_peerIds (net_cm N p)).
     0 \<le> fm_index 0 (cm_matchIndex (net_cm N p)) q \<longrightarrow>
     acked N q (cm_currentTerm (net_cm N p)) (nat (fm_index 0 (cm_matchIndex (net_cm N p)) q) + 1))"

lemma handleAEReply_cases:
  assumes "handleAEReply now saved p ni n reply cm = Inr cm'" and "cm_currentTerm cm = saved"
    and "cm_currentTerm cm' = cm_currentTerm cm"
  obtains (same) "cm_matchIndex cm' = cm_matchIndex cm" and "cm_commitIndex cm' = cm_commitIndex cm"
  | (count) cm1 where "cm_state cm = Leader" and "aer_Success reply"
      and "cm1 = cm\<lparr>cm_nextIndex := fmupd p (ni + int n) (cm_nextIndex cm),
             cm_matchIndex := fmupd p (ni + int n - 1) (cm_matchIndex cm)\<rparr>"
      and "cm_matchIndex cm' = cm_matchIndex cm1" and "leaderCommit cm1 = Inr (cm_commitIndex cm')"
      and "cm_nextIndex cm' = cm_nextIndex cm1"
proof (cases "cm_state cm = Leader \<and> saved = aer_Term reply \<and> aer_Success reply")
  case True
  let ?cm1 = "cm\<lparr>cm_nextIndex := fmupd p (ni + int n) (cm_nextIndex cm),
      cm_matchIndex := fmupd p (ni + int n - 1) (cm_matchIndex cm)\<rparr>"
  have run: "rbind (leaderCommit ?cm1) (\<lambda>ci. if ci \<noteq> cm_commitIndex ?cm1
      then rbind (signal_newCommitReady (?cm1\<lparr>cm_commitIndex := ci\<rparr>)) (\<lambda>cm2.
             Inr (cm2\<lparr>cm_triggerAE := Suc (cm_triggerAE cm2)\<rparr>))
      else Inr ?cm1) = Inr cm'"
    using assms(1,2) True by (simp add: handleAEReply_def Let_def)
  then obtain ci where ci: "leaderCommit ?cm1 = Inr ci" by blast
  with run have "cm_matchIndex cm' = cm_matchIndex ?cm1 \<and> cm_commitIndex cm' = ci \<and>
      cm_nextIndex cm' = cm_nextIndex ?cm1"
    by (cases "ci = cm_commitIndex ?cm1") (auto dest!: signal_frame)
  with ci True that(2) show thesis by simp
next
  case False
  have "\<not> aer_Term reply > cm_currentTerm cm"
    using assms(1,3) leaderCommit_frame [OF assms(1)] by auto
  with assms(1) False have "cm_matchIndex cm' = cm_matchIndex cm \<and> cm_commitIndex cm' = cm_commitIndex cm"
    by (auto simp: handleAEReply_def split: if_splits)
  with that(1) show thesis by blast
qed

lemma RequestVote_indexes:
  "RequestVoteHelper D now req cm = Inr (cm', reply) \<Longrightarrow> cm_matchIndex cm' = cm_matchIndex cm"
  by (auto simp: RequestVoteHelper_def Let_def becomeFollower_def spawn_def
      dest!: persistToStorage_frame split: if_splits)

lemma AppendEntries_indexes:
  "AppendEntriesHelper D now req cm = Inr (cm', reply) \<Longrightarrow> cm_matchIndex cm' = cm_matchIndex cm"
  by (auto simp: AppendEntriesHelper_def Let_def becomeFollower_def spawn_def
      dest!: persistToStorage_frame advanceCommit_frame split: if_splits)

lemma step_match:
  assumes "prompt_step D cm l cm'" and "timely cm l" and "cm_state cm' = Leader"
  obtains (same) "cm_state cm = Leader" and "cm_matchIndex cm' = cm_matchIndex cm"
  | (reset) "\<And>q. q \<in> set (cm_peerIds cm) \<Longrightarrow> fm_index 0 (cm_matchIndex cm') q = -1"
  | (count) saved peer ni n reply where "l = L_AEReply saved peer ni n reply" and "cm_state cm = Leader"
      and "aer_Success reply" and "cm_matchIndex cm' = fmupd peer (ni + int n - 1) (cm_matchIndex cm)"
proof -
  note t = step_to_leader [OF assms(1,3)]
  have lead: "cm_state cm = Leader" if "l \<noteq> L_StartLeader" using t(2) that by blast
  from assms(1) show thesis
  proof (cases rule: net_step_core)
    case (vote now req reply)
    with lead RequestVote_indexes that(1) show thesis by blast
  next
    case (append now req reply)
    with lead AppendEntries_indexes that(1) show thesis by blast
  next
    case (submit command)
    with that(1) show thesis by (simp add: core_iff submitted_entry_def)
  next
    case (elect now)
    with assms(3) show thesis by (simp add: core_iff)
  next
    case (reply now saved el peer reply)
    then have "cm_matchIndex cm' = cm_matchIndex (startLeader cm)"
      using lead by (simp add: core_iff handleVoteReply_def)
    with that(2) startLeader_indexes(2) show thesis by metis
  next
    case lead: lead
    then have "cm_matchIndex cm' = cm_matchIndex (startLeader cm)" by (simp add: core_iff)
    with that(2) startLeader_indexes(2) show thesis by metis
  next
    case (appended now saved peer ni n reply)
    have cur: "cm_currentTerm (finished (Go_AwaitAE saved peer ni n) cm) = saved"
      using assms(2) appended(1) by simp
    have same: "cm_currentTerm cm' = cm_currentTerm (finished (Go_AwaitAE saved peer ni n) cm)" using t(1) by simp
    from appended(2) cur same show thesis
    proof (cases rule: handleAEReply_cases)
      case same
      with that(1) lead appended(1) show thesis by simp
    next
      case (count cm1)
      with that(3) [OF appended(1)] show thesis by simp
    qed
  next
    case stop
    with assms(3) show thesis by (simp add: core_iff)
  next
    case restart
    with assms(3) show thesis by simp
  next
    case same
    with assms(3) that(1) show thesis by (simp add: core_iff)
  qed
qed

lemma reach_match:
  assumes "reach D ids N" and "p \<in> ids" and "cm_state (net_cm N p) = Leader"
  shows "match_ok N p"
  using assms
proof (induction rule: reach_induct)
  case (step N q l cm')
  let ?N' = "net_after q l cm' N"
  have mono: "acked N s t n \<Longrightarrow> acked ?N' s t n" for s t n by (simp add: acked_after)
  show ?case
  proof (cases "q = p")
    case False
    with step show ?thesis by (auto simp: match_ok_def intro: mono)
  next
    case True
    note move = net_moveD [OF step.hyps, unfolded True]
    have lead: "cm_state cm' = Leader" using step.prems True by simp
    have t: "cm_currentTerm cm' = cm_currentTerm (net_cm N p)" using step_to_leader(1) [OF move(5) lead] .
    have peers: "cm_peerIds cm' = cm_peerIds (net_cm N p)"
      using move(5) cm_step_identity by (auto simp: prompt_step_def)
    from move(5,3) lead show ?thesis
    proof (cases rule: step_match)
      case same
      then have "match_ok N p" using step.IH step.prems(1) by blast
      with same(2) t peers True show ?thesis by (auto simp: match_ok_def acked_after)
    next
      case reset
      with peers True show ?thesis by (simp add: match_ok_def)
    next
      case (count saved peer ni n reply)
      then have old: "match_ok N p" using step.IH step.prems(1) by blast
      have saved: "saved = cm_currentTerm cm'" using move(3) count(1) t by simp
      obtain req where req: "L_AppendEntries req reply \<in> set (net_hist N peer)" "ae_Term req = saved"
        "ae_PrevLogIndex req = ni - 1" "length (ae_Entries req) = n"
        using move(4) count(1) by auto
      have "nat (ni + int n - 1) + 1 \<le> request_end req" if "0 \<le> ni + int n - 1"
        using req(3,4) that by (simp add: request_end_def)
      then have "acked ?N' peer saved (nat (ni + int n - 1) + 1)" if "0 \<le> ni + int n - 1"
        using req(1,2) count(3) that by (intro mono) (auto simp: acked_def)
      with old count(4) t peers True saved show ?thesis by (auto simp: match_ok_def acked_after)
    qed
  qed
qed (auto simp: net_init_def fresh_cm_def)

lemma committable_chosen:
  assumes "reach D ids N" and "p \<in> ids" and "cm_state (net_cm N p) = Leader"
    and "committable (net_cm N p) i" and "i < length (cm_log (net_cm N p))"
  shows "chosen N (cm_currentTerm (net_cm N p)) (Suc i)"
proof -
  let ?cm = "net_cm N p"
  have log: "net_logs N (cm_currentTerm ?cm) = Some (cm_log ?cm)" using assms(1-3) by (rule reach_leader_log)
  have led: "(p, cm_currentTerm ?cm) \<in> net_led N" using assms(1-3) by (rule reach_leader_led)
  have own: "own_entry N (cm_currentTerm ?cm) (Suc i)"
    using log assms(4,5) by (simp add: own_entry_def committable_def)
  have q: "is_quorum ?cm (holders ?cm (int i))"
    using committable_quorum [OF reach_ids(3) [OF assms(1,2)] assms(4)] .
  have "acked N s (cm_currentTerm ?cm) (Suc i)" if "s \<in> holders ?cm (int i)" for s
  proof (cases "s = p")
    case False
    then have s: "s \<in> set (cm_peerIds ?cm)" "int i \<le> fm_index 0 (cm_matchIndex ?cm) s"
      using that reach_ids(1) [OF assms(1,2)] by (auto simp: holders_def)
    then have "acked N s (cm_currentTerm ?cm) (nat (fm_index 0 (cm_matchIndex ?cm) s) + 1)"
      using reach_match [OF assms(1-3)] by (simp add: match_ok_def)
    then show ?thesis by (rule acked_less) (use s(2) in simp)
  qed (use led in \<open>simp add: acked_def\<close>)
  with own led q show ?thesis unfolding chosen_def by blast
qed

section \<open>Committed entries are safe\<close>

definition commit_len :: "'s ConsensusModule \<Rightarrow> nat" where
  "commit_len cm = nat (cm_commitIndex cm + 1)"

definition commits_safe :: "int set \<Rightarrow> 's network \<Rightarrow> bool" where
  "commits_safe ids N \<longleftrightarrow>
     (\<forall>p \<in> ids. -1 \<le> cm_commitIndex (net_cm N p) \<and>
        safe_upto N (cm_currentTerm (net_cm N p)) (cm_log (net_cm N p)) (commit_len (net_cm N p))) \<and>
     (\<forall>p q req. L_SendAE q req \<in> set (net_hist N p) \<longrightarrow>
        nat (ae_LeaderCommit req + 1) \<le> request_end req \<and>
        safe_upto N (ae_Term req) (led_log N (ae_Term req)) (nat (ae_LeaderCommit req + 1)))"

lemma safe_step_log:
  assumes "net_move D ids N p l cm'"
    and "safe_upto N (cm_currentTerm (net_cm N p)) (cm_log (net_cm N p)) n"
  shows "safe_upto N (cm_currentTerm cm') (cm_log cm') n"
proof (rule safe_upto_mono [OF assms(2) net_moveD(6) [OF assms(1)]])
  note n = safe_upto_length [OF assms(2)]
  show "take n (cm_log cm') = take n (cm_log (net_cm N p))"
    using net_moveD(5) [OF assms(1)]
  proof (cases rule: step_log)
    case (append now req reply)
    note acc = step_log_accepted [OF assms(1) append(1,5,6)]
    have "take n (cm_log (net_cm N p)) = take n (led_log N (ae_Term req))"
      using safe_in_leader [OF net_moveD(1) [OF assms(1)] assms(2) acc(3)] net_moveD(6) [OF assms(1)] append(4)
      by simp
    with acc(2) n show ?thesis by simp
  qed (use n in simp_all)
qed

text \<open>
  How the commit index moves: not at all, back to the start of the log, to what the leader
  announced, or by counting.
\<close>

lemma step_commit:
  fixes cm :: "'s ConsensusModule"
  assumes "prompt_step D cm l cm'" and "timely cm l"
  obtains (same) "cm_commitIndex cm' = cm_commitIndex cm"
  | (restart) "restarts l" and "cm_commitIndex cm' = -1"
  | (follow) req reply where "l = L_AppendEntries req reply" and "ae_Term req = cm_currentTerm cm'"
      and "prevLogMatches req (cm_log cm) = Inr True"
      and "cm_log cm' = insertEntries (nat (ae_PrevLogIndex req + 1)) (ae_Entries req) (cm_log cm)"
      and "cm_commitIndex cm < ae_LeaderCommit req"
      and "cm_commitIndex cm' = intMin (ae_LeaderCommit req) (int (length (cm_log cm')) - 1)"
  | (count) cm1 :: "'s ConsensusModule" where "cm_state cm' = Leader" and "core cm' = core (cm1\<lparr>cm_commitIndex := cm_commitIndex cm'\<rparr>)"
      and "leaderCommit cm1 = Inr (cm_commitIndex cm')" and "cm_peerIds cm1 = cm_peerIds cm'"
      and "cm_commitIndex cm1 = cm_commitIndex cm"
  using assms(1)
proof (cases rule: net_step_core)
  case (vote now req reply)
  with that(1) RequestVoteHelper_frame(4) show thesis by blast
next
  case (append now req reply)
  show thesis
  proof (cases "aer_Success reply \<and> cm_commitIndex cm < ae_LeaderCommit req")
    case True
    note log = AppendEntriesHelper_log(1) [OF append(2)]
    have "ae_Term req = cm_currentTerm cm'"
      using log AppendEntriesHelper_frame(4) [OF append(2)] True by simp
    with that(3) [OF append(1)] log True show thesis by simp
  next
    case False
    with AppendEntriesHelper_log [OF append(2)] that(1) show thesis by force
  qed
next
  case (appended now saved peer ni n reply)
  let ?g = "Go_AwaitAE saved peer ni n"
  note frame = leaderCommit_frame [OF appended(2)]
  show thesis
  proof (cases "cm_currentTerm cm' = cm_currentTerm cm")
    case True
    have cur: "cm_currentTerm (finished ?g cm) = saved" using assms(2) appended(1) by simp
    have cur': "cm_currentTerm cm' = cm_currentTerm (finished ?g cm)" using True by simp
    from appended(2) cur cur' show thesis
    proof (cases rule: handleAEReply_cases)
      case same
      with that(1) show thesis by simp
    next
      case (count cm1)
      have e: "cm_elections cm' = cm_elections cm"
        using AEReply_quiet [OF appended(2)] by (simp add: quiet_def)
      have c1: "cm_currentTerm cm1 = cm_currentTerm cm" "cm_votedFor cm1 = cm_votedFor cm"
        "cm_log cm1 = cm_log cm" "cm_state cm1 = cm_state cm" "cm_elections cm1 = cm_elections cm"
        "cm_peerIds cm1 = cm_peerIds cm" "cm_commitIndex cm1 = cm_commitIndex cm"
        using count(3) by (simp_all add: finished_def)
      have low: "\<not> aer_Term reply > cm_currentTerm (finished ?g cm)" using frame True by auto
      show thesis
      proof (rule that(4) [of cm1])
        show "cm_state cm' = Leader" using frame low count(1) by simp
        show "core cm' = core (cm1\<lparr>cm_commitIndex := cm_commitIndex cm'\<rparr>)"
          using frame low e c1 count(4,6) by (simp add: core_iff)
      qed (use count(5) c1 frame in simp_all)
    qed
  next
    case False
    then have "aer_Term reply > cm_currentTerm (finished ?g cm)" using frame by auto
    with appended(2) have "cm' = becomeFollower now (aer_Term reply) (finished ?g cm)"
      by (simp add: handleAEReply_def)
    with that(1) show thesis by simp
  qed
next
  case restart
  with that(2) show thesis by (simp add: started_def)
qed (use that(1) in \<open>auto simp: core_iff submitted_entry_def handleVoteReply_frame startElection_def Let_def startLeader_def\<close>)

lemma commit_safe_step:
  assumes move: "net_move D ids N p l cm'" and safe: "commits_safe ids N"
  defines "N' \<equiv> net_after p l cm' N"
  shows "-1 \<le> cm_commitIndex cm'"
    and "safe_upto N' (cm_currentTerm cm') (cm_log cm') (commit_len cm')"
proof -
  let ?cm = "net_cm N p"
  have ci: "-1 \<le> cm_commitIndex ?cm" and own: "safe_upto N (cm_currentTerm ?cm) (cm_log ?cm) (commit_len ?cm)"
    using safe net_moveD(2) [OF move] by (auto simp: commits_safe_def)
  have old: "safe_upto N' (cm_currentTerm cm') (cm_log cm') (commit_len ?cm)"
    unfolding N'_def by (rule safe_upto_after [OF move safe_step_log [OF move own]])
  have "-1 \<le> cm_commitIndex cm' \<and> safe_upto N' (cm_currentTerm cm') (cm_log cm') (commit_len cm')"
    using net_moveD(5,3) [OF move]
  proof (cases rule: step_commit)
    case same
    with ci old show ?thesis by (simp add: commit_len_def)
  next
    case restart
    then show ?thesis by (simp add: commit_len_def safe_upto_def)
  next
    case (follow req reply)
    note acc = step_log_accepted [OF move follow(1,3,4)]
    let ?n = "nat (ae_LeaderCommit req + 1)"
    obtain q where "L_SendAE p req \<in> set (net_hist N q)" using net_moveD(4) [OF move] follow(1) by auto
    then have n: "?n \<le> request_end req" "safe_upto N (ae_Term req) (led_log N (ae_Term req)) ?n"
      using safe by (auto simp: commits_safe_def)
    have "request_end req \<le> length (cm_log cm')" using acc(1,4) by (rule take_le_length)
    then have c: "cm_commitIndex cm' = ae_LeaderCommit req"
      using follow(5,6) ci n(1) by (auto simp: intMin_def)
    have "take ?n (cm_log cm') = take ?n (led_log N (ae_Term req))"
      using acc(1) n(1) by (metis min.absorb1 take_take)
    then have "safe_upto N (cm_currentTerm cm') (cm_log cm') ?n"
      using n(2) follow(2) by (auto intro: safe_upto_mono)
    then have "safe_upto N' (cm_currentTerm cm') (cm_log cm') ?n"
      unfolding N'_def by (rule safe_upto_after [OF move])
    with c follow(5) ci show ?thesis by (simp add: commit_len_def)
  next
    case (count cm1)
    have eqs: "cm_log cm1 = cm_log cm'" "cm_currentTerm cm1 = cm_currentTerm cm'"
      "cm_matchIndex cm1 = cm_matchIndex cm'" "cm_peerIds cm1 = cm_peerIds cm'"
      using count(2,4) by (simp_all add: core_iff)
    have "-1 \<le> cm_commitIndex cm1" using ci count(5) by simp
    then show ?thesis
    proof (cases rule: leaderCommit_cases)
      case 1
      with count(3,5) ci old show ?thesis by (simp add: commit_len_def)
    next
      case (2 i)
      have "committable cm' i" using 2(4) eqs by (simp add: committable_def matchCount_def majority_def)
      then have "chosen N' (cm_currentTerm (net_cm N' p)) (Suc i)"
        using net_moveD(2,7) [OF move] count(1) 2(3) eqs(1)
        by (intro committable_chosen [of D ids]) (simp_all add: N'_def)
      then have "safe_upto N' (cm_currentTerm cm') (cm_log cm') (Suc i)"
        using count(1) by (auto simp: safe_upto_def N'_def)
      moreover have "cm_commitIndex cm' = int i" using 2(1) count(3) by simp
      ultimately show ?thesis by (simp add: commit_len_def nat_add_distrib)
    qed
  qed
  then show "-1 \<le> cm_commitIndex cm'"
    and "safe_upto N' (cm_currentTerm cm') (cm_log cm') (commit_len cm')" by blast+
qed

lemma request_safe_step:
  assumes move: "net_move D ids N p l cm'" and safe: "commits_safe ids N"
    and sent: "L_SendAE q req \<in> set (net_hist (net_after p l cm' N) r)"
  defines "N' \<equiv> net_after p l cm' N" and "n \<equiv> nat (ae_LeaderCommit req + 1)"
  shows "n \<le> request_end req \<and> safe_upto N' (ae_Term req) (led_log N' (ae_Term req)) n"
proof -
  note reach = net_moveD(1) [OF move]
  have "n \<le> request_end req \<and> net_logs N (ae_Term req) \<noteq> None \<and>
    safe_upto N (ae_Term req) (led_log N (ae_Term req)) n"
  proof (cases "L_SendAE q req \<in> set (net_hist N r)")
    case True
    then show ?thesis using safe reach_sent_request [OF reach] unfolding commits_safe_def n_def by blast
  next
    case False
    then have r: "r = p" and l: "l = L_SendAE q req" using sent by (auto split: if_splits)
    have lead: "cm_state (net_cm N p) = Leader" "cm_currentTerm (net_cm N p) = ae_Term req"
      using net_moveD(3) [OF move] l by simp_all
    obtain saved ni where "appendEntries_args saved q (net_cm N p) = Inr (req, ni)"
      using net_moveD(5) [OF move] l by (auto elim: SendAE_label)
    note args = appendEntries_args_request(4,5) [OF this]
    have log: "net_logs N (ae_Term req) = Some (cm_log (net_cm N p))"
      using reach_leader_log [OF net_moveD(1,2) [OF move] lead(1)] lead(2) by simp
    have own: "safe_upto N (ae_Term req) (cm_log (net_cm N p)) n"
      using safe net_moveD(2) [OF move] lead(2) args(1) by (auto simp: commits_safe_def commit_len_def n_def)
    with safe_upto_length [OF own] log args(2) show ?thesis by simp
  qed
  then have n: "n \<le> request_end req" and k: "net_logs N (ae_Term req) \<noteq> None"
    and s: "safe_upto N (ae_Term req) (led_log N (ae_Term req)) n" by blast+
  have "take n (led_log N' (ae_Term req)) = take n (led_log N (ae_Term req))"
    unfolding N'_def by (rule led_log_grows(3) [OF move k safe_upto_length [OF s]])
  then have "safe_upto N (ae_Term req) (led_log N' (ae_Term req)) n"
    by (rule safe_upto_mono [OF s order_refl])
  with n show ?thesis unfolding N'_def by (blast intro: safe_upto_after [OF move])
qed

theorem reach_commits_safe: "reach D ids N \<Longrightarrow> commits_safe ids N"
proof (induction rule: reach_induct)
  case (init N)
  then show ?case by (auto simp: commits_safe_def net_init_def fresh_cm_def commit_len_def safe_upto_def)
next
  case (step N p l cm')
  let ?N' = "net_after p l cm' N"
  have "-1 \<le> cm_commitIndex (net_cm ?N' q) \<and>
      safe_upto ?N' (cm_currentTerm (net_cm ?N' q)) (cm_log (net_cm ?N' q)) (commit_len (net_cm ?N' q))"
    if "q \<in> ids" for q
  proof (cases "q = p")
    case True
    with commit_safe_step [OF step.hyps step.IH] show ?thesis by simp
  next
    case False
    with step.IH that show ?thesis by (auto simp: commits_safe_def intro: safe_upto_after [OF step.hyps])
  qed
  with request_safe_step [OF step.hyps step.IH] show ?case unfolding commits_safe_def by blast
qed

theorem committed_agree:
  assumes "reach D ids N" and "p \<in> ids" and "q \<in> ids"
    and "n \<le> commit_len (net_cm N p)" and "n \<le> commit_len (net_cm N q)"
  shows "take n (cm_log (net_cm N p)) = take n (cm_log (net_cm N q))"
proof -
  have less: "safe_upto N u l m \<Longrightarrow> n \<le> m \<Longrightarrow> safe_upto N u l n" for u l m
    unfolding safe_upto_def by (metis le_zero_eq min.absorb1 order_trans take_take)
  note safe = reach_commits_safe [OF assms(1), unfolded commits_safe_def, THEN conjunct1, rule_format]
  show ?thesis
    using safe_agree [OF assms(1)] less safe [OF assms(2)] safe [OF assms(3)] assms(4,5) by blast
qed

section \<open>Delivery\<close>

text \<open>What servers receive never contradicts what they have committed, so the delivery is ordered.\<close>

lemma move_agrees:
  assumes "net_move D ids N p l cm'"
  shows "agrees (net_cm N p) l"
proof (cases "\<exists>req reply. l = L_AppendEntries req reply")
  case True
  then obtain req reply where l: "l = L_AppendEntries req reply" by blast
  let ?cm = "net_cm N p" and ?s = "nat (ae_PrevLogIndex req + 1)"
  note r = net_moveD(1,2) [OF assms]
  obtain q where sent: "L_SendAE p req \<in> set (net_hist N q)" using net_moveD(4) [OF assms] l by auto
  obtain k where k: "net_logs N (ae_Term req) = Some k" "request_of_log req k"
    using reach_sent_request [OF r(1) sent] by blast
  have prev: "-1 \<le> ae_PrevLogIndex req" and len: "?s + length (ae_Entries req) \<le> length k"
    and entries: "ae_Entries req = take (length (ae_Entries req)) (drop ?s k)"
    using k(2) by (simp_all add: request_of_log_def)
  have safe: "safe_upto N (cm_currentTerm ?cm) (cm_log ?cm) (commit_len ?cm)"
    using reach_commits_safe [OF r(1)] r(2) by (simp add: commits_safe_def)
  have "same_term (cm_log ?cm ! nat (ae_PrevLogIndex req + 1 + int j)) (ae_Entries req ! j)"
    if t: "cm_currentTerm ?cm \<le> ae_Term req" and j: "j < length (ae_Entries req)"
      "ae_PrevLogIndex req + 1 + int j \<le> cm_commitIndex ?cm" for j
  proof -
    have eq: "take (commit_len ?cm) (cm_log ?cm) = take (commit_len ?cm) k"
      using safe_in_leader [OF r(1) safe _ t] k(1) by simp
    have "?s + j < commit_len ?cm" using j(2) prev by (simp add: commit_len_def)
    with eq have "cm_log ?cm ! (?s + j) = k ! (?s + j)" by (metis nth_take)
    moreover have "ae_Entries req ! j = k ! (?s + j)"
      using j(1) len by (subst entries) simp
    moreover have "nat (ae_PrevLogIndex req + 1 + int j) = ?s + j" using prev by simp
    ultimately show ?thesis by (simp add: same_term_def)
  qed
  with l show ?thesis by simp
next
  case False
  then show ?thesis by (cases l) auto
qed

text \<open>The steps of a server since it came up for the last time, and what it has delivered in them.\<close>

definition since_start :: "label list \<Rightarrow> label list" where
  "since_start ls = rev (takeWhile (\<lambda>l. \<not> restarts l) (rev ls))"

lemma since_start_simps [simp]:
  "since_start [] = []" "since_start (ls @ [l]) = (if restarts l then [] else since_start ls @ [l])"
  by (simp_all add: since_start_def)

definition delivered :: "'s network \<Rightarrow> int \<Rightarrow> (Command option \<times> int) list" where
  "delivered N p = concat (map delivery (since_start (net_hist N p)))"

lemma delivered_after:
  "delivered (net_after p l cm N) q =
     (if q \<noteq> p then delivered N q else if restarts l then [] else delivered N p @ delivery l)"
  by (simp add: delivered_def)

lemma reach_agreed_run:
  assumes "reach D ids N" and "p \<in> ids"
  shows "\<exists>s. log_ok s \<and> cm_lastApplied s = -1 \<and>
    runs (agreed_step D) s (since_start (net_hist N p)) (net_cm N p)"
  using assms
proof (induction rule: reach_induct)
  case (init N)
  then show ?case
    by (auto simp: net_init_def fresh_cm_def log_ok_def intro!: exI [of _ "net_cm N p"])
next
  case (step N q l cm')
  then obtain s where s: "log_ok s" "cm_lastApplied s = -1"
    "runs (agreed_step D) s (since_start (net_hist N p)) (net_cm N p)"
    by blast
  show ?case
  proof (cases "q = p")
    case True
    show ?thesis
    proof (cases "restarts l")
      case up: True
      have "started cm'"
        using step_restarts [OF _ up] net_moveD(5) [OF step.hyps] by (auto simp: prompt_step_def)
      with True up show ?thesis by (auto simp: log_ok_def started_def intro!: exI [of _ cm'])
    next
      case False
      then have "agreed_step D (net_cm N p) l cm'"
        using net_moveD(5) [OF step.hyps] move_agrees [OF step.hyps] True
        by (simp add: agreed_step_def prompt_step_def)
      with s True False show ?thesis by (auto intro: runs_snoc)
    qed
  qed (use s in auto)
qed

lemma reach_delivered:
  assumes "reach D ids N" and "p \<in> ids"
  shows "delivered N p = take (length (delivered N p)) (numbered (cm_log (net_cm N p)))"
    and "length (delivered N p) \<le> commit_len (net_cm N p)" and "log_ok (net_cm N p)"
    and "length (delivered N p) = nat (cm_lastApplied (net_cm N p) + 1)"
proof -
  obtain s where s: "log_ok s" "cm_lastApplied s = -1"
    "runs (agreed_step D) s (since_start (net_hist N p)) (net_cm N p)"
    using reach_agreed_run [OF assms] by blast
  have feed: "delivered N p = take (nat (cm_lastApplied (net_cm N p) + 1)) (numbered (cm_log (net_cm N p)))"
    using commit_feed.feed_is_log [OF s(3,1)] s(2) by (simp add: delivered_def)
  show ok: "log_ok (net_cm N p)" by (rule commit_feed.invar_run [OF s(3,1)])
  show n: "length (delivered N p) = nat (cm_lastApplied (net_cm N p) + 1)"
    unfolding feed using ok by (simp add: log_ok_def nat_le_iff)
  show "length (delivered N p) \<le> commit_len (net_cm N p)"
    unfolding n commit_len_def using ok by (intro nat_mono) (simp add: log_ok_def)
  show "delivered N p = take (length (delivered N p)) (numbered (cm_log (net_cm N p)))"
    unfolding n by (rule feed)
qed

lemma delivered_agree:
  assumes "reach D ids N" and "p \<in> ids" and "q \<in> ids" and "length (delivered N p) \<le> length (delivered N q)"
  shows "delivered N p = take (length (delivered N p)) (delivered N q)"
proof -
  let ?n = "length (delivered N p)"
  note P = reach_delivered [OF assms(1,2)] and Q = reach_delivered [OF assms(1,3)]
  have "take ?n (cm_log (net_cm N p)) = take ?n (cm_log (net_cm N q))"
    using committed_agree [OF assms(1-3)] P(2) Q(2) assms(4) by simp
  then have "take ?n (numbered (cm_log (net_cm N p))) = take ?n (numbered (cm_log (net_cm N q)))"
    by (rule take_numbered_cong)
  moreover have "take ?n (delivered N q) = take ?n (numbered (cm_log (net_cm N q)))"
    using assms(4) by (subst Q(1)) (simp add: min_absorb1)
  ultimately show ?thesis using P(1) by simp
qed

theorem deliveries_comparable:
  assumes "reach D ids N" and "p \<in> ids" and "q \<in> ids"
  shows "prefix (delivered N p) (delivered N q) \<or> prefix (delivered N q) (delivered N p)"
  using delivered_agree [OF assms] delivered_agree [OF assms(1,3,2)] take_is_prefix
  by (metis nle_le)

section \<open>Across restarts\<close>

text \<open>
  What a server has ever delivered, before its restarts too. An entry once delivered at a place
  stays the entry of that place.
\<close>

definition ever_delivered :: "'s network \<Rightarrow> int \<Rightarrow> (Command option \<times> int) list" where
  "ever_delivered N p = concat (map delivery (net_hist N p))"

definition settled :: "'s network \<Rightarrow> Command option \<times> int \<Rightarrow> bool" where
  "settled N d \<longleftrightarrow> (\<exists>u l n i. safe_upto N u l n \<and> i < n \<and> d = (le_Command (l ! i), int i))"

lemma settled_after: "net_move D ids N p l cm' \<Longrightarrow> settled N d \<Longrightarrow> settled (net_after p l cm' N) d"
  unfolding settled_def by (blast intro: safe_upto_after)

lemma settled_agree:
  assumes "reach D ids N" and "settled N (c, i)" and "settled N (c', i)"
  shows "c = c'"
proof -
  have cut: "safe_upto N u l n \<Longrightarrow> m \<le> n \<Longrightarrow> safe_upto N u l m" for u l n m
    unfolding safe_upto_def by (metis le_zero_eq min.absorb1 order_trans take_take)
  obtain u l n k where 1: "safe_upto N u l n" "k < n" "c = le_Command (l ! k)" "i = int k"
    using assms(2) by (auto simp: settled_def)
  obtain u' l' n' where 2: "safe_upto N u' l' n'" "k < n'" "c' = le_Command (l' ! k)"
    using assms(3) 1(4) by (auto simp: settled_def)
  have "take (Suc k) l = take (Suc k) l'"
    using safe_agree [OF assms(1)] cut [OF 1(1)] cut [OF 2(1)] 1(2) 2(2) by (meson Suc_leI)
  then have "l ! k = l' ! k" by (metis lessI nth_take)
  with 1(3) 2(3) show ?thesis by simp
qed

lemma delivered_settled:
  assumes "reach D ids N" and "p \<in> ids" and "d \<in> set (delivered N p)"
  shows "settled N d"
proof -
  let ?n = "length (delivered N p)" and ?l = "cm_log (net_cm N p)"
  note del = reach_delivered [OF assms(1,2)]
  have safe: "safe_upto N (cm_currentTerm (net_cm N p)) ?l (commit_len (net_cm N p))"
    using reach_commits_safe [OF assms(1)] assms(2) by (simp add: commits_safe_def)
  obtain i where i: "i < ?n" "d = delivered N p ! i" using assms(3) by (metis in_set_conv_nth)
  have "i < length ?l" using i(1) del(2) safe_upto_length [OF safe] by simp
  then have "d = (le_Command (?l ! i), int i)" using i by (subst (asm) del(1)) simp
  moreover have "i < commit_len (net_cm N p)" using i(1) del(2) by simp
  ultimately show ?thesis using safe unfolding settled_def by blast
qed

lemma ever_delivered_settled:
  "reach D ids N \<Longrightarrow> p \<in> ids \<Longrightarrow> d \<in> set (ever_delivered N p) \<Longrightarrow> settled N d"
proof (induction rule: reach_induct)
  case (step N q l cm')
  show ?case
  proof (cases "d \<in> set (ever_delivered N p)")
    case True
    with step show ?thesis by (blast intro: settled_after)
  next
    case False
    with step.prems(2) have new: "q = p" "d \<in> set (delivery l)"
      by (auto simp: ever_delivered_def split: if_splits)
    have "\<not> restarts l" using new(2) by (cases l) auto
    with new have "d \<in> set (delivered (net_after q l cm' N) p)" by (simp add: delivered_after)
    with delivered_settled [OF net_moveD(7) [OF step.hyps] step.prems(1)] show ?thesis .
  qed
qed (simp add: ever_delivered_def net_init_def)

theorem ever_delivered_agree:
  assumes "reach D ids N" and "p \<in> ids" and "q \<in> ids"
    and "(c, i) \<in> set (ever_delivered N p)" and "(c', i) \<in> set (ever_delivered N q)"
  shows "c = c'"
  using settled_agree [OF assms(1)] ever_delivered_settled [OF assms(1)] assms(2-5) by blast

end
