(* ===== verification/Raft_Validity.thy ===== *)
theory Raft_Validity
  imports Raft_Safety
begin

text \<open>
  Validity: nothing gets into a log that has not been submitted, and no submission gets into it
  twice. Every entry is created by one submission to the leader of its term; what the leaders of
  all terms have created is counted against what has been submitted.
\<close>

section \<open>Submissions\<close>

text \<open>
  What a step takes in: the argument of \<open>Submit\<close>, called by the chat service, or the command of
  a \<open>ForwardLeader\<close> request.
\<close>

fun submission :: "label \<Rightarrow> Command option multiset" where
  "submission (L_Submit command) = {#command#}"
| "submission (L_Append command) = {#command#}"
| "submission (L_ForwardLeader req reply) = {#fl_Command req#}"
| "submission _ = {#}"

definition submissions :: "int set \<Rightarrow> 's network \<Rightarrow> Command option multiset" where
  "submissions ids N = (\<Sum>p \<in> ids. sum_list (map submission (net_hist N p)))"

lemma submissions_init: "net_init ids N \<Longrightarrow> submissions ids N = {#}"
  by (simp add: submissions_def net_init_def)

lemma reach_finite: "reach D ids N \<Longrightarrow> p \<in> ids \<Longrightarrow> finite ids"
  using reach_ids(2) [of D ids N p] by (auto simp: cluster_def)

lemma submissions_in:
  assumes "finite ids" and "c \<in># submissions ids N"
  shows "\<exists>p \<in> ids. \<exists>l \<in> set (net_hist N p). c \<in># submission l"
proof -
  have "c \<in># sum_list (map submission ls) \<Longrightarrow> \<exists>l \<in> set ls. c \<in># submission l" for ls
    by (induction ls) auto
  with assms show ?thesis by (auto simp: submissions_def set_mset_sum)
qed

lemma submissions_after:
  assumes "finite ids" and "p \<in> ids"
  shows "submissions ids (net_after p l cm N) = submissions ids N + submission l"
proof -
  have "submissions ids (net_after p l cm N) =
      (\<Sum>q \<in> ids. sum_list (map submission (net_hist N q)) + (if q = p then submission l else {#}))"
    unfolding submissions_def by (rule sum.cong) simp_all
  also have "\<dots> = submissions ids N + (\<Sum>q \<in> ids. if q = p then submission l else {#})"
    by (simp add: submissions_def sum.distrib)
  also have "(\<Sum>q \<in> ids. if q = p then submission l else {#}) = submission l"
    using assms by (simp add: sum.delta)
  finally show ?thesis .
qed

lemma Submit_log:
  "Submit D command cm = Inr (cm', ok) \<Longrightarrow>
   cm_log cm' = cm_log cm \<or> cm_log cm' = cm_log cm @ [\<lparr>le_Command = command, le_Term = cm_currentTerm cm\<rparr>]"
  by (auto simp: Submit_def forwardToLeader_def dest!: persistToStorage_frame split: if_splits)

text \<open>Only a submission makes the log of a leader grow, by an entry with its command.\<close>

lemma step_submission:
  assumes "prompt_step D cm l cm'" and "cm_state cm' = Leader" and "cm_state cm = Leader"
  shows "cm_log cm' = cm_log cm \<or>
    (\<exists>e. cm_log cm' = cm_log cm @ [e] \<and> le_Term e = cm_currentTerm cm \<and> submission l = {#le_Command e#})"
proof -
  have "cm_step D cm l cm'" using assms(1) by (simp add: prompt_step_def)
  then show ?thesis
  proof (cases rule: cm_step.cases)
    case (RequestVote now req reply)
    then show ?thesis using RequestVoteHelper_frame(3) by blast
  next
    case (AppendEntries now req reply)
    then show ?thesis using assms(2) AppendEntriesHelper_frame(5) [OF AppendEntries(2)]
        AppendEntriesHelper_log [OF AppendEntries(2)] by (cases "aer_Success reply") auto
  next
    case (ForwardLeader req reply)
    then show ?thesis by (auto simp: ForwardLeaderHelper_def dest!: Submit_log split: if_splits)
  next
    case (Submitted command ok)
    then show ?thesis by (auto dest!: Submit_log)
  next
    case (AEReply saved peer ni n now reply)
    then show ?thesis using leaderCommit_frame [OF AEReply(3)] by simp
  next
    case (Restart open_db)
    then show ?thesis using assms(2) restart_started(1) [OF Restart(2,3)] by (simp add: started_def)
  qed (auto simp: electionTick_def handleVoteReply_frame leaderSendAEs_def Stop_def
      dest!: handleForwardReply_frame commitChanSender_frame persistToStorage_frame split: if_splits)
qed

section \<open>What leaders have created\<close>

abbreviation own :: "int \<Rightarrow> LogEntry list \<Rightarrow> LogEntry list" where
  "own t l \<equiv> filter (\<lambda>e. le_Term e = t) l"

definition commands :: "LogEntry list \<Rightarrow> Command option multiset" where
  "commands l = mset (map le_Command l)"

lemma commands_simps [simp]: "commands [] = {#}" "commands (l @ k) = commands l + commands k"
  "commands (e # l) = add_mset (le_Command e) (commands l)"
  by (simp_all add: commands_def)

lemma commands_take: "commands (take n l) \<subseteq># commands l"
  by (metis append_take_drop_id commands_simps(2) mset_subset_eq_add_left)

lemma commands_own_take: "commands (own t (take n l)) \<subseteq># commands (own t l)"
  by (metis append_take_drop_id commands_simps(2) filter_append mset_subset_eq_add_left)

lemma commands_by_term:
  assumes "finite T" and "le_Term ` set l \<subseteq> T"
  shows "commands l = (\<Sum>t \<in> T. commands (own t l))"
  using assms(2)
proof (induction l)
  case (Cons e l)
  have "(\<Sum>t \<in> T. commands (own t (e # l))) =
      (\<Sum>t \<in> T. (if t = le_Term e then {#le_Command e#} else {#}) + commands (own t l))"
    by (rule sum.cong) auto
  also have "\<dots> = {#le_Command e#} + (\<Sum>t \<in> T. commands (own t l))"
    using assms(1) Cons.prems by (simp add: sum.distrib sum.delta)
  finally show ?case using Cons by simp
qed simp

lemma sum_mset_mono_own:
  "(\<And>t. f t \<subseteq># g t) \<Longrightarrow> (\<Sum>t \<in> T. f t) \<subseteq># (\<Sum>t \<in> T. g t :: 'a multiset)"
  by (induction T rule: infinite_finite_induct) (auto intro: subset_mset.add_mono)

text \<open>A log has from each term only entries that its leader created.\<close>

lemma own_in_leader:
  assumes "log_led logs l"
  shows "own t l = [] \<or> (\<exists>lu. logs t = Some lu \<and> commands (own t l) \<subseteq># commands (own t lu))"
proof (cases "own t l = []")
  case False
  define K where "K = {k. k < length l \<and> le_Term (l ! k) = t}"
  have fin: "finite K" by (simp add: K_def)
  have "K \<noteq> {}" using False by (auto simp: K_def filter_empty_conv in_set_conv_nth)
  with fin have "Max K \<in> K" by (rule Max_in)
  then have k: "Max K < length l" "le_Term (l ! Max K) = t" by (simp_all add: K_def)
  have later: "own t (drop (Suc (Max K)) l) = []"
  proof (rule ccontr)
    assume "own t (drop (Suc (Max K)) l) \<noteq> []"
    then obtain i where i: "i < length (drop (Suc (Max K)) l)" "le_Term (drop (Suc (Max K)) l ! i) = t"
      by (auto simp: filter_empty_conv in_set_conv_nth)
    then have "Suc (Max K) + i \<in> K" by (simp add: K_def)
    then have "Suc (Max K) + i \<le> Max K" using fin by (intro Max_ge)
    then show False by simp
  qed
  have "own t l = own t (take (Suc (Max K)) l @ drop (Suc (Max K)) l)" by simp
  also have "\<dots> = own t (take (Suc (Max K)) l)" using later by (simp only: filter_append append_Nil2)
  finally have whole: "own t l = own t (take (Suc (Max K)) l)" .
  obtain lu where "logs t = Some lu" "take (Suc (Max K)) l = take (Suc (Max K)) lu"
    using assms k unfolding log_led_def by blast
  with whole commands_own_take [of t "Suc (Max K)" lu] show ?thesis by auto
qed simp

definition created :: "'s network \<Rightarrow> Command option multiset" where
  "created N = (\<Sum>t \<in> dom (net_logs N). commands (own t (led_log N t)))"

lemma created_in_log:
  assumes "reach D ids N" and "finite (dom (net_logs N))" and "log_led (net_logs N) l"
  shows "commands l \<subseteq># created N"
proof -
  have "le_Term ` set l \<subseteq> dom (net_logs N)"
    using assms(3) unfolding log_led_def by (fastforce simp: in_set_conv_nth)
  then have "commands l = (\<Sum>t \<in> dom (net_logs N). commands (own t l))"
    by (rule commands_by_term [OF assms(2)])
  also have "\<dots> \<subseteq># created N"
    unfolding created_def
  proof (rule sum_mset_mono_own)
    show "commands (own t l) \<subseteq># commands (own t (led_log N t))" for t
      using own_in_leader [OF assms(3), of t] by (auto simp: led_log_def)
  qed
  finally show ?thesis .
qed

text \<open>A step creates at most what it takes in.\<close>

definition created_ok :: "int set \<Rightarrow> 's network \<Rightarrow> bool" where
  "created_ok ids N \<longleftrightarrow> finite (dom (net_logs N)) \<and> created N \<subseteq># submissions ids N"

lemma created_upd:
  fixes f :: "int \<Rightarrow> LogEntry list \<Rightarrow> 'a multiset"
  assumes "finite (dom logs)"
  defines "g \<equiv> \<lambda>m u. f u (case m u of None \<Rightarrow> [] | Some k \<Rightarrow> k)"
  shows "sum (g (logs(t \<mapsto> l))) (dom (logs(t \<mapsto> l))) = f t l + sum (g logs) (dom logs - {t})"
proof -
  have same: "sum (g (logs(t \<mapsto> l))) (dom logs - {t}) = sum (g logs) (dom logs - {t})"
    by (rule sum.cong) (auto simp: g_def)
  have "sum (g (logs(t \<mapsto> l))) (insert t (dom logs - {t})) = g (logs(t \<mapsto> l)) t + sum (g (logs(t \<mapsto> l))) (dom logs - {t})"
    using assms(1) by (intro sum.insert) simp_all
  then show ?thesis by (simp add: same) (simp add: g_def)
qed

lemma created_after_leader:
  assumes "finite (dom (net_logs N))" and "cm_state cm' = Leader"
  shows "created (net_after p l cm' N) = commands (own (cm_currentTerm cm') (cm_log cm')) +
    (\<Sum>u \<in> dom (net_logs N) - {cm_currentTerm cm'}. commands (own u (led_log N u)))"
proof -
  have logs: "net_logs (net_after p l cm' N) = (net_logs N)(cm_currentTerm cm' \<mapsto> cm_log cm')"
    using assms(2) by (simp add: net_after_def)
  show ?thesis
    unfolding created_def led_log_def logs
    by (rule created_upd [OF assms(1), of "\<lambda>u k. commands (own u k)"])
qed

lemma own_new_term:
  assumes "log_led logs l" and "logs t = None"
  shows "own t l = []"
  using own_in_leader [OF assms(1), of t] assms(2) by simp

lemma created_step:
  assumes move: "net_move D ids N p l cm'" and ok: "created_ok ids N"
  shows "created_ok ids (net_after p l cm' N)"
proof -
  note m = net_moveD [OF move]
  have fin: "finite (dom (net_logs N))" and sub: "created N \<subseteq># submissions ids N"
    using ok by (simp_all add: created_ok_def)
  have subs: "submissions ids (net_after p l cm' N) = submissions ids N + submission l"
    by (rule submissions_after [OF reach_finite [OF m(1,2)] m(2)])
  have fin': "finite (dom (net_logs (net_after p l cm' N)))" using fin by (simp add: net_after_def)
  have "created (net_after p l cm' N) \<subseteq># created N + submission l"
  proof (cases "cm_state cm' = Leader")
    case False
    then have "net_logs (net_after p l cm' N) = net_logs N" by (simp add: net_after_def)
    then show ?thesis by (simp add: created_def led_log_def)
  next
    case lead: True
    let ?t = "cm_currentTerm cm'" and ?rest = "\<Sum>u \<in> dom (net_logs N) - {cm_currentTerm cm'}. commands (own u (led_log N u))"
    note new = created_after_leader [OF fin lead, of p l]
    show ?thesis
    proof (cases "cm_state (net_cm N p) = Leader")
      case True
      have t: "cm_currentTerm (net_cm N p) = ?t" using step_to_leader [OF m(5) lead] by simp
      have log: "net_logs N ?t = Some (cm_log (net_cm N p))"
        using reach_leader_log [OF m(1,2) True] unfolding t .
      have "created N = commands (own ?t (led_log N ?t)) + ?rest"
        unfolding created_def using fin log by (intro sum.remove) auto
      then have old: "created N = commands (own ?t (cm_log (net_cm N p))) + ?rest"
        using log by (simp add: led_log_def)
      from step_submission [OF m(5) lead True] show ?thesis
      proof
        assume "cm_log cm' = cm_log (net_cm N p)"
        then show ?thesis by (simp add: new old)
      next
        assume "\<exists>e. cm_log cm' = cm_log (net_cm N p) @ [e] \<and> le_Term e = cm_currentTerm (net_cm N p) \<and>
          submission l = {#le_Command e#}"
        then show ?thesis by (auto simp: new old t)
      qed
    next
      case False
      note fresh = reach_new_leader [OF m(1-5) lead False]
      have "log_led (net_logs N) (cm_log (net_cm N p))"
        using reach_log_wf(1) [OF m(1,2)] by (simp add: log_wf_def)
      from own_new_term [OF this fresh(1)] have "own ?t (cm_log cm') = []" by (simp add: fresh(2))
      moreover have "dom (net_logs N) - {?t} = dom (net_logs N)" using fresh(1) by auto
      ultimately show ?thesis unfolding new by (simp add: created_def)
    qed
  qed
  with sub have "created (net_after p l cm' N) \<subseteq># submissions ids N + submission l"
    by (meson subset_mset.add_right_mono subset_mset.order_trans)
  with fin' show ?thesis by (simp add: created_ok_def subs)
qed

theorem reach_created: "reach D ids N \<Longrightarrow> created_ok ids N"
proof (induction rule: reach_induct)
  case (init N)
  then show ?case by (simp add: created_ok_def created_def net_init_def)
qed (rule created_step)

section \<open>Logs and deliveries\<close>

theorem log_was_submitted:
  assumes "reach D ids N" and "p \<in> ids"
  shows "commands (cm_log (net_cm N p)) \<subseteq># submissions ids N"
proof -
  have "finite (dom (net_logs N))" and "created N \<subseteq># submissions ids N"
    using reach_created [OF assms(1)] by (simp_all add: created_ok_def)
  moreover have "log_led (net_logs N) (cm_log (net_cm N p))"
    using reach_log_wf(1) [OF assms] by (simp add: log_wf_def)
  ultimately show ?thesis using created_in_log [OF assms(1)] by (blast intro: subset_mset.order_trans)
qed

lemma commands_numbered: "map fst (numbered l) = map le_Command l"
  by (rule nth_equalityI) simp_all

lemma delivered_commands:
  assumes "reach D ids N" and "p \<in> ids"
  shows "map fst (delivered N p) = take (length (delivered N p)) (map le_Command (cm_log (net_cm N p)))"
  using reach_delivered(1) [OF assms] commands_numbered take_map by metis

theorem delivered_commands_submitted:
  assumes "reach D ids N" and "p \<in> ids"
  shows "mset (map fst (delivered N p)) \<subseteq># submissions ids N"
proof -
  have "mset (map fst (delivered N p)) = commands (take (length (delivered N p)) (cm_log (net_cm N p)))"
    using delivered_commands [OF assms] by (simp add: commands_def take_map)
  also have "\<dots> \<subseteq># commands (cm_log (net_cm N p))" by (rule commands_take)
  also have "\<dots> \<subseteq># submissions ids N" by (rule log_was_submitted [OF assms])
  finally show ?thesis .
qed

end
