(* ===== verification/Broadcast_Spec.thy ===== *)
theory Broadcast_Spec
  imports Raft_Validity
begin

text \<open>
  What the cluster promises, without servers, terms and messages: one sequence of submitted
  commands that only grows, from which every server delivers the next ones, or all of them again
  after it has been restarted. The cluster of \<open>server/raft.go\<close> is shown to refine this
  specification, event by event.
\<close>

section \<open>Simulation\<close>

text \<open>
  A concrete step relation whose every step, from related states, is matched by an abstract step
  with the observed event.
\<close>

locale simulation =
  fixes cstep :: "'c \<Rightarrow> 'l \<Rightarrow> 'c \<Rightarrow> bool" and astep :: "'a \<Rightarrow> 'e \<Rightarrow> 'a \<Rightarrow> bool"
    and observed :: "'l \<Rightarrow> 'e" and related :: "'c \<Rightarrow> 'a \<Rightarrow> bool"
  assumes square: "related c a \<Longrightarrow> cstep c l c' \<Longrightarrow> \<exists>a'. astep a (observed l) a' \<and> related c' a'"
begin

lemma simulated:
  assumes "runs cstep c ls c'" and "related c a"
  shows "\<exists>a'. runs astep a (map observed ls) a' \<and> related c' a'"
  using assms
proof (induction arbitrary: a rule: runs.induct)
  case (runs_cons c l c1 ls c2)
  obtain a1 where "astep a (observed l) a1" "related c1 a1" using square runs_cons.prems runs_cons.hyps(1) by blast
  then obtain a' where "runs astep a1 (map observed ls) a'" "related c2 a'" using runs_cons.IH by blast
  with \<open>astep a (observed l) a1\<close> show ?case by (intro exI [of _ a']) auto
qed auto

end

section \<open>The specification\<close>

record broadcast =
  bc_log :: "Command option list"
  bc_submitted :: "Command option multiset"
  bc_position :: "int \<Rightarrow> nat"

text \<open>An event is a turn of a server, with what is submitted and delivered there, or its restart.\<close>

datatype broadcast_event =
    Turn int "Command option multiset" "(Command option \<times> int) list"
  | Again int

definition placed :: "Command option list \<Rightarrow> (Command option \<times> int) list" where
  "placed log = zip log (map int [0..<length log])"

definition bc_init :: broadcast where
  "bc_init = \<lparr>bc_log = [], bc_submitted = {#}, bc_position = \<lambda>_. 0\<rparr>"

text \<open>
  At a turn of server \<open>p\<close> commands may be submitted there; the log may grow, but only by
  commands that have been submitted, each as often as it was; and \<open>p\<close> may deliver the next part of
  the log, each command with its place. A server that is restarted is back at the start of the log.
\<close>

definition bc_turn ::
  "broadcast \<Rightarrow> int \<Rightarrow> Command option multiset \<Rightarrow> (Command option \<times> int) list \<Rightarrow> broadcast \<Rightarrow> bool" where
  "bc_turn s p submitted outs s' \<longleftrightarrow>
     bc_submitted s' = bc_submitted s + submitted \<and>
     prefix (bc_log s) (bc_log s') \<and> mset (bc_log s') \<subseteq># bc_submitted s' \<and>
     bc_position s' = (bc_position s)(p := bc_position s p + length outs) \<and>
     bc_position s' p \<le> length (bc_log s') \<and>
     outs = drop (bc_position s p) (take (bc_position s' p) (placed (bc_log s')))"

fun bc_step :: "broadcast \<Rightarrow> broadcast_event \<Rightarrow> broadcast \<Rightarrow> bool" where
  "bc_step s (Turn p submitted outs) s' = bc_turn s p submitted outs s'"
| "bc_step s (Again p) s' = (s' = s\<lparr>bc_position := (bc_position s)(p := 0)\<rparr>)"

lemma placed_append: "placed (l @ r) = placed l @ zip r (map int [length l..<length l + length r])"
proof -
  have "placed (l @ r) = zip (l @ r) (map int [0..<length l] @ map int [length l..<length l + length r])"
    by (simp only: placed_def length_append map_append [symmetric] upt_add_eq_append [OF le0])
  then show ?thesis by (simp add: placed_def)
qed

lemma placed_prefix: "prefix l k \<Longrightarrow> prefix (placed l) (placed k)"
  by (auto simp: prefix_def placed_append)

lemma length_placed [simp]: "length (placed l) = length l"
  by (simp add: placed_def)

lemma placed_numbered: "placed (map le_Command l) = numbered l"
  by (rule nth_equalityI) (simp_all add: placed_def)

lemma bc_turnD:
  assumes "bc_turn s p submitted outs s'"
  shows "prefix (bc_log s) (bc_log s')"
    and "bc_position s' = (bc_position s)(p := bc_position s p + length outs)"
    and "bc_position s' p \<le> length (bc_log s')"
    and "outs = drop (bc_position s p) (take (bc_position s' p) (placed (bc_log s')))"
  using assms unfolding bc_turn_def by blast+

text \<open>
  What the specification promises: the deliveries of a server since its last restart are the log
  from its start, and whatever has been delivered at a place is the entry of the log there.
\<close>

fun outs_after :: "int \<Rightarrow> broadcast_event \<Rightarrow> (Command option \<times> int) list \<Rightarrow> (Command option \<times> int) list" where
  "outs_after p (Turn q submitted outs) old = (if q = p then old @ outs else old)"
| "outs_after p (Again q) old = (if q = p then [] else old)"

fun event_outs :: "broadcast_event \<Rightarrow> (Command option \<times> int) list" where
  "event_outs (Turn q submitted outs) = outs"
| "event_outs (Again q) = []"

definition bc_in_order :: "(int \<Rightarrow> (Command option \<times> int) list) \<Rightarrow> broadcast \<Rightarrow> bool" where
  "bc_in_order out s \<longleftrightarrow> (\<forall>p. bc_position s p \<le> length (bc_log s) \<and> out p = take (bc_position s p) (placed (bc_log s)))"

lemma take_prefix: "prefix l k \<Longrightarrow> n \<le> length l \<Longrightarrow> take n k = take n l"
  by (auto simp: prefix_def)

lemma bc_turn_in_order:
  assumes "bc_turn s q submitted outs s'" and "bc_in_order out s"
  shows "bc_in_order (\<lambda>p. outs_after p (Turn q submitted outs) (out p)) s'"
proof -
  note st = bc_turnD [OF assms(1)]
  have pre: "prefix (placed (bc_log s)) (placed (bc_log s'))" and len: "length (bc_log s) \<le> length (bc_log s')"
    using st(1) by (simp_all add: placed_prefix prefix_length_le)
  have old: "bc_position s p \<le> length (bc_log s)" "out p = take (bc_position s p) (placed (bc_log s'))" for p
    using assms(2) take_prefix [OF pre, of "bc_position s p"] by (simp_all add: bc_in_order_def)
  have "bc_position s' p \<le> length (bc_log s') \<and>
      outs_after p (Turn q submitted outs) (out p) = take (bc_position s' p) (placed (bc_log s'))" for p
  proof (cases "p = q")
    case True
    have le: "bc_position s q \<le> bc_position s' q" unfolding st(2) by simp
    have "out q = take (bc_position s q) (take (bc_position s' q) (placed (bc_log s')))"
      using old(2) [of q] le by (simp add: min_absorb1)
    then have "out q @ outs = take (bc_position s' q) (placed (bc_log s'))"
      using st(4) append_take_drop_id by metis
    with st(3) True show ?thesis by (simp only: outs_after.simps if_True simp_thms)
  next
    case False
    then have "bc_position s' p = bc_position s p" using st(2) by simp
    with False old(1,2) [of p] len show ?thesis by simp
  qed
  then show ?thesis by (simp add: bc_in_order_def)
qed

lemma bc_step_in_order:
  assumes "bc_step s ev s'" and "bc_in_order out s"
  shows "bc_in_order (\<lambda>p. outs_after p ev (out p)) s'"
proof (cases ev)
  case (Turn q submitted outs)
  with assms show ?thesis using bc_turn_in_order by simp
next
  case (Again q)
  with assms show ?thesis by (auto simp: bc_in_order_def)
qed

theorem bc_total_order:
  assumes "runs bc_step bc_init evs s"
  shows "fold (outs_after p) evs [] = take (bc_position s p) (placed (bc_log s))"
proof -
  have "runs bc_step t evs s \<Longrightarrow> bc_in_order out t \<Longrightarrow> bc_in_order (\<lambda>p. fold (outs_after p) evs (out p)) s" for t out
  proof (induction arbitrary: out rule: runs.induct)
    case (runs_cons s ev s1 evs s2)
    from runs_cons.IH [OF bc_step_in_order [OF runs_cons.hyps(1) runs_cons.prems]] show ?case by simp
  qed simp
  from this [OF assms, of "\<lambda>_. []"] show ?thesis by (simp add: bc_in_order_def bc_init_def placed_def)
qed

lemma bc_log_grows: "runs bc_step s evs s' \<Longrightarrow> prefix (bc_log s) (bc_log s')"
proof (induction rule: runs.induct)
  case (runs_cons s ev s1 evs s2)
  then have "prefix (bc_log s) (bc_log s1)" by (cases ev) (auto dest: bc_turnD(1))
  then show ?case using runs_cons.IH by (rule prefix_order.trans)
qed simp

theorem bc_outs_in_log:
  "runs bc_step s evs s' \<Longrightarrow> ev \<in> set evs \<Longrightarrow> set (event_outs ev) \<subseteq> set (placed (bc_log s'))"
proof (induction rule: runs.induct)
  case (runs_cons s e s1 evs s2)
  show ?case
  proof (cases "ev = e")
    case True
    have "set (event_outs e) \<subseteq> set (placed (bc_log s1))"
    proof (cases e)
      case (Turn q submitted outs)
      then have "bc_turn s q submitted outs s1" using runs_cons.hyps(1) by simp
      from bc_turnD(4) [OF this] have "set outs \<subseteq> set (placed (bc_log s1))"
        by (metis in_set_dropD in_set_takeD subsetI)
      with Turn show ?thesis by simp
    qed simp
    also have "\<dots> \<subseteq> set (placed (bc_log s2))"
      using placed_prefix [OF bc_log_grows [OF runs_cons.hyps(2)]] by (rule set_mono_prefix)
    finally show ?thesis using True by simp
  qed (use runs_cons in auto)
qed simp

section \<open>The cluster refines it\<close>

fun observe :: "int \<times> label \<Rightarrow> broadcast_event" where
  "observe (p, l) = (if restarts l then Again p else Turn p (submission l) (delivery l))"

text \<open>The log of the specification is safe: it has been committed by some server at some time.\<close>

definition safe_log :: "'s network \<Rightarrow> Command option list \<Rightarrow> bool" where
  "safe_log N cs \<longleftrightarrow> (\<exists>u l n. safe_upto N u l n \<and> cs = map le_Command (take n l))"

definition represents :: "'s deps \<Rightarrow> int set \<Rightarrow> 's network \<Rightarrow> broadcast \<Rightarrow> bool" where
  "represents D ids N s \<longleftrightarrow> reach D ids N \<and> safe_log N (bc_log s) \<and>
     (\<forall>p \<in> ids. prefix (map le_Command (committed (net_cm N p))) (bc_log s)) \<and>
     mset (bc_log s) \<subseteq># bc_submitted s \<and> bc_submitted s = submissions ids N \<and>
     (\<forall>p \<in> ids. bc_position s p = length (delivered N p))"

lemma safe_log_Nil: "safe_log N []"
  unfolding safe_log_def safe_upto_def by (intro exI [of _ 0] exI [of _ "[]"]) simp

lemma represents_init: "net_init ids N \<Longrightarrow> represents D ids N bc_init"
  using submissions_init [of ids N]
  by (auto simp: represents_def bc_init_def net_init_def fresh_cm_def committed_def delivered_def
      intro!: reach_init safe_log_Nil)

lemma safe_log_after: "net_move D ids N p l cm' \<Longrightarrow> safe_log N cs \<Longrightarrow> safe_log (net_after p l cm' N) cs"
  unfolding safe_log_def by (blast intro: safe_upto_after)

lemma safe_log_prefix:
  assumes "reach D ids N" and "safe_log N cs" and "safe_log N cs'" and "length cs \<le> length cs'"
  shows "prefix cs cs'"
proof -
  obtain u l n where 1: "safe_upto N u l n" "cs = map le_Command (take n l)"
    using assms(2) by (auto simp: safe_log_def)
  obtain u' l' n' where 2: "safe_upto N u' l' n'" "cs' = map le_Command (take n' l')"
    using assms(3) by (auto simp: safe_log_def)
  have n: "n \<le> n'"
    using assms(4) safe_upto_length [OF 1(1)] safe_upto_length [OF 2(1)] by (simp add: 1(2) 2(2) min_absorb2)
  have "safe_upto N u' l' n" using 2(1) n unfolding safe_upto_def by (metis le_zero_eq min.absorb1 order_trans take_take)
  then have "take n l = take n l'" by (rule safe_agree [OF assms(1) 1(1)])
  also have "\<dots> = take n (take n' l')" using n by (simp add: min_absorb1)
  finally have "prefix (take n l) (take n' l')" by (metis take_is_prefix)
  then show ?thesis unfolding 1(2) 2(2) by (rule map_mono_prefix)
qed

lemma committed_safe_log:
  assumes "reach D ids N" and "p \<in> ids"
  shows "safe_log N (map le_Command (committed (net_cm N p)))"
  using reach_commits_safe [OF assms(1)] assms(2)
  unfolding commits_safe_def safe_log_def committed_def commit_len_def by blast

text \<open>What is committed at a server is kept by every step but a restart of the server.\<close>

lemma committed_kept:
  assumes "net_move D ids N p l cm'" and "q = p \<Longrightarrow> \<not> restarts l"
  shows "prefix (committed (net_cm N q)) (committed (net_cm (net_after p l cm' N) q))"
proof (cases "q = p")
  case True
  have "agreed_step D (net_cm N p) l cm'"
    using net_moveD(5) [OF assms(1)] move_agrees [OF assms(1)] assms(2) True
    by (simp add: agreed_step_def prompt_step_def)
  note feed = agreed_step_feed [OF reach_delivered(3) [OF net_moveD(1,2) [OF assms(1)]] this]
  have "take (nat (cm_commitIndex (net_cm N p) + 1)) (committed cm') = committed (net_cm N p)"
    using take_committed [OF feed(3)] feed(4) by simp
  with True show ?thesis by (metis net_after_simps(1) take_is_prefix)
qed simp

lemma longest_log:
  fixes f :: "int \<Rightarrow> nat"
  assumes "finite ids" and "p \<in> ids"
  obtains r where "r \<in> ids" and "\<And>q. q \<in> ids \<Longrightarrow> f q \<le> f r"
proof -
  have "Max (f ` ids) \<in> f ` ids" using assms by (intro Max_in) auto
  then obtain r where "r \<in> ids" "f r = Max (f ` ids)" by auto
  with that assms(1) show thesis by (metis Max_ge finite_imageI imageI)
qed

lemma delivered_placed:
  assumes "reach D ids N" and "p \<in> ids" and "prefix (map le_Command (committed (net_cm N p))) log"
  shows "delivered N p = take (length (delivered N p)) (placed log)" and "length (delivered N p) \<le> length log"
proof -
  let ?n = "length (delivered N p)" and ?c = "map le_Command (committed (net_cm N p))"
  note d = reach_delivered [OF assms(1,2)]
  have len: "length ?c = commit_len (net_cm N p)"
    using d(3) by (simp add: committed_def commit_len_def log_ok_def min_absorb2 nat_le_iff)
  then show "?n \<le> length log" using d(2) prefix_length_le [OF assms(3)] by simp
  have "take ?n (placed log) = take ?n (placed ?c)"
    using take_prefix [OF placed_prefix [OF assms(3)]] d(2) len by simp
  also have "\<dots> = take ?n (numbered (committed (net_cm N p)))" by (simp add: placed_numbered)
  also have "\<dots> = take ?n (numbered (cm_log (net_cm N p)))"
    using d(2) by (simp add: take_numbered committed_def commit_len_def min_absorb1)
  finally show "delivered N p = take ?n (placed log)" using d(1) by simp
qed

text \<open>A log that contains the old one and all that is committed after a step.\<close>

lemma next_log:
  assumes move: "net_move D ids N p l cm'" and rep: "represents D ids N s"
  defines "N' \<equiv> net_after p l cm' N"
  obtains log where "prefix (bc_log s) log" and "safe_log N' log"
    and "\<And>q. q \<in> ids \<Longrightarrow> prefix (map le_Command (committed (net_cm N' q))) log"
    and "log = bc_log s \<or> (\<exists>r \<in> ids. log = map le_Command (committed (net_cm N' r)))"
proof -
  note m = net_moveD [OF move]
  have reach': "reach D ids N'" using m(7) by (simp add: N'_def)
  let ?c = "\<lambda>q. map le_Command (committed (net_cm N' q))"
  obtain r where r: "r \<in> ids" "\<And>q. q \<in> ids \<Longrightarrow> length (?c q) \<le> length (?c r)"
    using longest_log [OF reach_finite [OF m(1,2)] m(2), of "\<lambda>q. length (?c q)"] by blast
  have safe: "safe_log N' (bc_log s)" "\<And>q. q \<in> ids \<Longrightarrow> safe_log N' (?c q)"
    using rep safe_log_after [OF move] committed_safe_log [OF reach'] by (auto simp: represents_def N'_def)
  note pre = safe_log_prefix [OF reach']
  show thesis
  proof (cases "length (bc_log s) \<le> length (?c r)")
    case True
    show thesis
      by (rule that [OF pre [OF safe(1) safe(2) [OF r(1)] True] safe(2) [OF r(1)]
            pre [OF safe(2) safe(2) [OF r(1)] r(2)]]) (use r(1) in auto)
  next
    case False
    have "length (?c q) \<le> length (bc_log s)" if "q \<in> ids" for q using r(2) [OF that] False by simp
    then show thesis by (intro that [OF _ safe(1) pre [OF safe(2) safe(1)]]) auto
  qed
qed

lemma turn_square:
  assumes rep: "represents D ids N s" and move: "net_move D ids N p l cm'" and l: "\<not> restarts l"
  defines "N' \<equiv> net_after p l cm' N"
  shows "\<exists>s'. bc_turn s p (submission l) (delivery l) s' \<and> represents D ids N' s'"
proof -
  note m = net_moveD [OF move]
  have reach': "reach D ids N'" using m(7) by (simp add: N'_def)
  obtain log where grows: "prefix (bc_log s) log" and safe: "safe_log N' log"
    and all: "\<And>q. q \<in> ids \<Longrightarrow> prefix (map le_Command (committed (net_cm N' q))) log"
    and which: "log = bc_log s \<or> (\<exists>r \<in> ids. log = map le_Command (committed (net_cm N' r)))"
    using next_log [OF move rep] unfolding N'_def by blast
  have subs: "submissions ids N' = bc_submitted s + submission l"
    using submissions_after [OF reach_finite [OF m(1,2)] m(2), of l cm' N] rep by (simp add: N'_def represents_def)
  have taken: "mset log \<subseteq># submissions ids N'"
  proof (cases "log = bc_log s")
    case True
    then show ?thesis using rep unfolding subs represents_def
      by (metis mset_subset_eq_add_left subset_mset.order_trans)
  next
    case False
    then obtain r where r: "r \<in> ids" "log = map le_Command (committed (net_cm N' r))" using which by blast
    have "commands (committed (net_cm N' r)) \<subseteq># submissions ids N'"
      unfolding committed_def using commands_take log_was_submitted [OF reach' r(1)] by (rule subset_mset.order_trans)
    then show ?thesis by (simp add: r(2) commands_def)
  qed
  let ?pos = "(bc_position s)(p := bc_position s p + length (delivery l))"
  have len: "?pos q = length (delivered N' q)" if "q \<in> ids" for q
    using rep l that by (auto simp: represents_def N'_def delivered_after)
  note d = delivered_placed [OF reach' m(2) all [OF m(2)]]
  have "delivered N' p = delivered N p @ delivery l" using l by (simp add: N'_def delivered_after)
  then have outs: "delivery l = drop (length (delivered N p)) (take (length (delivered N' p)) (placed log))"
    using d(1) by (metis append_eq_conv_conj)
  define s' where "s' = \<lparr>bc_log = log, bc_submitted = submissions ids N', bc_position = ?pos\<rparr>"
  have "bc_turn s p (submission l) (delivery l) s'"
    unfolding bc_turn_def
  proof (intro conjI)
    show "delivery l = drop (bc_position s p) (take (bc_position s' p) (placed (bc_log s')))"
      using outs len [OF m(2)] rep m(2) by (simp add: s'_def represents_def)
    show "bc_position s' p \<le> length (bc_log s')" using d(2) len [OF m(2)] by (simp add: s'_def)
  qed (use grows taken subs in \<open>simp_all add: s'_def\<close>)
  moreover have "represents D ids N' s'"
    using reach' all safe taken len by (auto simp: represents_def s'_def)
  ultimately show ?thesis by blast
qed

lemma again_square:
  assumes rep: "represents D ids N s" and move: "net_move D ids N p l cm'" and l: "restarts l"
  shows "represents D ids (net_after p l cm' N) (s\<lparr>bc_position := (bc_position s)(p := 0)\<rparr>)"
proof -
  note m = net_moveD [OF move]
  have "cm_commitIndex cm' = -1"
    using step_restarts [OF _ l] m(5) by (auto simp: prompt_step_def started_def)
  then have "prefix (map le_Command (committed (net_cm (net_after p l cm' N) q))) (bc_log s)" if "q \<in> ids" for q
    using rep that by (simp add: represents_def committed_def)
  moreover have "submission l = {#}" using l by (cases l) auto
  moreover have "safe_log (net_after p l cm' N) (bc_log s)"
    using rep safe_log_after [OF move] by (simp add: represents_def)
  ultimately show ?thesis
    using rep m(7) l submissions_after [OF reach_finite [OF m(1,2)] m(2), of l cm' N]
    by (auto simp: represents_def delivered_after)
qed

lemma refinement_square:
  assumes rep: "represents D ids N s" and step: "net_step D ids N pl N'"
  shows "\<exists>s'. bc_step s (observe pl) s' \<and> represents D ids N' s'"
proof -
  obtain p l where pl: "pl = (p, l)" by (cases pl)
  obtain cm' where move: "net_move D ids N p l cm'" and N': "N' = net_after p l cm' N"
    using step rep by (auto simp: net_step_def net_move_def represents_def pl)
  show ?thesis
    using turn_square [OF rep move] again_square [OF rep move] by (cases "restarts l") (auto simp: pl N')
qed

interpretation cluster: simulation "net_step D ids" bc_step observe "represents D ids"
  for D :: "'s deps" and ids :: "int set"
  by unfold_locales (rule refinement_square)

end
