(* ===== verification/Raft_Bounds.thy ===== *)
theory Raft_Bounds
  imports Raft_Safety
begin

text \<open>
  The indices of the cluster stay in range: what a leader keeps of its followers never leaves
  its log, so the slices it takes to build a request are always there.
\<close>

lemma RequestVote_next:
  "RequestVoteHelper D now req cm = Inr (cm', reply) \<Longrightarrow> cm_nextIndex cm' = cm_nextIndex cm"
  by (auto simp: RequestVoteHelper_def Let_def becomeFollower_def spawn_def
      dest!: persistToStorage_frame split: if_splits)

lemma AppendEntries_next:
  "AppendEntriesHelper D now req cm = Inr (cm', reply) \<Longrightarrow> cm_nextIndex cm' = cm_nextIndex cm"
  by (auto simp: AppendEntriesHelper_def Let_def becomeFollower_def spawn_def
      dest!: persistToStorage_frame advanceCommit_frame split: if_splits)

text \<open>The next index that a reply gives a peer.\<close>

definition reply_next :: "LogEntry list \<Rightarrow> int \<Rightarrow> nat \<Rightarrow> AppendEntriesResponse \<Rightarrow> int" where
  "reply_next log ni n reply =
     (if aer_Success reply then ni + int n
      else if aer_ConflictTerm reply \<ge> 0 \<and> lastIndexOfTerm log (aer_ConflictTerm reply) (length log) \<ge> 0
      then lastIndexOfTerm log (aer_ConflictTerm reply) (length log) + 1
      else aer_ConflictIndex reply)"

lemma handleAEReply_next:
  assumes "handleAEReply now saved p ni n reply cm = Inr cm'"
  shows "cm_nextIndex cm' = cm_nextIndex cm \<or>
    cm_nextIndex cm' = fmupd p (reply_next (cm_log cm) ni n reply) (cm_nextIndex cm)"
  using assms
  by (auto simp: handleAEReply_def Let_def reply_next_def dest!: signal_frame split: if_splits)

lemma step_next:
  assumes "prompt_step D cm l cm'" and "timely cm l" and "cm_state cm' = Leader"
  obtains (same) "cm_state cm = Leader" and "cm_nextIndex cm' = cm_nextIndex cm"
  | (reset) "\<And>q. q \<in> set (cm_peerIds cm) \<Longrightarrow> fm_index 0 (cm_nextIndex cm') q = int (length (cm_log cm))"
  | (reply) saved peer ni n reply where "l = L_AEReply saved peer ni n reply" and "cm_state cm = Leader"
      and "cm_nextIndex cm' = fmupd peer (reply_next (cm_log cm) ni n reply) (cm_nextIndex cm)"
proof -
  note t = step_to_leader [OF assms(1,3)]
  have lead: "cm_state cm = Leader" if "l \<noteq> L_StartLeader" using t(2) that by blast
  from assms(1) show thesis
  proof (cases rule: net_step_core)
    case (vote now req reply)
    with lead RequestVote_next that(1) show thesis by blast
  next
    case (append now req reply)
    with lead AppendEntries_next that(1) show thesis by blast
  next
    case (submit command)
    with that(1) show thesis by (simp add: core_iff submitted_entry_def)
  next
    case (elect now)
    with assms(3) show thesis by (simp add: core_iff)
  next
    case (reply now saved el peer reply)
    then have "cm_nextIndex cm' = cm_nextIndex (startLeader cm)"
      using lead by (simp add: core_iff handleVoteReply_def)
    with that(2) startLeader_indexes(1) show thesis by metis
  next
    case lead: lead
    then have "cm_nextIndex cm' = cm_nextIndex (startLeader cm)" by (simp add: core_iff)
    with that(2) startLeader_indexes(1) show thesis by metis
  next
    case (appended now saved peer ni n reply)
    have "cm_state cm = Leader" using lead appended(1) by simp
    with handleAEReply_next [OF appended(2)] that(1) that(3) [OF appended(1)] show thesis
      by (auto simp: finished_def)
  next
    case stop
    with assms(3) show thesis by (simp add: core_iff)
  next
    case restart
    with assms(3) show thesis by simp
  next
    case same
    with assms(3) that(1) show thesis by (simp add: core_iff)
  qed
qed

lemma step_log_length:
  assumes "prompt_step D cm l cm'" and "cm_state cm' = Leader"
  shows "length (cm_log cm) \<le> length (cm_log cm')"
  using assms(1)
proof (cases rule: step_log)
  case (append now req reply)
  then show ?thesis using AppendEntriesHelper_frame(5) [OF append(2)] assms(2)
    AppendEntriesHelper_log(1) [OF append(2)] by simp
qed simp_all

text \<open>What the servers of the cluster answer.\<close>

lemma AppendEntries_conflict:
  "AppendEntriesHelper D now req cm = Inr (cm', reply) \<Longrightarrow>
   aer_ConflictIndex reply = 0 \<and> aer_ConflictTerm reply = 0"
  by (cases "cm_state cm = Dead")
    (simp_all add: AppendEntriesHelper_reply, auto simp: AppendEntriesHelper_def zero_AppendEntriesResponse_def)

lemma reach_conflict:
  assumes "reach D ids N" and "L_AppendEntries req reply \<in> set (net_hist N s)"
  shows "aer_ConflictIndex reply = 0 \<and> aer_ConflictTerm reply = 0"
  using assms
proof (induction rule: reach_induct)
  case (step N p l cm')
  then show ?case using net_moveD(5) [OF step.hyps] AppendEntries_conflict
    by (fastforce simp: prompt_step_def elim: AppendEntries_stepE split: if_splits)
qed (simp add: net_init_def)

definition next_ok :: "'s ConsensusModule \<Rightarrow> bool" where
  "next_ok cm \<longleftrightarrow> (\<forall>q \<in> set (cm_peerIds cm).
     0 \<le> fm_index 0 (cm_nextIndex cm) q \<and> fm_index 0 (cm_nextIndex cm) q \<le> int (length (cm_log cm)))"

lemma reach_next:
  assumes "reach D ids N" and "p \<in> ids" and "cm_state (net_cm N p) = Leader"
  shows "next_ok (net_cm N p)"
  using assms
proof (induction rule: reach_induct)
  case (step N q l cm')
  show ?case
  proof (cases "q = p")
    case True
    note move = net_moveD [OF step.hyps, unfolded True]
    let ?cm = "net_cm N p"
    have lead: "cm_state cm' = Leader" using step.prems True by simp
    have t: "cm_currentTerm cm' = cm_currentTerm ?cm" using step_to_leader(1) [OF move(5) lead] .
    have peers: "cm_peerIds cm' = cm_peerIds ?cm"
      using move(5) cm_step_identity by (auto simp: prompt_step_def)
    have len: "length (cm_log ?cm) \<le> length (cm_log cm')" using move(5) lead by (rule step_log_length)
    from move(5,3) lead have "next_ok cm'"
    proof (cases rule: step_next)
      case same
      then show ?thesis using step.IH step.prems(1) peers len by (fastforce simp: next_ok_def)
    next
      case reset
      then show ?thesis using peers len by (simp add: next_ok_def)
    next
      case (reply saved peer ni n reply)
      have old: "next_ok ?cm" using step.IH step.prems(1) reply(2) by blast
      have saved: "saved = cm_currentTerm ?cm" using move(3) reply(1) by simp
      obtain req where req: "L_AppendEntries req reply \<in> set (net_hist N peer)" "ae_Term req = saved"
        "ae_PrevLogIndex req = ni - 1" "length (ae_Entries req) = n"
        using move(4) reply(1) by auto
      have "led_log N saved = cm_log ?cm"
        using reach_leader_log [OF move(1,2) reply(2)] saved by simp
      then have "request_of_log req (cm_log ?cm)"
        using reach_append_request(2) [OF move(1) req(1)] req(2) by simp
      then have "0 \<le> ni" "ni + int n \<le> int (length (cm_log ?cm))"
        using req(3,4) by (auto simp: request_of_log_def)
      moreover have "lastIndexOfTerm (cm_log ?cm) u (length (cm_log ?cm)) + 1 \<le> int (length (cm_log ?cm))" for u
        using lastIndexOfTerm_spec [of "length (cm_log ?cm)" "cm_log ?cm" u] by auto
      ultimately have "0 \<le> reply_next (cm_log ?cm) ni n reply"
          "reply_next (cm_log ?cm) ni n reply \<le> int (length (cm_log ?cm))"
        using reach_conflict [OF move(1) req(1)] by (auto simp: reply_next_def)
      with old reply(3) peers len show ?thesis by (fastforce simp: next_ok_def)
    qed
    with True show ?thesis by simp
  qed (use step in simp)
qed (auto simp: net_init_def fresh_cm_def)

theorem leader_requests_return:
  assumes "reach D ids N" and "p \<in> ids" and "cm_state (net_cm N p) = Leader" and "q \<in> ids" and "q \<noteq> p"
  shows "\<exists>req ni. appendEntries_args t q (net_cm N p) = Inr (req, ni) \<and> request_of_log req (cm_log (net_cm N p))"
proof -
  have "q \<in> set (cm_peerIds (net_cm N p))" using reach_ids(5) [OF assms(1,2)] assms(4,5) by simp
  with reach_next [OF assms(1-3)]
  have "0 \<le> fm_index 0 (cm_nextIndex (net_cm N p)) q"
    "fm_index 0 (cm_nextIndex (net_cm N p)) q \<le> int (length (cm_log (net_cm N p)))"
    by (simp_all add: next_ok_def)
  from appendEntries_args_ok [OF this, of t] appendEntries_args_request(1) show ?thesis by blast
qed

end
