(* ===== verification/Raft_Alive.thy ===== *)
theory Raft_Alive
  imports Raft_Bounds
begin

text \<open>
  No server of the cluster panics: what is submitted can be stored, the channels are open until
  \<open>Stop\<close>, and every index and slice of a handler is in range.
\<close>

section \<open>Channels and logs\<close>

lemma signal_returns: "\<not> cm_newCommitClosed cm \<Longrightarrow> \<exists>cm'. signal_newCommitReady cm = Inr cm'"
  by (simp add: signal_newCommitReady_def)

lemma step_open:
  assumes "cm_step D cm l cm'" and "l \<noteq> L_Stop" and "\<not> cm_newCommitClosed cm"
  shows "\<not> cm_newCommitClosed cm'"
  using assms
  by (cases rule: cm_step.cases)
    (auto simp: RequestVoteHelper_def AppendEntriesHelper_def ForwardLeaderHelper_def Submit_def Let_def
      forwardToLeader_def electionTick_def startElection_def handleVoteReply_def startLeader_def
      leaderSendAEs_def handleAEReply_def handleForwardReply_def after_tick_def commitChanSender_def
      signal_newCommitReady_def advanceCommit_def finished_def spawn_def becomeFollower_def
      dest!: persistToStorage_frame dest: restart_started(1) simp: started_def split: if_splits prod.splits)

lemma persisted_encodable:
  "persistToStorage D cm = Inr cm' \<Longrightarrow>
   (\<exists>store. cm' = cm\<lparr>cm_storage := store\<rparr>) \<and> log_encodable (cm_log cm)"
  by (auto simp: persistToStorage_def SetState_def Let_def split: prod.splits if_splits)

lemma step_encodable:
  assumes "cm_step D cm l cm'" and "prompt cm l" and "log_encodable (cm_log cm)"
  shows "log_encodable (cm_log cm')"
  using assms
proof (cases rule: cm_step.cases)
  case (AppendEntries now req reply)
  with assms(3) show ?thesis
    by (auto simp: AppendEntriesHelper_def Let_def dest!: persisted_encodable dest: advanceCommit_frame
        split: if_splits)
next
  case (RequestVote now req reply)
  with assms(3) RequestVoteHelper_frame(3) show ?thesis by metis
next
  case (SubmitAppends command)
  with assms(2,3) show ?thesis by (auto simp: log_encodable_def)
next
  case (Restart open_db)
  with assms(2,3) show ?thesis by simp
qed (auto simp: ForwardLeaderHelper_def Submit_def forwardToLeader_def electionTick_def
    handleVoteReply_frame leaderCommit_frame handleForwardReply_frame commitChanSender_frame Stop_def
    dest!: persisted_encodable dest: leaderCommit_frame handleForwardReply_frame commitChanSender_frame
    split: if_splits prod.splits)

section \<open>In the cluster\<close>

definition not_stopped :: "'s network \<Rightarrow> int \<Rightarrow> bool" where
  "not_stopped N p \<longleftrightarrow> L_Stop \<notin> set (net_hist N p)"

lemma reach_open: "reach D ids N \<Longrightarrow> p \<in> ids \<Longrightarrow> not_stopped N p \<Longrightarrow> \<not> cm_newCommitClosed (net_cm N p)"
proof (induction rule: reach_induct)
  case (step N q l cm')
  then show ?case using net_moveD(5) [OF step.hyps] step_open [of D "net_cm N q" l cm']
    by (auto simp: not_stopped_def prompt_step_def split: if_splits)
qed (simp add: net_init_def fresh_cm_def)

lemma reach_encodable: "reach D ids N \<Longrightarrow> p \<in> ids \<Longrightarrow> log_encodable (cm_log (net_cm N p))"
proof (induction rule: reach_induct)
  case (step N q l cm')
  then show ?case using net_moveD(5) [OF step.hyps] step_encodable [of D "net_cm N q" l cm']
    by (auto simp: prompt_step_def)
qed (simp add: net_init_def fresh_cm_def log_encodable_def)

text \<open>Every request that a server has sent can be stored.\<close>

lemma sent_encodable:
  assumes "reach D ids N" and "L_SendAE q req \<in> set (net_hist N p)"
  shows "log_encodable (ae_Entries req)"
  using assms
proof (induction rule: reach_induct)
  case (step N r l cm')
  show ?case
  proof (cases "L_SendAE q req \<in> set (net_hist N p)")
    case False
    then have "l = L_SendAE q req" and "r = p" using step.prems by (auto split: if_splits)
    then obtain saved ni where "appendEntries_args saved q (net_cm N p) = Inr (req, ni)"
      using net_moveD(5) [OF step.hyps] by (auto simp: prompt_step_def elim: cm_step.cases)
    then have "request_of_log req (cm_log (net_cm N p))" by (rule appendEntries_args_request)
    moreover have "log_encodable (cm_log (net_cm N p))"
      using reach_encodable [OF net_moveD(1,2) [OF step.hyps]] \<open>r = p\<close> by simp
    ultimately show ?thesis
      unfolding request_of_log_def by (metis log_encodable_take log_encodable_drop)
  qed (rule step.IH)
qed (simp add: net_init_def)

section \<open>The handlers return\<close>

lemma RequestVoteHelper_returns:
  assumes "deps_ok D" and "log_encodable (cm_log cm)"
  shows "returns (RequestVoteHelper D now req cm)"
proof (cases "cm_state cm = Dead")
  case False
  let ?cm1 = "if rv_Term req > cm_currentTerm cm then becomeFollower now (rv_Term req) cm else cm"
  let ?cm2 = "if vote_cond req ?cm1
     then ?cm1\<lparr>cm_votedFor := rv_CandidateId req, cm_electionResetEvent := now\<rparr> else ?cm1"
  have "cm_log ?cm2 = cm_log cm" by simp
  then obtain cm3 where "persistToStorage D ?cm2 = Inr cm3"
    using persistToStorage_returns [OF assms(1), of ?cm2] assms(2) by metis
  with False show ?thesis by (simp add: RequestVoteHelper_def Let_def returns_iff)
qed (simp add: RequestVoteHelper_def returns_iff)

lemma AppendEntriesHelper_total:
  assumes "deps_ok D" and "log_encodable (cm_log cm)" and "log_encodable (ae_Entries req)"
    and "\<not> cm_newCommitClosed cm" and "-1 \<le> ae_PrevLogIndex req"
  shows "returns (AppendEntriesHelper D now req cm)"
proof (cases "cm_state cm = Dead \<or> ae_Term req < cm_currentTerm cm")
  case True
  obtain cm1 where "persistToStorage D (cm\<lparr>cm_leaderid := ae_LeaderId req\<rparr>) = Inr cm1"
    using persistToStorage_returns [OF assms(1)] assms(2) by fastforce
  with True show ?thesis by (auto simp: AppendEntriesHelper_def Let_def returns_iff)
next
  case False
  then have "cm_state cm \<noteq> Dead" and "cm_currentTerm cm \<le> ae_Term req" by simp_all
  from AppendEntriesHelper_returns [OF assms(1-3) this(1) assms(4,5) this(2) prevLogMatches_eq [OF assms(5)]]
  show ?thesis unfolding returns_iff by blast
qed

lemma handleAEReply_returns:
  assumes "\<not> cm_newCommitClosed cm" and "-1 \<le> cm_commitIndex cm"
  shows "returns (handleAEReply now saved p ni n reply cm)"
proof -
  let ?cm1 = "cm\<lparr>cm_nextIndex := fmupd p (ni + int n) (cm_nextIndex cm),
    cm_matchIndex := fmupd p (ni + int n - 1) (cm_matchIndex cm)\<rparr>"
  obtain ci where "leaderCommit ?cm1 = Inr ci"
    by (rule leaderCommit_cases [of ?cm1]) (use assms(2) in auto)
  with assms(1) show ?thesis
    by (simp add: handleAEReply_def Let_def returns_iff signal_newCommitReady_def)
qed

lemma Submit_returns:
  assumes "deps_ok D" and "log_encodable (cm_log cm)"
  shows "returns (Submit D (Some command) cm) \<longleftrightarrow>
    cm_state cm \<noteq> Leader \<or> action_encodable (cmd_Action command)"
proof -
  let ?cm1 = "cm\<lparr>cm_log := cm_log cm @ [\<lparr>le_Command = Some command, le_Term = cm_currentTerm cm\<rparr>]\<rparr>"
  have "returns (persistToStorage D ?cm1) \<longleftrightarrow> log_encodable (cm_log ?cm1)"
    using persistToStorage_returns [OF assms(1), of ?cm1] persisted_encodable [of D ?cm1]
    unfolding returns_iff by blast
  also have "\<dots> \<longleftrightarrow> action_encodable (cmd_Action command)"
    using assms(2) by (simp add: log_encodable_def)
  finally show ?thesis
    by (cases "persistToStorage D ?cm1") (auto simp: Submit_def)
qed

text \<open>All together, for a server that has not been stopped.\<close>

theorem handlers_return:
  assumes "reach D ids N" and "deps_ok D" and "p \<in> ids" and "not_stopped N p"
  shows "returns (RequestVoteHelper D now vreq (net_cm N p))"
    and "L_SendAE p areq \<in> set (net_hist N q) \<Longrightarrow>
      returns (AppendEntriesHelper D now areq (net_cm N p))"
    and "returns (handleAEReply now saved q ni n reply (net_cm N p))"
    and "returns (commitChanSender (net_cm N p))"
    and "returns (Submit D (Some command) (net_cm N p)) \<longleftrightarrow>
      cm_state (net_cm N p) \<noteq> Leader \<or> action_encodable (cmd_Action command)"
proof -
  note enc = reach_encodable [OF assms(1,3)] and cl = reach_open [OF assms(1,3,4)]
  note ok = reach_delivered(3) [OF assms(1,3)]
  show "returns (RequestVoteHelper D now vreq (net_cm N p))"
    using assms(2) enc by (rule RequestVoteHelper_returns)
  show "returns (AppendEntriesHelper D now areq (net_cm N p))"
    if "L_SendAE p areq \<in> set (net_hist N q)"
  proof -
    have "-1 \<le> ae_PrevLogIndex areq"
      using reach_sent_request [OF assms(1) that] by (auto simp: request_of_log_def)
    with AppendEntriesHelper_total [OF assms(2) enc sent_encodable [OF assms(1) that] cl] show ?thesis .
  qed
  show "returns (handleAEReply now saved q ni n reply (net_cm N p))"
    by (rule handleAEReply_returns) (use cl ok in \<open>auto simp: log_ok_def\<close>)
  show "returns (commitChanSender (net_cm N p))"
    using commitChanSender_returns [OF ok] by (simp add: returns_iff)
  show "returns (Submit D (Some command) (net_cm N p)) \<longleftrightarrow>
      cm_state (net_cm N p) \<noteq> Leader \<or> action_encodable (cmd_Action command)"
    by (rule Submit_returns [OF assms(2) enc])
qed

end
