(* ===== verification/Raft_Wellformed.thy ===== *)
theory Raft_Wellformed
  imports Raft_Alive
begin

text \<open>
  What the fields of a server hold in every state of the cluster: terms are positive once there
  has been an election, votes are for servers, entries carry terms of leaders.
\<close>

lemma running_term_step:
  assumes "prompt_step D cm l cm'" and "0 \<le> cm_currentTerm cm" and "running cm \<longrightarrow> 1 \<le> cm_currentTerm cm"
    and "running cm'"
  shows "1 \<le> cm_currentTerm cm'"
  using assms(4) unfolding running_def
proof
  assume "cm_state cm' = Candidate"
  with step_to_candidate [OF assms(1)] assms(2,3) show ?thesis by (auto simp: running_def)
next
  assume "cm_state cm' = Leader"
  note lead = step_to_leader [OF assms(1) this]
  have "running cm"
    using lead(2) assms(1) by (auto simp: running_def prompt_step_def)
  with lead(1) assms(3) show ?thesis by simp
qed

lemma reach_running_term: "reach D ids N \<Longrightarrow> p \<in> ids \<Longrightarrow> running (net_cm N p) \<Longrightarrow> 1 \<le> cm_currentTerm (net_cm N p)"
proof (induction rule: reach_induct)
  case (step N q l cm')
  note move = net_moveD [OF step.hyps]
  show ?case
  proof (cases "q = p")
    case True
    with running_term_step [OF move(5) reach_term [OF move(1,2)]] step show ?thesis by auto
  qed (use step in simp)
qed (simp add: net_init_def fresh_cm_def running_def)

lemma reach_led_pos: "reach D ids N \<Longrightarrow> (p, t) \<in> net_led N \<Longrightarrow> 1 \<le> t"
proof (induction rule: reach_induct)
  case (step N q l cm')
  note move = net_moveD [OF step.hyps]
  from step reach_running_term [OF move(7,2)] show ?case by (auto simp: running_def)
qed (simp add: net_init_def)

lemma reach_entry_term:
  assumes "reach D ids N" and "p \<in> ids" and "e \<in> set (cm_log (net_cm N p))"
  shows "1 \<le> le_Term e" and "le_Term e \<le> cm_currentTerm (net_cm N p)"
proof -
  have wf: "log_wf (net_logs N) (cm_currentTerm (net_cm N p)) (cm_log (net_cm N p))"
    using reach_log_wf(1) [OF assms(1,2)] .
  then show "le_Term e \<le> cm_currentTerm (net_cm N p)" using assms(3) by (simp add: log_wf_def)
  obtain k where "k < length (cm_log (net_cm N p))" "cm_log (net_cm N p) ! k = e"
    using assms(3) by (auto simp: in_set_conv_nth)
  with wf obtain lu where "net_logs N (le_Term e) = Some lu"
    unfolding log_wf_def log_led_def by blast
  then have "net_logs N (le_Term e) \<noteq> None" by simp
  then obtain q where "(q, le_Term e) \<in> net_led N" using reach_logs_led [OF assms(1)] by blast
  then show "1 \<le> le_Term e" by (rule reach_led_pos [OF assms(1)])
qed

text \<open>A vote is for a server of the cluster.\<close>

lemma step_votedFor:
  assumes "prompt_step D cm l cm'"
  shows "cm_votedFor cm' \<in> {-1, cm_id cm, cm_votedFor cm} \<or>
    (\<exists>req reply. l = L_RequestVote req reply \<and> cm_votedFor cm' = rv_CandidateId req)"
  using assms
proof (cases rule: net_step_core)
  case (vote now req reply)
  with RequestVoteHelper_vote [OF vote(2)] show ?thesis by (cases "rvr_VoteGranted reply") auto
next
  case (append now req reply)
  with AppendEntriesHelper_frame(6) [OF append(2)] show ?thesis by auto
next
  case (appended now saved peer ni n reply)
  with leaderCommit_frame [OF appended(2)] show ?thesis by auto
qed (auto simp: core_iff submitted_entry_def startElection_def Let_def handleVoteReply_vote)

lemma reach_votedFor: "reach D ids N \<Longrightarrow> p \<in> ids \<Longrightarrow> cm_votedFor (net_cm N p) \<in> insert (-1) ids"
proof (induction rule: reach_induct)
  case (step N q l cm')
  note move = net_moveD [OF step.hyps]
  show ?case
  proof (cases "q = p")
    case True
    from step_votedFor [OF move(5)] show ?thesis
    proof
      assume "\<exists>req reply. l = L_RequestVote req reply \<and> cm_votedFor cm' = rv_CandidateId req"
      then obtain req reply r where l: "l = L_RequestVote req reply" "cm_votedFor cm' = rv_CandidateId req"
        and sent: "L_SendVote q req \<in> set (net_hist N r)" using move(4) by auto
      have "r \<in> ids" using reach_outside [OF move(1), of r] sent by force
      moreover have "rv_CandidateId req = r" using reach_sent_vote [OF move(1) sent] by blast
      ultimately show ?thesis using True l by simp
    qed (use True step reach_ids(1) [OF move(1,2)] in auto)
  qed (use step in simp)
qed (auto simp: net_init_def fresh_cm_def)

end
