(* ===== verification/Raft_Progress.thy ===== *)
theory Raft_Progress
  imports Raft_Wellformed Raft_Validity
begin

text \<open>
  Progress: from every state in which a leader has no rival, some execution brings everything in
  its log to every server and delivers it there. The execution is built from heartbeats,
  exchanges with one peer at a time and turns of the commit senders.
\<close>

section \<open>Goroutines that stay\<close>

lemmas handler_defs =
  RequestVoteHelper_def AppendEntriesHelper_def ForwardLeaderHelper_def Submit_def forwardToLeader_def
  electionTick_def startElection_def handleVoteReply_def startLeader_def leaderSendAEs_def handleAEReply_def
  handleForwardReply_def after_tick_def commitChanSender_def signal_newCommitReady_def advanceCommit_def
  finished_def spawn_def becomeFollower_def pending_def Let_def

lemma step_sender:
  assumes "cm_step D cm l cm'" and "pending Go_CommitChanSender cm"
  shows "pending Go_CommitChanSender cm'"
  using assms
  by (cases rule: cm_step.cases)
    (auto simp: handler_defs Stop_def started_def dest!: persistToStorage_frame restart_started(1)
      split: if_splits prod.splits)

lemma step_ready:
  assumes "cm_step D cm l cm'" and "cm_lastApplied cm < cm_commitIndex cm \<longrightarrow> 0 < cm_newCommitReady cm"
  shows "cm_lastApplied cm' < cm_commitIndex cm' \<longrightarrow> 0 < cm_newCommitReady cm'"
  using assms
  by (cases rule: cm_step.cases)
    (auto simp: handler_defs Stop_def started_def dest!: persistToStorage_frame restart_started(1)
      split: if_splits prod.splits)

lemma step_alive:
  assumes "cm_step D cm l cm'" and "l \<noteq> L_Stop" and "cm_state cm \<noteq> Dead"
  shows "cm_state cm' \<noteq> Dead"
  using assms
  by (cases rule: cm_step.cases)
    (auto simp: handler_defs started_def dest!: persistToStorage_frame restart_started(1)
      split: if_splits prod.splits)

definition leader_loops :: "'s ConsensusModule \<Rightarrow> bool" where
  "leader_loops cm \<longleftrightarrow> (cm_state cm = Leader \<longrightarrow> pending Go_LeaderStart cm \<or> pending Go_LeaderLoop cm)"

lemma step_loops:
  assumes "cm_step D cm l cm'" and "leader_loops cm"
  shows "leader_loops cm'"
  using assms unfolding leader_loops_def
  by (cases rule: cm_step.cases)
    (auto simp: handler_defs Stop_def started_def dest!: persistToStorage_frame restart_started(1)
      split: if_splits prod.splits)

definition at_work :: "'s ConsensusModule \<Rightarrow> bool" where
  "at_work cm \<longleftrightarrow> pending Go_CommitChanSender cm \<and> leader_loops cm \<and>
     (cm_lastApplied cm < cm_commitIndex cm \<longrightarrow> 0 < cm_newCommitReady cm)"

lemma reach_at_work: "reach D ids N \<Longrightarrow> p \<in> ids \<Longrightarrow> at_work (net_cm N p)"
proof (induction rule: reach_induct)
  case (step N q l cm')
  have "cm_step D (net_cm N q) l cm'" using net_moveD(5) [OF step.hyps] by (simp add: prompt_step_def)
  from step_sender [OF this] step_loops [OF this] step_ready [OF this] step.IH [OF step.prems] show ?case
    by (auto simp: at_work_def)
qed (simp add: net_init_def fresh_cm_def at_work_def leader_loops_def)

lemma reach_alive: "reach D ids N \<Longrightarrow> p \<in> ids \<Longrightarrow> not_stopped N p \<Longrightarrow> cm_state (net_cm N p) \<noteq> Dead"
proof (induction rule: reach_induct)
  case (step N q l cm')
  then show ?case using net_moveD(5) [OF step.hyps] step_alive [of D "net_cm N q" l cm']
    by (auto simp: not_stopped_def prompt_step_def split: if_splits)
qed (simp add: net_init_def fresh_cm_def)

section \<open>The replies a leader handles\<close>

lemma accepted_reply:
  assumes run: "handleAEReply now (cm_currentTerm cm) q ni n reply cm = Inr cm'"
    and reply: "aer_Success reply" "aer_Term reply = cm_currentTerm cm"
    and lead: "cm_state cm = Leader" and ok: "log_ok cm"
  shows "cm_matchIndex cm' = fmupd q (ni + int n - 1) (cm_matchIndex cm)"
    and "cm_commitIndex cm \<le> cm_commitIndex cm'"
    and "cm_log cm \<noteq> [] \<Longrightarrow> committable cm' (length (cm_log cm) - 1) \<Longrightarrow>
      cm_commitIndex cm' = int (length (cm_log cm)) - 1"
proof -
  let ?cm1 = "cm\<lparr>cm_nextIndex := fmupd q (ni + int n) (cm_nextIndex cm),
    cm_matchIndex := fmupd q (ni + int n - 1) (cm_matchIndex cm)\<rparr>"
  obtain ci where ci: "leaderCommit ?cm1 = Inr ci" and cm': "cm_commitIndex cm' = ci"
    and m: "cm_matchIndex cm' = cm_matchIndex ?cm1"
    and same: "cm_log cm' = cm_log ?cm1" "cm_currentTerm cm' = cm_currentTerm ?cm1" "cm_peerIds cm' = cm_peerIds ?cm1"
    using run reply lead by (auto simp: handleAEReply_def Let_def dest!: signal_frame split: if_splits)
  show "cm_matchIndex cm' = fmupd q (ni + int n - 1) (cm_matchIndex cm)" using m by simp
  have com: "committable cm' i = committable ?cm1 i" for i
    by (simp only: committable_def matchCount_def majority_def m same)
  have "-1 \<le> cm_commitIndex ?cm1" using ok by (simp add: log_ok_def)
  then have "cm_commitIndex cm \<le> ci \<and> (cm_log cm \<noteq> [] \<longrightarrow> committable ?cm1 (length (cm_log cm) - 1) \<longrightarrow>
      ci = int (length (cm_log cm)) - 1)"
  proof (cases rule: leaderCommit_cases)
    case 1
    have "\<not> committable ?cm1 (length (cm_log cm) - 1)"
      if "cm_commitIndex cm < int (length (cm_log cm) - 1)" "cm_log cm \<noteq> []"
      using 1(2) [of "length (cm_log cm) - 1"] that by simp
    with 1(1) ci ok show ?thesis by (fastforce simp: log_ok_def)
  next
    case (2 i)
    have "\<not> committable ?cm1 (length (cm_log cm) - 1)" if "i < length (cm_log cm) - 1"
      using 2(5) [of "length (cm_log cm) - 1"] that by simp
    with 2(1-3) ci show ?thesis by fastforce
  qed
  then show "cm_commitIndex cm \<le> cm_commitIndex cm'"
    and "cm_log cm \<noteq> [] \<Longrightarrow> committable cm' (length (cm_log cm) - 1) \<Longrightarrow>
      cm_commitIndex cm' = int (length (cm_log cm)) - 1"
    by (simp_all add: com cm')
qed

lemma rejected_reply:
  assumes "handleAEReply now (cm_currentTerm cm) q ni n reply cm = Inr cm'"
    and "\<not> aer_Success reply" and "aer_Term reply = cm_currentTerm cm"
    and "aer_ConflictIndex reply = 0" and "aer_ConflictTerm reply = 0"
    and "cm_state cm = Leader" and "\<forall>e \<in> set (cm_log cm). le_Term e \<noteq> 0"
  shows "cm' = cm\<lparr>cm_nextIndex := fmupd q 0 (cm_nextIndex cm)\<rparr>"
  using assms lastIndexOfTerm_none [OF assms(7)] by (simp add: handleAEReply_def)

section \<open>Executions\<close>

text \<open>An execution without restarts in which nothing new is submitted.\<close>

definition leads_to :: "'s deps \<Rightarrow> int set \<Rightarrow> 's network \<Rightarrow> 's network \<Rightarrow> bool" where
  "leads_to D ids N N' \<longleftrightarrow> (\<exists>pls. runs (net_step D ids) N pls N' \<and> (\<forall>pl \<in> set pls. \<not> outside (snd pl))) \<and>
     set_mset (submissions ids N') \<subseteq> set_mset (submissions ids N)"

lemma leads_to_refl [simp]: "leads_to D ids N N"
  unfolding leads_to_def by (intro conjI exI [of _ "[]"]) auto

lemma leads_to_trans [trans]: "leads_to D ids N N1 \<Longrightarrow> leads_to D ids N1 N2 \<Longrightarrow> leads_to D ids N N2"
  unfolding leads_to_def
proof (elim exE conjE, intro conjI)
  fix pls1 pls2
  assume "runs (net_step D ids) N pls1 N1" "runs (net_step D ids) N1 pls2 N2"
    "\<forall>pl \<in> set pls1. \<not> outside (snd pl)" "\<forall>pl \<in> set pls2. \<not> outside (snd pl)"
  then show "\<exists>pls. runs (net_step D ids) N pls N2 \<and> (\<forall>pl \<in> set pls. \<not> outside (snd pl))"
    by (intro exI [of _ "pls1 @ pls2"]) (auto simp: runs_append)
qed (rule order_trans)

lemma move_step: "net_move D ids N p l cm' \<Longrightarrow> net_step D ids N (p, l) (net_after p l cm' N)"
  by (auto simp: net_move_def net_step_def)

lemma leads_to_move:
  assumes "net_move D ids N p l cm'" and "\<not> outside l" and "set_mset (submission l) \<subseteq> set_mset (submissions ids N)"
  shows "leads_to D ids N (net_after p l cm' N)"
  unfolding leads_to_def
proof
  show "\<exists>pls. runs (net_step D ids) N pls (net_after p l cm' N) \<and> (\<forall>pl \<in> set pls. \<not> outside (snd pl))"
    using assms(1,2) by (intro exI [of _ "[(p, l)]"]) (auto intro: move_step)
  note m = net_moveD(1,2) [OF assms(1)]
  show "set_mset (submissions ids (net_after p l cm' N)) \<subseteq> set_mset (submissions ids N)"
    using assms(3) by (simp add: submissions_after [OF reach_finite [OF m] m(2)])
qed

text \<open>
  Leader \<open>p\<close> of term \<open>t\<close> with log \<open>L\<close> has no rival: no server has been stopped and none is in a
  later term.
\<close>

definition unrivalled :: "'s deps \<Rightarrow> int set \<Rightarrow> int \<Rightarrow> int \<Rightarrow> LogEntry list \<Rightarrow> 's network \<Rightarrow> bool" where
  "unrivalled D ids p t L N \<longleftrightarrow> reach D ids N \<and> p \<in> ids \<and> cm_state (net_cm N p) = Leader \<and>
     cm_currentTerm (net_cm N p) = t \<and> cm_log (net_cm N p) = L \<and>
     (\<forall>q \<in> ids. not_stopped N q \<and> cm_currentTerm (net_cm N q) \<le> t)"

lemma unrivalledD:
  assumes "unrivalled D ids p t L N"
  shows "reach D ids N" and "p \<in> ids" and "cm_state (net_cm N p) = Leader"
    and "cm_currentTerm (net_cm N p) = t" and "cm_log (net_cm N p) = L"
    and "q \<in> ids \<Longrightarrow> not_stopped N q" and "q \<in> ids \<Longrightarrow> cm_currentTerm (net_cm N q) \<le> t"
  using assms by (simp_all add: unrivalled_def)

lemma unrivalled_after:
  assumes "unrivalled D ids p t L N" and "net_move D ids N q l cm'" and "l \<noteq> L_Stop"
    and "cm_currentTerm cm' \<le> t"
    and "q = p \<Longrightarrow> cm_state cm' = Leader \<and> cm_log cm' = L \<and> cm_currentTerm cm' = t"
  shows "unrivalled D ids p t L (net_after q l cm' N)"
  using assms net_moveD(7) [OF assms(2)] by (auto simp: unrivalled_def not_stopped_def)

lemma unrivalled_move:
  assumes "unrivalled D ids p t L N" and "q \<in> ids" and "cm_step D (net_cm N q) l cm'"
    and "timely (net_cm N q) l" and "prompt (net_cm N q) l" and "deliverable (net_hist N) q l"
  shows "net_move D ids N q l cm'"
  using assms by (simp add: net_move_def unrivalled_def prompt_step_def)

lemma unrivalled_leading:
  assumes "unrivalled D ids p t L N" and "q \<in> ids" and "q \<noteq> p"
  shows "leading q (net_cm N p)" and "following t (net_cm N q)"
    and "log_matching (cm_log (net_cm N p)) (cm_log (net_cm N q))"
proof -
  note u = unrivalledD [OF assms(1)]
  have "q \<in> set (cm_peerIds (net_cm N p))" using reach_ids(5) [OF u(1,2)] assms(2,3) by simp
  then have "0 \<le> fm_index 0 (cm_nextIndex (net_cm N p)) q"
      "fm_index 0 (cm_nextIndex (net_cm N p)) q \<le> int (length (cm_log (net_cm N p)))"
    using reach_next [OF u(1-3)] by (simp_all add: next_ok_def)
  moreover have "\<forall>e \<in> set (cm_log (net_cm N p)). le_Term e \<noteq> 0"
    using reach_entry_term(1) [OF u(1,2)] by fastforce
  ultimately show "leading q (net_cm N p)"
    using u(3) reach_open [OF u(1,2) u(6) [OF u(2)]] reach_encodable [OF u(1,2)] reach_delivered(3) [OF u(1,2)]
    by (auto simp: leading_def log_ok_def)
  show "following t (net_cm N q)"
    using u(7) [OF assms(2)] reach_open [OF u(1) assms(2) u(6) [OF assms(2)]]
      reach_encodable [OF u(1) assms(2)] reach_alive [OF u(1) assms(2) u(6) [OF assms(2)]]
    by (simp add: following_def)
  show "log_matching (cm_log (net_cm N p)) (cm_log (net_cm N q))"
    by (rule logs_match [OF u(1,2) assms(2)])
qed

section \<open>One exchange\<close>

text \<open>A heartbeat starts a request to every peer and changes nothing else.\<close>

lemma heartbeat_step:
  assumes "reach D ids N" and "p \<in> ids" and "cm_state (net_cm N p) = Leader"
  obtains cm' where "cm_step D (net_cm N p) L_Heartbeat cm'" and "core cm' = core (net_cm N p)"
    and "\<And>q. q \<in> ids \<Longrightarrow> q \<noteq> p \<Longrightarrow> pending (Go_SendAE (cm_currentTerm (net_cm N p)) q) cm'"
proof -
  let ?cm = "net_cm N p"
  have peers: "set (cm_peerIds ?cm) = ids - {p}" by (rule reach_ids(5) [OF assms(1,2)])
  have "leader_loops ?cm" using reach_at_work [OF assms(1,2)] by (simp add: at_work_def)
  then consider "pending Go_LeaderStart ?cm" | "pending Go_LeaderLoop ?cm"
    using assms(3) by (auto simp: leader_loops_def)
  then show thesis
  proof cases
    case 1
    show thesis
      using that [OF cm_step.LeaderStart [OF 1]] assms(3) peers
      by (auto simp: core_leaderSendAEs pending_def leaderSendAEs_def)
  next
    case 2
    show thesis
      using that [OF cm_step.Heartbeat [OF 2 assms(3)]] assms(3) peers
      by (auto simp: core_leaderSendAEs pending_def leaderSendAEs_def)
  qed
qed

lemma heartbeat:
  assumes "unrivalled D ids p t L N"
  obtains N1 where "leads_to D ids N N1" and "unrivalled D ids p t L N1"
    and "core (net_cm N1 p) = core (net_cm N p)" and "\<And>r. r \<noteq> p \<Longrightarrow> net_cm N1 r = net_cm N r"
    and "\<And>q. q \<in> ids \<Longrightarrow> q \<noteq> p \<Longrightarrow> pending (Go_SendAE t q) (net_cm N1 p)"
proof -
  note u = unrivalledD [OF assms]
  obtain cm' where step: "cm_step D (net_cm N p) L_Heartbeat cm'" and core: "core cm' = core (net_cm N p)"
    and sends: "\<And>q. q \<in> ids \<Longrightarrow> q \<noteq> p \<Longrightarrow> pending (Go_SendAE t q) cm'"
    using heartbeat_step [OF u(1-3)] unfolding u(4) by blast
  have move: "net_move D ids N p L_Heartbeat cm'"
    by (rule unrivalled_move [OF assms u(2) step]) simp_all
  have "unrivalled D ids p t L (net_after p L_Heartbeat cm' N)"
    by (rule unrivalled_after [OF assms move]) (use core u in \<open>auto simp: core_iff\<close>)
  then show thesis using that leads_to_move [OF move] core sends by simp
qed

text \<open>
  What an exchange with \<open>q\<close> brings about if \<open>q\<close> accepts, and what the leader does if it refuses.
\<close>

definition exchanged :: "int \<Rightarrow> LogEntry list \<Rightarrow> int \<Rightarrow> int \<Rightarrow> 's network \<Rightarrow> 's network \<Rightarrow> bool" where
  "exchanged t L p q N N' \<longleftrightarrow> take (length L) (cm_log (net_cm N' q)) = L \<and>
     cm_commitIndex (net_cm N p) \<le> cm_commitIndex (net_cm N' q) \<and>
     cm_matchIndex (net_cm N' p) = fmupd q (int (length L) - 1) (cm_matchIndex (net_cm N p)) \<and>
     cm_commitIndex (net_cm N p) \<le> cm_commitIndex (net_cm N' p) \<and>
     (L \<noteq> [] \<longrightarrow> committable (net_cm N' p) (length L - 1) \<longrightarrow>
        cm_commitIndex (net_cm N' p) = int (length L) - 1)"

definition refused :: "int \<Rightarrow> 's ConsensusModule \<Rightarrow> 's ConsensusModule \<Rightarrow> bool" where
  "refused q l l' \<longleftrightarrow> cm_nextIndex l' = fmupd q 0 (cm_nextIndex l) \<and>
     cm_matchIndex l' = cm_matchIndex l \<and> cm_commitIndex l' = cm_commitIndex l"

lemma exchange:
  assumes D: "deps_ok D" and S: "unrivalled D ids p t L N" and q: "q \<in> ids" "q \<noteq> p"
    and g: "pending (Go_SendAE t q) (net_cm N p)"
  obtains N' where "leads_to D ids N N'" and "unrivalled D ids p t L N'"
    and "\<And>r. r \<noteq> p \<Longrightarrow> r \<noteq> q \<Longrightarrow> net_cm N' r = net_cm N r"
    and "exchanged t L p q N N' \<or> fm_index 0 (cm_nextIndex (net_cm N p)) q \<noteq> 0 \<and> refused q (net_cm N p) (net_cm N' p)"
proof -
  let ?l = "net_cm N p" and ?f = "net_cm N q"
  note u = unrivalledD [OF S] and uq = unrivalled_leading [OF S q]
  let ?ni = "fm_index 0 (cm_nextIndex ?l) q"
  obtain b req where args: "appendEntries_args t q ?l = Inr (req, ?ni)"
    and b: "prevLogMatches req (cm_log ?f) = Inr b" "?ni = 0 \<Longrightarrow> b"
    and len: "length (ae_Entries req) = length L - nat ?ni"
    and "\<exists>f' reply. AppendEntriesHelper D 0 req ?f = Inr (f', reply) \<and> aer_Success reply = b \<and>
      aer_Term reply = t \<and> aer_ConflictIndex reply = 0 \<and> aer_ConflictTerm reply = 0 \<and> following t f'"
    using round_runs [OF D uq(1), of ?f 0] uq(2) u(4,5) by metis
  then obtain f' reply where run: "AppendEntriesHelper D 0 req ?f = Inr (f', reply)"
    and reply: "aer_Success reply = b" "aer_Term reply = t" "aer_ConflictIndex reply = 0" "aer_ConflictTerm reply = 0"
    and f': "following t f'" by blast
  note req = appendEntries_args_request [OF args]
  let ?g = "Go_AwaitAE t q ?ni (length (ae_Entries req))"
  define l1 where "l1 = spawn [?g] (finished (Go_SendAE t q) ?l)"
  have core1: "core l1 = core ?l" by (simp add: l1_def)
  have m1: "net_move D ids N p (L_SendAE q req) l1"
    unfolding l1_def by (rule unrivalled_move [OF S u(2) cm_step.SendAE [OF g args]]) (use u(3,4) req(2) in simp_all)
  define N1 where "N1 = net_after p (L_SendAE q req) l1 N"
  have S1: "unrivalled D ids p t L N1" unfolding N1_def
    by (rule unrivalled_after [OF S m1]) (use core1 u in \<open>auto simp: core_iff\<close>)
  have N1: "net_cm N1 p = l1" "net_cm N1 q = ?f" "L_SendAE q req \<in> set (net_hist N1 p)"
    using q(2) by (simp_all add: N1_def)
  have m2: "net_move D ids N1 q (L_AppendEntries req reply) f'"
    by (rule unrivalled_move [OF S1 q(1)]) (use N1 q(2) cm_step.AppendEntries [OF run] in auto)
  define N2 where "N2 = net_after q (L_AppendEntries req reply) f' N1"
  have S2: "unrivalled D ids p t L N2" unfolding N2_def
    by (rule unrivalled_after [OF S1 m2]) (use f' q(2) in \<open>auto simp: following_def\<close>)
  have N2: "net_cm N2 p = l1" "net_cm N2 q = f'" "L_AppendEntries req reply \<in> set (net_hist N2 q)"
    using q(2) N1 by (simp_all add: N2_def)
  have ok: "log_ok ?l" by (rule reach_delivered(3) [OF u(1,2)])
  obtain l' where l': "handleAEReply 0 t q ?ni (length (ae_Entries req)) reply (finished ?g l1) = Inr l'"
    using handleAEReply_returns [of "finished ?g l1" 0 t q ?ni "length (ae_Entries req)" reply]
      reach_open [OF unrivalledD(1) [OF S2] u(2) unrivalledD(6) [OF S2 u(2)]] ok core1
    unfolding returns_iff N2 by (auto simp: log_ok_def core_iff)
  have m3: "net_move D ids N2 p (L_AEReply t q ?ni (length (ae_Entries req)) reply) l'"
  proof (rule unrivalled_move [OF S2 u(2)])
    show "cm_step D (net_cm N2 p) (L_AEReply t q ?ni (length (ae_Entries req)) reply) l'"
      unfolding N2 by (rule cm_step.AEReply [OF _ l']) (simp add: l1_def pending_def)
    show "deliverable (net_hist N2) p (L_AEReply t q ?ni (length (ae_Entries req)) reply)"
      using N2(3) req(2,3,6) reach_ids(1) [OF u(1,2)] by auto
  qed (use N2 core1 u(4) in \<open>simp_all add: core_iff\<close>)
  have l1: "handleAEReply 0 (cm_currentTerm (finished ?g l1)) q ?ni (length (ae_Entries req)) reply (finished ?g l1) = Inr l'"
    "cm_currentTerm (finished ?g l1) = t" "cm_state (finished ?g l1) = Leader" "cm_log (finished ?g l1) = L"
    "log_ok (finished ?g l1)" "cm_matchIndex (finished ?g l1) = cm_matchIndex ?l"
    "cm_commitIndex (finished ?g l1) = cm_commitIndex ?l"
    using l' core1 u(3-5) ok by (simp_all add: core_iff log_ok_def, simp add: l1_def)
  have frame: "cm_state l' = Leader" "cm_log l' = L" "cm_currentTerm l' = t"
    using leaderCommit_frame [OF l'] core1 u(3-5) reply(2) by (auto simp: core_iff)
  define N' where "N' = net_after p (L_AEReply t q ?ni (length (ae_Entries req)) reply) l' N2"
  have S': "unrivalled D ids p t L N'" unfolding N'_def
    by (rule unrivalled_after [OF S2 m3]) (use frame in auto)
  have N': "net_cm N' p = l'" "net_cm N' q = f'" "\<And>r. r \<noteq> p \<Longrightarrow> r \<noteq> q \<Longrightarrow> net_cm N' r = net_cm N r"
    using q(2) N2 by (simp_all add: N'_def N2_def N1_def)
  have "leads_to D ids N N1" unfolding N1_def by (rule leads_to_move [OF m1]) simp_all
  also have "leads_to D ids N1 N2" unfolding N2_def by (rule leads_to_move [OF m2]) simp_all
  also have "leads_to D ids N2 N'" unfolding N'_def by (rule leads_to_move [OF m3]) simp_all
  finally have "leads_to D ids N N'" .
  moreover have "exchanged t L p q N N' \<or> ?ni \<noteq> 0 \<and> refused q ?l (net_cm N' p)"
  proof (cases b)
    case True
    have nx: "0 \<le> ?ni" "?ni \<le> int (length (cm_log ?l))" using uq(1) by (simp_all add: leading_def)
    have acc: "aer_Success reply" using True reply(1) by simp
    have holds: "take (length L) (cm_log f') = L"
      using accepted_holds_log [OF nx args run acc uq(3)] u(5) by simp
    have "ae_LeaderCommit req = cm_commitIndex ?l" by (rule req(4))
    moreover have "cm_commitIndex ?l < int (length L)" using ok u(5) by (simp add: log_ok_def)
    moreover have "length L \<le> length (cm_log f')" using holds by (metis length_take min.cobounded1)
    ultimately have follow: "cm_commitIndex ?l \<le> cm_commitIndex f'"
      using AppendEntriesHelper_log(1) [OF run acc] by (auto simp: intMin_def)
    have "?ni + int (length (ae_Entries req)) - 1 = int (length L) - 1" using len nx u(5) by simp
    then have "exchanged t L p q N N'"
      using accepted_reply [OF l1(1) acc] reply(2) l1 holds follow N'
      by (simp add: exchanged_def)
    then show ?thesis ..
  next
    case False
    then have "l' = finished ?g l1\<lparr>cm_nextIndex := fmupd q 0 (cm_nextIndex (finished ?g l1))\<rparr>"
      using rejected_reply [OF l1(1)] reply l1 u(5) uq(1) by (simp add: leading_def)
    then have "refused q ?l (net_cm N' p)"
      using core1 N'(1) by (simp add: refused_def core_iff)
    with False b(2) show ?thesis by blast
  qed
  ultimately show thesis using that S' N'(3) by blast
qed

text \<open>A peer that refuses is asked again from the start of the log, and accepts.\<close>

lemma sync_peer:
  assumes D: "deps_ok D" and S: "unrivalled D ids p t L N" and q: "q \<in> ids" "q \<noteq> p"
  obtains N' where "leads_to D ids N N'" and "unrivalled D ids p t L N'" and "exchanged t L p q N N'"
    and "\<And>r. r \<noteq> p \<Longrightarrow> r \<noteq> q \<Longrightarrow> net_cm N' r = net_cm N r"
proof -
  have same: "exchanged t L p q M M' \<Longrightarrow> exchanged t L p q N M'"
    if "cm_commitIndex (net_cm M p) = cm_commitIndex (net_cm N p)" "cm_matchIndex (net_cm M p) = cm_matchIndex (net_cm N p)" for M M'
    using that by (simp add: exchanged_def)
  obtain N1 where N1: "leads_to D ids N N1" "unrivalled D ids p t L N1" "core (net_cm N1 p) = core (net_cm N p)"
    "\<And>r. r \<noteq> p \<Longrightarrow> net_cm N1 r = net_cm N r" "pending (Go_SendAE t q) (net_cm N1 p)"
    using heartbeat [OF S] q by metis
  obtain N2 where N2: "leads_to D ids N1 N2" "unrivalled D ids p t L N2"
    "\<And>r. r \<noteq> p \<Longrightarrow> r \<noteq> q \<Longrightarrow> net_cm N2 r = net_cm N1 r"
    "exchanged t L p q N1 N2 \<or> refused q (net_cm N1 p) (net_cm N2 p)"
    using exchange [OF D N1(2) q N1(5)] by metis
  have to2: "leads_to D ids N N2" using N1(1) N2(1) by (rule leads_to_trans)
  from N2(4) show thesis
  proof
    assume "exchanged t L p q N1 N2"
    with same [of N1 N2] N1(3) have "exchanged t L p q N N2" by (simp add: core_iff)
    with that to2 N2(2,3) N1(4) show thesis by metis
  next
    assume ref: "refused q (net_cm N1 p) (net_cm N2 p)"
    obtain N3 where N3: "leads_to D ids N2 N3" "unrivalled D ids p t L N3" "core (net_cm N3 p) = core (net_cm N2 p)"
      "\<And>r. r \<noteq> p \<Longrightarrow> net_cm N3 r = net_cm N2 r" "pending (Go_SendAE t q) (net_cm N3 p)"
      using heartbeat [OF N2(2)] q by metis
    have "fm_index 0 (cm_nextIndex (net_cm N3 p)) q = 0" using ref N3(3) by (simp add: refused_def core_iff)
    then obtain N4 where N4: "leads_to D ids N3 N4" "unrivalled D ids p t L N4"
      "\<And>r. r \<noteq> p \<Longrightarrow> r \<noteq> q \<Longrightarrow> net_cm N4 r = net_cm N3 r" "exchanged t L p q N3 N4"
      using exchange [OF D N3(2) q N3(5)] by metis
    have "exchanged t L p q N N4"
      using same [of N3 N4] N4(4) ref N3(3) N1(3) by (simp add: refused_def core_iff)
    moreover have "leads_to D ids N N4" using to2 N3(1) N4(1) by (blast intro: leads_to_trans)
    moreover have "net_cm N4 r = net_cm N r" if "r \<noteq> p" "r \<noteq> q" for r
      using that N4(3) N3(4) N2(3) N1(4) by metis
    ultimately show thesis using that N4(2) by blast
  qed
qed

section \<open>All peers\<close>

text \<open>
  After a round with a list of peers each of them has the log, and has committed what the leader
  had committed before; the leader has recorded it, and has committed all it may.
\<close>

lemma sync_peers:
  assumes D: "deps_ok D" and "unrivalled D ids p t L N" and "set qs \<subseteq> ids - {p}" and "distinct qs" and "qs \<noteq> []"
  shows "\<exists>N'. leads_to D ids N N' \<and> unrivalled D ids p t L N' \<and>
    (\<forall>q \<in> set qs. take (length L) (cm_log (net_cm N' q)) = L \<and>
       cm_commitIndex (net_cm N p) \<le> cm_commitIndex (net_cm N' q) \<and>
       fm_index 0 (cm_matchIndex (net_cm N' p)) q = int (length L) - 1) \<and>
    (\<forall>r. r \<noteq> p \<longrightarrow> r \<notin> set qs \<longrightarrow> net_cm N' r = net_cm N r \<and>
       fm_index 0 (cm_matchIndex (net_cm N' p)) r = fm_index 0 (cm_matchIndex (net_cm N p)) r) \<and>
    cm_commitIndex (net_cm N p) \<le> cm_commitIndex (net_cm N' p) \<and>
    (L \<noteq> [] \<longrightarrow> committable (net_cm N' p) (length L - 1) \<longrightarrow>
       cm_commitIndex (net_cm N' p) = int (length L) - 1)"
  using assms(2-)
proof (induction qs arbitrary: N)
  case (Cons q qs)
  have q: "q \<in> ids" "q \<noteq> p" "q \<notin> set qs" using Cons.prems by auto
  obtain N1 where N1: "leads_to D ids N N1" "unrivalled D ids p t L N1" "exchanged t L p q N N1"
    "\<And>r. r \<noteq> p \<Longrightarrow> r \<noteq> q \<Longrightarrow> net_cm N1 r = net_cm N r"
    using sync_peer [OF D Cons.prems(1) q(1,2)] by metis
  note e = N1(3) [unfolded exchanged_def]
  show ?case
  proof (cases "qs = []")
    case True
    with N1 e show ?thesis by (intro exI [of _ N1]) auto
  next
    case False
    then obtain N2 where N2: "leads_to D ids N1 N2" "unrivalled D ids p t L N2"
      "\<forall>q \<in> set qs. take (length L) (cm_log (net_cm N2 q)) = L \<and>
         cm_commitIndex (net_cm N1 p) \<le> cm_commitIndex (net_cm N2 q) \<and>
         fm_index 0 (cm_matchIndex (net_cm N2 p)) q = int (length L) - 1"
      "\<forall>r. r \<noteq> p \<longrightarrow> r \<notin> set qs \<longrightarrow> net_cm N2 r = net_cm N1 r \<and>
         fm_index 0 (cm_matchIndex (net_cm N2 p)) r = fm_index 0 (cm_matchIndex (net_cm N1 p)) r"
      "cm_commitIndex (net_cm N1 p) \<le> cm_commitIndex (net_cm N2 p)"
      "L \<noteq> [] \<longrightarrow> committable (net_cm N2 p) (length L - 1) \<longrightarrow> cm_commitIndex (net_cm N2 p) = int (length L) - 1"
      using Cons.IH [OF N1(2)] Cons.prems(2,3) by auto
    have "leads_to D ids N N2" using N1(1) N2(1) by (rule leads_to_trans)
    moreover have "take (length L) (cm_log (net_cm N2 x)) = L \<and>
        cm_commitIndex (net_cm N p) \<le> cm_commitIndex (net_cm N2 x) \<and>
        fm_index 0 (cm_matchIndex (net_cm N2 p)) x = int (length L) - 1" if "x \<in> set (q # qs)" for x
    proof (cases "x = q")
      case True
      with N2(4) q e show ?thesis by simp
    next
      case False
      with that N2(3) e show ?thesis by fastforce
    qed
    moreover have "net_cm N2 r = net_cm N r \<and>
        fm_index 0 (cm_matchIndex (net_cm N2 p)) r = fm_index 0 (cm_matchIndex (net_cm N p)) r"
      if "r \<noteq> p" "r \<notin> set (q # qs)" for r
      using that N2(4) N1(4) e by simp
    moreover have "cm_commitIndex (net_cm N p) \<le> cm_commitIndex (net_cm N2 p)" using N2(5) e by linarith
    ultimately show ?thesis using N2(2,6) by blast
  qed
qed simp

lemma peers_list:
  assumes "reach D ids N" and "p \<in> ids"
  shows "set (cm_peerIds (net_cm N p)) = ids - {p}" and "distinct (cm_peerIds (net_cm N p))"
  using reach_ids [OF assms] by (simp_all add: cluster_ok_def)

lemma all_matched_committable:
  assumes "\<forall>q \<in> set (cm_peerIds cm). fm_index 0 (cm_matchIndex cm) q = int i"
    and "le_Term (cm_log cm ! i) = cm_currentTerm cm" and "cm_peerIds cm \<noteq> []"
  shows "committable cm i"
proof -
  have "filter (\<lambda>p. int i \<le> fm_index 0 (cm_matchIndex cm) p) (cm_peerIds cm) = cm_peerIds cm"
    using assms(1) by (intro filter_True) simp
  then have "matchCount cm (int i) = 1 + int (length (cm_peerIds cm))" by (simp add: matchCount_def)
  with assms(2,3) show ?thesis by (cases "cm_peerIds cm") (simp_all add: committable_def majority_def)
qed

lemma committed_in_leader:
  assumes "reach D ids N" and "p \<in> ids" and "q \<in> ids" and "cm_state (net_cm N p) = Leader"
    and "cm_currentTerm (net_cm N q) \<le> cm_currentTerm (net_cm N p)"
  shows "prefix (committed (net_cm N q)) (cm_log (net_cm N p))"
proof -
  let ?n = "commit_len (net_cm N q)"
  have "safe_upto N (cm_currentTerm (net_cm N q)) (cm_log (net_cm N q)) ?n"
    using reach_commits_safe [OF assms(1)] assms(3) by (simp add: commits_safe_def)
  moreover have log: "net_logs N (cm_currentTerm (net_cm N p)) = Some (cm_log (net_cm N p))"
    using reach_leader_log [OF assms(1,2,4)] .
  ultimately have "take ?n (cm_log (net_cm N q)) = take ?n (cm_log (net_cm N p))"
    using safe_in_leader [OF assms(1) _ _ assms(5)] by simp
  then show ?thesis unfolding committed_def commit_len_def [symmetric] by (metis take_is_prefix)
qed

text \<open>Two rounds with all peers: everybody has the whole log, and has committed it.\<close>

definition caught_up :: "LogEntry list \<Rightarrow> 's network \<Rightarrow> int \<Rightarrow> bool" where
  "caught_up L N q \<longleftrightarrow> take (length L) (cm_log (net_cm N q)) = L \<and>
     cm_commitIndex (net_cm N q) = int (length L) - 1"

lemma all_catch_up:
  assumes D: "deps_ok D" and S: "unrivalled D ids p t L N" and "ids \<noteq> {p}"
    and "L \<noteq> []" and "le_Term (last L) = t"
  obtains N' where "leads_to D ids N N'" and "unrivalled D ids p t L N'" and "\<And>q. q \<in> ids \<Longrightarrow> caught_up L N' q"
proof -
  let ?qs = "cm_peerIds (net_cm N p)" and ?i = "length L - 1"
  note u = unrivalledD [OF S]
  note peers = peers_list [OF u(1,2)]
  have ne: "?qs \<noteq> []"
  proof
    assume "?qs = []"
    then have "ids - {p} = {}" using peers(1) by (metis list.set(1))
    with assms(3) u(2) show False by blast
  qed
  have sub: "set ?qs \<subseteq> ids - {p}" using peers(1) by simp
  obtain N1 where N1: "leads_to D ids N N1" "unrivalled D ids p t L N1"
    and m: "\<forall>q \<in> set ?qs. fm_index 0 (cm_matchIndex (net_cm N1 p)) q = int (length L) - 1"
    and c: "L \<noteq> [] \<longrightarrow> committable (net_cm N1 p) ?i \<longrightarrow> cm_commitIndex (net_cm N1 p) = int (length L) - 1"
    using sync_peers [OF D S sub peers(2) ne] by blast
  have same: "set (cm_peerIds (net_cm N1 p)) = set ?qs"
    using peers_list(1) [OF unrivalledD(1,2) [OF N1(2)]] peers(1) by simp
  have "committable (net_cm N1 p) ?i"
  proof (rule all_matched_committable)
    show "le_Term (cm_log (net_cm N1 p) ! ?i) = cm_currentTerm (net_cm N1 p)"
      using unrivalledD(4,5) [OF N1(2)] assms(4,5) by (simp add: last_conv_nth)
    show "cm_peerIds (net_cm N1 p) \<noteq> []" using same ne by auto
    show "\<forall>q \<in> set (cm_peerIds (net_cm N1 p)). fm_index 0 (cm_matchIndex (net_cm N1 p)) q = int ?i"
      using m same assms(4) by (simp add: of_nat_diff Suc_leI)
  qed
  with c assms(4) have c1: "cm_commitIndex (net_cm N1 p) = int (length L) - 1" by simp
  obtain N2 where N2: "leads_to D ids N1 N2" "unrivalled D ids p t L N2"
    and f: "\<forall>q \<in> set ?qs. take (length L) (cm_log (net_cm N2 q)) = L \<and>
       int (length L) - 1 \<le> cm_commitIndex (net_cm N2 q)"
    and c2: "int (length L) - 1 \<le> cm_commitIndex (net_cm N2 p)"
    using sync_peers [OF D N1(2) sub peers(2) ne] unfolding c1 by blast
  have "caught_up L N2 q" if q: "q \<in> ids" for q
  proof -
    have "take (length L) (cm_log (net_cm N2 q)) = L \<and> int (length L) - 1 \<le> cm_commitIndex (net_cm N2 q)"
      using f c2 q peers(1) unrivalledD(5) [OF N2(2)] by (cases "q = p") auto
    moreover have "prefix (committed (net_cm N2 q)) L"
      using committed_in_leader [OF unrivalledD(1,2) [OF N2(2)] q unrivalledD(3) [OF N2(2)]]
        unrivalledD(4,5) [OF N2(2)] unrivalledD(7) [OF N2(2) q] by simp
    then have "length (committed (net_cm N2 q)) \<le> length L" by (rule prefix_length_le)
    moreover have "cm_commitIndex (net_cm N2 q) < int (length (cm_log (net_cm N2 q)))"
      using reach_delivered(3) [OF unrivalledD(1) [OF N2(2)] q] by (simp add: log_ok_def)
    ultimately show ?thesis by (auto simp: caught_up_def committed_def)
  qed
  with that leads_to_trans [OF N1(1) N2(1)] N2(2) show thesis by blast
qed

section \<open>Delivery\<close>

lemma delivered_applied:
  assumes "reach D ids N" and "q \<in> ids" and "caught_up L N q"
    and "cm_lastApplied (net_cm N q) = cm_commitIndex (net_cm N q)"
  shows "delivered N q = numbered L"
proof -
  have "length (delivered N q) = length L"
    using reach_delivered(4) [OF assms(1,2)] assms(3,4) by (simp add: caught_up_def)
  then have "delivered N q = take (length L) (numbered (cm_log (net_cm N q)))"
    using reach_delivered(1) [OF assms(1,2)] by metis
  also have "\<dots> = numbered (take (length L) (cm_log (net_cm N q)))" by (simp add: take_numbered)
  finally show ?thesis using assms(3) by (simp add: caught_up_def)
qed

lemma deliver_one:
  assumes S: "unrivalled D ids p t L N" and q: "q \<in> ids" and c: "caught_up L N q"
  obtains N' where "leads_to D ids N N'" and "unrivalled D ids p t L N'" and "caught_up L N' q"
    and "delivered N' q = numbered L"
    and "\<And>r. r \<noteq> q \<Longrightarrow> net_cm N' r = net_cm N r \<and> delivered N' r = delivered N r"
proof (cases "cm_lastApplied (net_cm N q) = cm_commitIndex (net_cm N q)")
  case True
  with that [of N] S c delivered_applied [OF unrivalledD(1) [OF S] q c] show thesis by simp
next
  case False
  let ?cm = "net_cm N q"
  note u = unrivalledD [OF S]
  have ok: "log_ok ?cm" by (rule reach_delivered(3) [OF u(1) q])
  with False have ready: "0 < cm_newCommitReady ?cm" and g: "pending Go_CommitChanSender ?cm"
    using reach_at_work [OF u(1) q] by (auto simp: at_work_def log_ok_def)
  let ?cm1 = "?cm\<lparr>cm_newCommitReady := cm_newCommitReady ?cm - 1\<rparr>"
  obtain es where send: "commitChanSender ?cm1 = Inr (?cm1\<lparr>cm_lastApplied := cm_commitIndex ?cm1\<rparr>, es)"
    using commitChanSender_returns [of ?cm1] ok by (auto simp: log_ok_def)
  define cm' where "cm' = ?cm1\<lparr>cm_lastApplied := cm_commitIndex ?cm1\<rparr>"
  have move: "net_move D ids N q (L_Commit es) cm'"
    unfolding cm'_def by (rule unrivalled_move [OF S q cm_step.Commit [OF g ready send]]) simp_all
  let ?N' = "net_after q (L_Commit es) cm' N"
  have S': "unrivalled D ids p t L ?N'"
    by (rule unrivalled_after [OF S move]) (use u q in \<open>auto simp: cm'_def\<close>)
  have c': "caught_up L ?N' q" using c by (simp add: caught_up_def cm'_def)
  have "delivered ?N' q = numbered L"
    by (rule delivered_applied [OF unrivalledD(1) [OF S'] q c']) (simp add: cm'_def)
  with that [OF leads_to_move [OF move] S' c'] show thesis by (simp add: delivered_def)
qed

lemma deliver_all:
  assumes "unrivalled D ids p t L N" and "\<forall>q \<in> ids. caught_up L N q" and "set qs \<subseteq> ids"
  shows "\<exists>N'. leads_to D ids N N' \<and> unrivalled D ids p t L N' \<and> (\<forall>q \<in> ids. caught_up L N' q) \<and>
    (\<forall>q \<in> set qs. delivered N' q = numbered L)"
  using assms(3)
proof (induction qs rule: rev_induct)
  case Nil
  with assms show ?case by (intro exI [of _ N]) simp
next
  case (snoc q qs)
  then obtain N1 where N1: "leads_to D ids N N1" "unrivalled D ids p t L N1" "\<forall>q \<in> ids. caught_up L N1 q"
    "\<forall>q \<in> set qs. delivered N1 q = numbered L" by auto
  have q: "q \<in> ids" using snoc.prems by simp
  obtain N2 where N2: "leads_to D ids N1 N2" "unrivalled D ids p t L N2" "caught_up L N2 q"
    "delivered N2 q = numbered L" "\<And>r. r \<noteq> q \<Longrightarrow> net_cm N2 r = net_cm N1 r \<and> delivered N2 r = delivered N1 r"
    using deliver_one [OF N1(2) q bspec [OF N1(3) q]] by metis
  have "caught_up L N2 r" if "r \<in> ids" for r
    using that N2(3) N2(5) [of r] N1(3) by (cases "r = q") (simp_all add: caught_up_def)
  moreover have "delivered N2 r = numbered L" if "r \<in> set (qs @ [q])" for r
    using that N2(4) N2(5) [of r] N1(4) by (cases "r = q") auto
  ultimately show ?case using leads_to_trans [OF N1(1) N2(1)] N2(2) by blast
qed

theorem log_gets_delivered:
  assumes "deps_ok D" and S: "unrivalled D ids p t L N" and "ids \<noteq> {p}" and "L \<noteq> []" and "le_Term (last L) = t"
  obtains N' where "leads_to D ids N N'" and "\<And>q. q \<in> ids \<Longrightarrow> delivered N' q = numbered L"
proof -
  obtain N1 where N1: "leads_to D ids N N1" "unrivalled D ids p t L N1" "\<And>q. q \<in> ids \<Longrightarrow> caught_up L N1 q"
    using all_catch_up [OF assms] by metis
  let ?qs = "p # cm_peerIds (net_cm N p)"
  have "set ?qs = ids" using peers_list(1) [OF unrivalledD(1,2) [OF S]] unrivalledD(2) [OF S] by auto
  then have "set ?qs \<subseteq> ids" and in_qs: "\<And>q. q \<in> ids \<Longrightarrow> q \<in> set ?qs" by (metis order_refl, metis)
  moreover have "\<forall>q \<in> ids. caught_up L N1 q" using N1(3) by blast
  ultimately obtain N2 where "leads_to D ids N1 N2" "\<forall>q \<in> set ?qs. delivered N2 q = numbered L"
    using deliver_all [OF N1(2)] by metis
  with in_qs that leads_to_trans [OF N1(1)] show thesis by blast
qed

text \<open>A submission adds its command to the log of the leader.\<close>

lemma unrivalled_submit:
  assumes D: "deps_ok D" and S: "unrivalled D ids p t L N" and enc: "action_encodable (cmd_Action command)"
  obtains N1 where "net_step D ids N (p, L_Submit (Some command)) N1"
    and "unrivalled D ids p t (L @ [\<lparr>le_Command = Some command, le_Term = t\<rparr>]) N1"
proof -
  note u = unrivalledD [OF S]
  have "returns (Submit D (Some command) (net_cm N p))"
    using Submit_returns [OF D reach_encodable [OF u(1,2)]] enc by blast
  then obtain cm' ok where run: "Submit D (Some command) (net_cm N p) = Inr (cm', ok)"
    by (auto simp: returns_iff)
  have move: "net_move D ids N p (L_Submit (Some command)) cm'"
    by (rule unrivalled_move [OF S u(2) cm_step.Submitted [OF run]]) simp_all
  have "unrivalled D ids p t (L @ [\<lparr>le_Command = Some command, le_Term = t\<rparr>])
      (net_after p (L_Submit (Some command)) cm' N)"
    using S net_moveD(7) [OF move] Submit_frame [OF run] by (auto simp: unrivalled_def not_stopped_def)
  with that move_step [OF move] show thesis by blast
qed

text \<open>
  A command may be submitted to any server that knows the leader: the server forwards it. After
  the call of \<open>Submit\<close> some execution brings the command to the end of the leader's log.
\<close>

lemma unrivalled_forwarded:
  assumes D: "deps_ok D" and S: "unrivalled D ids p t L N" and r: "r \<in> ids" "r \<noteq> p"
    and g: "pending (Go_Forward (Some command)) (net_cm N r)" and enc: "action_encodable (cmd_Action command)"
    and asked: "Some command \<in># submissions ids N"
  obtains N1 where "leads_to D ids N N1"
    and "unrivalled D ids p t (L @ [\<lparr>le_Command = Some command, le_Term = t\<rparr>]) N1"
proof -
  note u = unrivalledD [OF S]
  let ?r' = "spawn [Go_AwaitForward (Some command) (cm_leaderid (net_cm N r))]
    (finished (Go_Forward (Some command)) (net_cm N r))"
  have m1: "net_move D ids N r L_Forward ?r'"
    by (rule unrivalled_move [OF S r(1) cm_step.Forward [OF g]]) simp_all
  define N0 where "N0 = net_after r L_Forward ?r' N"
  have S0: "unrivalled D ids p t L N0" unfolding N0_def
    by (rule unrivalled_after [OF S m1]) (use u(7) [OF r(1)] r(2) in simp_all)
  note u0 = unrivalledD [OF S0]
  have "returns (Submit D (Some command) (net_cm N0 p))"
    using Submit_returns [OF D reach_encodable [OF u0(1,2)]] enc by blast
  then obtain cm' ok where run: "Submit D (Some command) (net_cm N0 p) = Inr (cm', ok)"
    by (auto simp: returns_iff)
  let ?req = "\<lparr>fl_Command = Some command\<rparr>"
  obtain reply where fwd: "ForwardLeaderHelper D ?req (net_cm N0 p) = Inr (cm', reply)"
    using run u0(3) by (simp add: ForwardLeaderHelper_def)
  have m2: "net_move D ids N0 p (L_ForwardLeader ?req reply) cm'"
    by (rule unrivalled_move [OF S0 u0(2) cm_step.ForwardLeader [OF fwd]]) simp_all
  define N1 where "N1 = net_after p (L_ForwardLeader ?req reply) cm' N0"
  have "unrivalled D ids p t (L @ [\<lparr>le_Command = Some command, le_Term = t\<rparr>]) N1"
    using S0 net_moveD(7) [OF m2] Submit_frame [OF run] by (auto simp: unrivalled_def not_stopped_def N1_def)
  moreover have "leads_to D ids N N1"
  proof -
    have "leads_to D ids N N0" unfolding N0_def by (rule leads_to_move [OF m1]) simp_all
    moreover have "submissions ids N0 = submissions ids N"
      by (simp add: N0_def submissions_after [OF reach_finite [OF u(1) r(1)] r(1)])
    then have "leads_to D ids N0 N1" unfolding N1_def by (intro leads_to_move [OF m2]) (simp_all add: asked)
    ultimately show ?thesis by (rule leads_to_trans)
  qed
  ultimately show thesis using that by blast
qed

lemma submit_anywhere:
  assumes D: "deps_ok D" and S: "unrivalled D ids p t L N" and r: "r \<in> ids"
    and known: "r = p \<or> cm_state (net_cm N r) \<noteq> Leader \<and> cm_leaderid (net_cm N r) = p"
    and enc: "action_encodable (cmd_Action command)"
    and run: "Submit D (Some command) (net_cm N r) = Inr (cm', ok)"
  defines "N0 \<equiv> net_after r (L_Submit (Some command)) cm' N"
  shows "net_step D ids N (r, L_Submit (Some command)) N0"
    and "\<exists>N1. leads_to D ids N0 N1 \<and> unrivalled D ids p t (L @ [\<lparr>le_Command = Some command, le_Term = t\<rparr>]) N1"
proof -
  have move: "net_move D ids N r (L_Submit (Some command)) cm'"
    by (rule unrivalled_move [OF S r cm_step.Submitted [OF run]]) simp_all
  show "net_step D ids N (r, L_Submit (Some command)) N0" unfolding N0_def by (rule move_step [OF move])
  show "\<exists>N1. leads_to D ids N0 N1 \<and> unrivalled D ids p t (L @ [\<lparr>le_Command = Some command, le_Term = t\<rparr>]) N1"
  proof (cases "r = p")
    case True
    have "unrivalled D ids p t (L @ [\<lparr>le_Command = Some command, le_Term = t\<rparr>]) N0"
      using S net_moveD(7) [OF move] Submit_frame [OF run] True
      by (auto simp: unrivalled_def not_stopped_def N0_def)
    then show ?thesis using leads_to_refl by blast
  next
    case False
    with known have cm': "cm' = spawn [Go_Forward (Some command)] (net_cm N r)"
      using run by (simp add: Submit_def forwardToLeader_def)
    have S0: "unrivalled D ids p t L N0" unfolding N0_def
      by (rule unrivalled_after [OF S move]) (use unrivalledD(7) [OF S r] False in \<open>simp_all add: cm'\<close>)
    have "pending (Go_Forward (Some command)) (net_cm N0 r)" by (simp add: N0_def cm' pending_def)
    moreover have "Some command \<in># submissions ids N0"
      by (simp add: N0_def submissions_after [OF reach_finite [OF unrivalledD(1) [OF S] r] r])
    ultimately show ?thesis using unrivalled_forwarded [OF D S0 r False _ enc] by metis
  qed
qed

end
