(* ===== verification/Raft_Recovery.thy ===== *)
theory Raft_Recovery
  imports Raft_Progress
begin

text \<open>
  The cluster is never stuck: from every state in which no server has been stopped, some
  execution elects a server with an up-to-date log, and by the previous theory everything that
  is then submitted can be delivered everywhere.
\<close>

section \<open>The election timer of the main loop\<close>

fun main_goroutine :: "goroutine \<Rightarrow> bool" where
  "main_goroutine Go_MainLoop = True"
| "main_goroutine (Go_RunElectionTimer main) = main"
| "main_goroutine (Go_ElectionTimer main ts to) = main"
| "main_goroutine _ = False"

definition main_timer :: "'s ConsensusModule \<Rightarrow> bool" where
  "main_timer cm \<longleftrightarrow> list_ex main_goroutine (cm_spawned cm)"

lemma list_ex_remove1 [simp]: "\<not> P h \<Longrightarrow> list_ex P (remove1 h xs) = list_ex P xs"
  by (induction xs) auto

lemma list_ex_calls [simp]:
  "\<not> list_ex main_goroutine (map (Go_SendAE t) qs)" "\<not> list_ex main_goroutine (map (Go_RequestVote t el) qs)"
  by (induction qs) simp_all

lemma step_main_timer:
  assumes "cm_step D cm l cm'" and "main_timer cm"
  shows "main_timer cm'"
  using assms
proof (cases rule: cm_step.cases)
  case (TimerStart main r)
  then show ?thesis using assms(2) by (cases main) (auto simp: main_timer_def finished_def)
next
  case (Tick main ts to now)
  then show ?thesis using assms(2)
    by (cases main) (auto simp: main_timer_def finished_def after_tick_def electionTick_def startElection_def
        Let_def spawn_def split: if_splits)
qed (auto simp: handler_defs Stop_def main_timer_def started_def
    dest!: persistToStorage_frame restart_started(1) split: if_splits prod.splits)

lemma main_timerE:
  assumes "main_timer cm"
  obtains "pending Go_MainLoop cm" | "pending (Go_RunElectionTimer True) cm"
    | ts to where "pending (Go_ElectionTimer True ts to) cm"
proof -
  obtain g where "g \<in> set (cm_spawned cm)" "main_goroutine g"
    using assms by (auto simp: main_timer_def list_ex_iff)
  with that show thesis by (cases g) (auto simp: pending_def)
qed

lemma reach_main_timer: "reach D ids N \<Longrightarrow> p \<in> ids \<Longrightarrow> main_timer (net_cm N p)"
proof (induction rule: reach_induct)
  case (step N q l cm')
  have "cm_step D (net_cm N q) l cm'" using net_moveD(5) [OF step.hyps] by (simp add: prompt_step_def)
  from step_main_timer [OF this] step.IH [OF step.prems] show ?case by auto
qed (auto simp: net_init_def fresh_cm_def main_timer_def pending_def list_ex_iff intro!: bexI [of _ Go_MainLoop])

definition live :: "'s deps \<Rightarrow> int set \<Rightarrow> 's network \<Rightarrow> bool" where
  "live D ids N \<longleftrightarrow> reach D ids N \<and> (\<forall>q \<in> ids. not_stopped N q)"

lemma live_reach: "live D ids N \<Longrightarrow> reach D ids N"
  by (simp add: live_def)

lemma live_alive: "live D ids N \<Longrightarrow> q \<in> ids \<Longrightarrow> cm_state (net_cm N q) \<noteq> Dead"
  unfolding live_def by (blast dest: reach_alive)

lemma live_move:
  assumes "live D ids N" and "p \<in> ids" and "cm_step D (net_cm N p) l cm'" and "l \<noteq> L_Stop \<and> \<not> outside l \<and> submission l = {#}"
    and "timely (net_cm N p) l" and "prompt (net_cm N p) l" and "deliverable (net_hist N) p l"
  shows "leads_to D ids N (net_after p l cm' N)" and "live D ids (net_after p l cm' N)"
proof -
  have move: "net_move D ids N p l cm'"
    using assms by (simp add: net_move_def live_def prompt_step_def)
  show "leads_to D ids N (net_after p l cm' N)" using move assms(4) by (intro leads_to_move) simp_all
  show "live D ids (net_after p l cm' N)"
    using net_moveD(7) [OF move] assms(1,4) by (auto simp: live_def not_stopped_def)
qed

text \<open>A server goes on by itself, keeping role, term and log.\<close>

definition idles :: "'s deps \<Rightarrow> int set \<Rightarrow> int \<Rightarrow> 's network \<Rightarrow> 's network \<Rightarrow> bool" where
  "idles D ids p N N' \<longleftrightarrow> leads_to D ids N N' \<and> live D ids N' \<and>
     core (net_cm N' p) = core (net_cm N p) \<and> (\<forall>r. r \<noteq> p \<longrightarrow> net_cm N' r = net_cm N r)"

lemma idles_refl: "live D ids N \<Longrightarrow> idles D ids p N N"
  by (simp add: idles_def)

lemma idles_trans: "idles D ids p N N1 \<Longrightarrow> idles D ids p N1 N2 \<Longrightarrow> idles D ids p N N2"
  by (auto simp: idles_def intro: leads_to_trans)

lemma idles_move:
  assumes "live D ids N" and "p \<in> ids" and "cm_step D (net_cm N p) l cm'" and "l \<noteq> L_Stop \<and> \<not> outside l \<and> submission l = {#}"
    and "timely (net_cm N p) l" and "prompt (net_cm N p) l" and "deliverable (net_hist N) p l"
    and "core cm' = core (net_cm N p)"
  shows "idles D ids p N (net_after p l cm' N)"
  using live_move [OF assms(1-7)] assms(8) by (simp add: idles_def)

definition waiting :: "'s ConsensusModule \<Rightarrow> bool" where
  "waiting cm \<longleftrightarrow> cm_state cm \<in> {Follower, Candidate} \<and> cm_currentTerm cm < 2 ^ 63 - 1"

lemma timer_from_run:
  assumes "live D ids N" and "p \<in> ids" and g: "pending (Go_RunElectionTimer True) (net_cm N p)"
  obtains N' to where "idles D ids p N N'"
    and "pending (Go_ElectionTimer True (cm_currentTerm (net_cm N p)) to) (net_cm N' p)"
proof -
  have step: "cm_step D (net_cm N p) L_TimerStart
      (spawn [Go_ElectionTimer True (cm_currentTerm (net_cm N p)) (electionTimeout 0)]
         (finished (Go_RunElectionTimer True) (net_cm N p)))"
    by (rule cm_step.TimerStart [OF g]) simp_all
  show thesis
    by (rule that [OF idles_move [OF assms(1,2) step], of "electionTimeout 0"]) (simp_all add: pending_def)
qed

lemma timer_from_loop:
  assumes "live D ids N" and "p \<in> ids" and g: "pending Go_MainLoop (net_cm N p)"
  obtains N' to where "idles D ids p N N'"
    and "pending (Go_ElectionTimer True (cm_currentTerm (net_cm N p)) to) (net_cm N' p)"
proof -
  let ?cm' = "spawn [Go_RunElectionTimer True] (finished Go_MainLoop (net_cm N p)\<lparr>cm_electionResetEvent := 0\<rparr>)"
  let ?N1 = "net_after p L_MainLoop ?cm' N"
  have i: "idles D ids p N ?N1"
    by (rule idles_move [OF assms(1,2) cm_step.MainLoop [OF g]]) (simp_all add: core_def)
  then have "live D ids ?N1" and term1: "cm_currentTerm (net_cm ?N1 p) = cm_currentTerm (net_cm N p)"
    by (simp_all add: idles_def core_iff)
  from timer_from_run [OF this(1) assms(2)] obtain N' to where "idles D ids p ?N1 N'"
    "pending (Go_ElectionTimer True (cm_currentTerm (net_cm N p)) to) (net_cm N' p)"
    unfolding term1 by (auto simp: pending_def)
  with that idles_trans [OF i] show thesis by blast
qed

lemma timer_ready:
  assumes L: "live D ids N" and p: "p \<in> ids" and w: "waiting (net_cm N p)"
  obtains N' to where "idles D ids p N N'"
    and "pending (Go_ElectionTimer True (cm_currentTerm (net_cm N p)) to) (net_cm N' p)"
proof -
  from reach_main_timer [OF live_reach [OF L] p] show thesis
  proof (cases rule: main_timerE)
    case 1
    with timer_from_loop [OF L p] that show thesis by blast
  next
    case 2
    with timer_from_run [OF L p] that show thesis by blast
  next
    case (3 ts to)
    show thesis
    proof (cases "ts = cm_currentTerm (net_cm N p)")
      case True
      with 3 that idles_refl [OF L] show thesis by blast
    next
      case False
      let ?cm = "finished (Go_ElectionTimer True ts to) (net_cm N p)"
      have tick: "electionTick 0 ts to ?cm = (?cm, True)"
        using w False by (auto simp: electionTick_def waiting_def)
      have step: "cm_step D (net_cm N p) L_Tick (spawn [Go_MainLoop] ?cm)"
        using cm_step.Tick [OF 3, of D 0] by (simp add: tick after_tick_def)
      have i: "idles D ids p N (net_after p L_Tick (spawn [Go_MainLoop] ?cm) N)"
        by (rule idles_move [OF L p step]) (use w reach_term [OF live_reach [OF L] p] in \<open>simp_all add: waiting_def\<close>)
      then have "live D ids (net_after p L_Tick (spawn [Go_MainLoop] ?cm) N)" by (simp add: idles_def)
      from timer_from_loop [OF this p] obtain N' to' where
        "idles D ids p (net_after p L_Tick (spawn [Go_MainLoop] ?cm) N) N'"
        "pending (Go_ElectionTimer True (cm_currentTerm (net_cm N p)) to') (net_cm N' p)"
        by (auto simp: pending_def)
      with that idles_trans [OF i] show thesis by blast
    qed
  qed
qed

section \<open>A campaign\<close>

text \<open>
  Server \<open>p\<close> is a candidate of term \<open>t\<close> with log \<open>L\<close> in its election \<open>el\<close>, in which it has counted
  \<open>n\<close> votes.
\<close>

definition candidate :: "int \<Rightarrow> LogEntry list \<Rightarrow> nat \<Rightarrow> int \<Rightarrow> 's ConsensusModule \<Rightarrow> bool" where
  "candidate t L el n cm \<longleftrightarrow> cm_state cm = Candidate \<and> cm_currentTerm cm = t \<and> cm_log cm = L \<and>
     cm_elections cm = el \<and> cm_votes cm el = n"

text \<open>A timeout starts an election of the next term.\<close>

lemma time_out:
  assumes L: "live D ids N" and p: "p \<in> ids" and w: "waiting (net_cm N p)"
  obtains N' where "leads_to D ids N N'" and "live D ids N'" and "\<And>r. r \<noteq> p \<Longrightarrow> net_cm N' r = net_cm N r"
    and "candidate (cm_currentTerm (net_cm N p) + 1) (cm_log (net_cm N p)) (cm_elections (net_cm N' p)) 1 (net_cm N' p)"
    and "\<And>q. q \<in> ids \<Longrightarrow> q \<noteq> p \<Longrightarrow>
      pending (Go_RequestVote (cm_currentTerm (net_cm N p) + 1) (cm_elections (net_cm N' p)) q) (net_cm N' p)"
proof -
  let ?t = "cm_currentTerm (net_cm N p)"
  obtain N1 to where i: "idles D ids p N N1" and g: "pending (Go_ElectionTimer True ?t to) (net_cm N1 p)"
    using timer_ready [OF L p w] by blast
  then have N1: "leads_to D ids N N1" "live D ids N1" "\<And>r. r \<noteq> p \<Longrightarrow> net_cm N1 r = net_cm N r"
    "cm_currentTerm (net_cm N1 p) = ?t" "cm_state (net_cm N1 p) = cm_state (net_cm N p)"
    "cm_log (net_cm N1 p) = cm_log (net_cm N p)"
    by (simp_all add: idles_def core_iff)
  let ?cm = "finished (Go_ElectionTimer True ?t to) (net_cm N1 p)"
  let ?now = "cm_electionResetEvent ?cm + to"
  have tick: "electionTick ?now ?t to ?cm = (startElection ?now ?cm, True)"
    using w N1(4,5) by (auto simp: electionTick_def waiting_def)
  define cm' where "cm' = spawn [Go_MainLoop] (startElection ?now ?cm)"
  have step: "cm_step D (net_cm N1 p) L_Tick cm'"
    using cm_step.Tick [OF g, of D ?now] by (simp add: tick after_tick_def cm'_def)
  have t: "0 \<le> ?t" "?t < 2 ^ 63 - 1" using reach_term [OF live_reach [OF L] p] w by (simp_all add: waiting_def)
  have prompt: "prompt (net_cm N1 p) L_Tick" using t N1(4) by simp
  note m = live_move [OF N1(2) p step _ _ prompt, simplified]
  have succ: "wrap64 (?t + 1) = ?t + 1" using t by (intro wrap64_id) (simp add: is_int64_def)
  have c: "candidate (?t + 1) (cm_log (net_cm N p)) (cm_elections cm') 1 cm'"
    using succ N1(4,6) by (simp add: candidate_def cm'_def startElection_def Let_def)
  have sends: "pending (Go_RequestVote (?t + 1) (cm_elections cm') q) cm'" if "q \<in> ids" "q \<noteq> p" for q
    using that succ N1(4) peers_list(1) [OF live_reach [OF N1(2)] p]
    by (simp add: pending_def cm'_def startElection_def Let_def)
  show thesis
    by (rule that [OF leads_to_trans [OF N1(1) m(1)] m(2)]) (use N1(3) c sends in simp_all)
qed

text \<open>A server times out until its term is beyond a given one.\<close>

lemma campaign:
  assumes "live D ids N" and p: "p \<in> ids" and "cm_state (net_cm N p) \<in> {Follower, Candidate}"
    and "cm_currentTerm (net_cm N p) \<le> M" and "M < 2 ^ 63 - 1"
  shows "\<exists>N' el. leads_to D ids N N' \<and> live D ids N' \<and> (\<forall>r. r \<noteq> p \<longrightarrow> net_cm N' r = net_cm N r) \<and>
    candidate (M + 1) (cm_log (net_cm N p)) el 1 (net_cm N' p) \<and>
    (\<forall>q \<in> ids - {p}. pending (Go_RequestVote (M + 1) el q) (net_cm N' p))"
  using assms(1,3,4)
proof (induction "nat (M - cm_currentTerm (net_cm N p))" arbitrary: N)
  case 0
  then have t: "cm_currentTerm (net_cm N p) = M" by simp
  have "waiting (net_cm N p)" using 0 t assms(5) by (simp add: waiting_def)
  from time_out [OF 0(2) p this] obtain N' where "leads_to D ids N N'" "live D ids N'"
    "\<And>r. r \<noteq> p \<Longrightarrow> net_cm N' r = net_cm N r"
    "candidate (M + 1) (cm_log (net_cm N p)) (cm_elections (net_cm N' p)) 1 (net_cm N' p)"
    "\<And>q. q \<in> ids \<Longrightarrow> q \<noteq> p \<Longrightarrow> pending (Go_RequestVote (M + 1) (cm_elections (net_cm N' p)) q) (net_cm N' p)"
    unfolding t by metis
  then show ?case by (intro exI [of _ N'] exI [of _ "cm_elections (net_cm N' p)"]) simp
next
  case (Suc n)
  have "waiting (net_cm N p)" using Suc.prems assms(5) by (simp add: waiting_def)
  from time_out [OF Suc.prems(1) p this] obtain N1 where N1: "leads_to D ids N N1" "live D ids N1"
    "\<And>r. r \<noteq> p \<Longrightarrow> net_cm N1 r = net_cm N r"
    "candidate (cm_currentTerm (net_cm N p) + 1) (cm_log (net_cm N p)) (cm_elections (net_cm N1 p)) 1 (net_cm N1 p)"
    by metis
  then have c: "cm_state (net_cm N1 p) = Candidate" "cm_currentTerm (net_cm N1 p) = cm_currentTerm (net_cm N p) + 1"
    "cm_log (net_cm N1 p) = cm_log (net_cm N p)" by (simp_all add: candidate_def)
  have "n = nat (M - cm_currentTerm (net_cm N1 p))" using Suc.hyps(2) c(2) by simp
  moreover have "cm_currentTerm (net_cm N1 p) \<le> M" using Suc.hyps(2) c(2) by simp
  ultimately obtain N' el where N': "leads_to D ids N1 N'" "live D ids N'" "\<forall>r. r \<noteq> p \<longrightarrow> net_cm N' r = net_cm N1 r"
    "candidate (M + 1) (cm_log (net_cm N p)) el 1 (net_cm N' p)"
    "\<forall>q \<in> ids - {p}. pending (Go_RequestVote (M + 1) el q) (net_cm N' p)"
    using Suc.hyps(1) [of N1] N1(2) c(1,3) by auto
  moreover have "leads_to D ids N N'" using N1(1) N'(1) by (rule leads_to_trans)
  ultimately show ?case using N1(3) by (intro exI [of _ N'] exI [of _ el]) simp
qed

section \<open>Votes\<close>

definition behind :: "'s ConsensusModule \<Rightarrow> 's ConsensusModule \<Rightarrow> bool" where
  "behind cm cm' \<longleftrightarrow> snd (lastLogIndexAndTerm cm) < snd (lastLogIndexAndTerm cm') \<or>
     snd (lastLogIndexAndTerm cm) = snd (lastLogIndexAndTerm cm') \<and>
     fst (lastLogIndexAndTerm cm) \<le> fst (lastLogIndexAndTerm cm')"

lemma behind_log: "cm_log a' = cm_log a \<Longrightarrow> cm_log b' = cm_log b \<Longrightarrow> behind a' b' = behind a b"
  by (simp add: behind_def lastLogIndexAndTerm_def)

lemma vote_is_granted:
  assumes "deps_ok D" and "log_encodable (cm_log f)" and "cm_state f \<noteq> Dead"
    and "cm_currentTerm f < t" and "behind f cm"
  shows "\<exists>f'. RequestVoteHelper D now (requestVote_args t cm) f =
      Inr (f', \<lparr>rvr_Term = t, rvr_VoteGranted = True\<rparr>) \<and> cm_currentTerm f' = t"
proof -
  let ?f1 = "becomeFollower now t f"
  let ?f2 = "?f1\<lparr>cm_votedFor := cm_id cm, cm_electionResetEvent := now\<rparr>"
  have "lastLogIndexAndTerm ?f1 = lastLogIndexAndTerm f" by (simp add: lastLogIndexAndTerm_def)
  then have granted: "vote_cond (requestVote_args t cm) ?f1"
    using assms(5) by (auto simp: vote_cond_def requestVote_args_def behind_def split: prod.splits)
  obtain f3 where f3: "persistToStorage D ?f2 = Inr f3"
    using persistToStorage_returns [OF assms(1), of ?f2] assms(2) by auto
  then have "RequestVoteHelper D now (requestVote_args t cm) f = Inr (f3, \<lparr>rvr_Term = t, rvr_VoteGranted = True\<rparr>)"
    using assms(3,4) granted by (simp add: RequestVoteHelper_def Let_def, simp add: requestVote_args_def)
  moreover have "cm_currentTerm f3 = t" using persistToStorage_frame [OF f3] by auto
  ultimately show ?thesis by blast
qed

text \<open>One vote: the request, its handling and the reply.\<close>

lemma collect_vote:
  assumes D: "deps_ok D" and L: "live D ids N" and p: "p \<in> ids" and q: "q \<in> ids" "q \<noteq> p"
    and c: "candidate t log el n (net_cm N p)" and g: "pending (Go_RequestVote t el q) (net_cm N p)"
    and low: "cm_currentTerm (net_cm N q) < t" and b: "behind (net_cm N q) (net_cm N p)"
  obtains N' where "leads_to D ids N N'" and "live D ids N'"
    and "\<And>r. r \<noteq> p \<Longrightarrow> r \<noteq> q \<Longrightarrow> net_cm N' r = net_cm N r" and "cm_currentTerm (net_cm N' q) = t"
    and "candidate t log el (n + 1) (net_cm N' p)"
    and "majority (n + 1) (net_cm N p) \<Longrightarrow> pending Go_StartLeader (net_cm N' p)"
    and "\<And>q'. q' \<noteq> q \<Longrightarrow> pending (Go_RequestVote t el q') (net_cm N p) \<Longrightarrow>
      pending (Go_RequestVote t el q') (net_cm N' p)"
proof -
  let ?cm = "net_cm N p" and ?f = "net_cm N q" and ?g = "Go_AwaitVote t el q"
  let ?req = "requestVote_args t ?cm"
  note r = live_reach [OF L]
  define c1 where "c1 = spawn [?g] (finished (Go_RequestVote t el q) ?cm)"
  have m1: "leads_to D ids N (net_after p (L_SendVote q ?req) c1 N)" "live D ids (net_after p (L_SendVote q ?req) c1 N)"
    unfolding c1_def using live_move [OF L p cm_step.SendVote [OF g]] by simp_all
  define N1 where "N1 = net_after p (L_SendVote q ?req) c1 N"
  have N1: "leads_to D ids N N1" "live D ids N1" "net_cm N1 p = c1" "net_cm N1 q = ?f"
    "L_SendVote q ?req \<in> set (net_hist N1 p)"
    using m1 q(2) by (simp_all add: N1_def)
  obtain f' where run: "RequestVoteHelper D 0 ?req ?f = Inr (f', \<lparr>rvr_Term = t, rvr_VoteGranted = True\<rparr>)"
    and f': "cm_currentTerm f' = t"
    using vote_is_granted [OF D reach_encodable [OF r q(1)] live_alive [OF L q(1)] low b] by blast
  define reply where "reply = \<lparr>rvr_Term = t, rvr_VoteGranted = True\<rparr>"
  have cand: "rv_CandidateId ?req = p" "rv_Term ?req = t"
    using reach_ids(1) [OF r p] by (simp_all add: requestVote_args_def)
  have step2: "cm_step D (net_cm N1 q) (L_RequestVote ?req reply) f'"
    unfolding N1 reply_def using run by (rule cm_step.RequestVote)
  have prompt2: "prompt (net_cm N1 q) (L_RequestVote ?req reply)"
    using cand reach_ids(4) [OF r p] reach_ids(1) [OF r q(1)] q(2) N1(4) by simp
  have del2: "deliverable (net_hist N1) q (L_RequestVote ?req reply)" using N1(5) q(2) by auto
  define N2 where "N2 = net_after q (L_RequestVote ?req reply) f' N1"
  have N2: "leads_to D ids N1 N2" "live D ids N2" "net_cm N2 p = c1" "net_cm N2 q = f'"
    "L_RequestVote ?req reply \<in> set (net_hist N2 q)"
    using live_move [OF N1(2) q(1) step2 _ _ prompt2 del2] q(2) N1(3) by (simp_all add: N2_def)
  define c2 where "c2 = handleVoteReply 0 t el reply (finished ?g c1)"
  have step3: "cm_step D (net_cm N2 p) (L_VoteReply t el q reply) c2"
    unfolding N2 c2_def by (rule cm_step.VoteReply) (simp add: c1_def pending_def)
  have prompt3: "prompt (net_cm N2 p) (L_VoteReply t el q reply)"
    using c N2(3) by (simp add: c1_def candidate_def)
  have del3: "deliverable (net_hist N2) p (L_VoteReply t el q reply)" using N2(5) cand by auto
  define N' where "N' = net_after p (L_VoteReply t el q reply) c2 N2"
  have N': "leads_to D ids N2 N'" "live D ids N'" "net_cm N' p = c2" "net_cm N' q = f'"
    "\<And>r. r \<noteq> p \<Longrightarrow> r \<noteq> q \<Longrightarrow> net_cm N' r = net_cm N r"
    using live_move [OF N2(2) p step3 _ _ prompt3 del3] q(2) N2(4) by (simp_all add: N'_def N2_def N1_def)
  have votes: "cm_votes (finished ?g c1) el = n" "cm_state (finished ?g c1) = Candidate"
    using c by (simp_all add: c1_def finished_def candidate_def)
  have c2: "c2 = (if majority (n + 1) ?cm then spawn [Go_StartLeader] else id)
      (finished ?g c1\<lparr>cm_votes := (cm_votes (finished ?g c1))(el := n + 1)\<rparr>)"
    using votes by (simp add: c2_def handleVoteReply_def reply_def Let_def majority_def c1_def)
  have "candidate t log el (n + 1) c2" using c by (simp add: c2 candidate_def c1_def finished_def)
  moreover have "majority (n + 1) ?cm \<Longrightarrow> pending Go_StartLeader c2" by (simp add: c2 pending_def)
  moreover have "pending (Go_RequestVote t el q') c2" if "q' \<noteq> q" "pending (Go_RequestVote t el q') ?cm" for q'
    using that by (simp add: c2 pending_def c1_def finished_def)
  ultimately show thesis
    using that [of N'] leads_to_trans [OF leads_to_trans [OF N1(1) N2(1)] N'(1)] N'(2-5) f' by simp
qed

lemma collect_votes:
  assumes D: "deps_ok D" and "live D ids N" and p: "p \<in> ids" and "set qs \<subseteq> ids - {p}" and "distinct qs" and "qs \<noteq> []"
    and "candidate t log el n (net_cm N p)" and "\<forall>q \<in> set qs. pending (Go_RequestVote t el q) (net_cm N p)"
    and "\<forall>q \<in> set qs. cm_currentTerm (net_cm N q) < t \<and> behind (net_cm N q) (net_cm N p)"
  shows "\<exists>N'. leads_to D ids N N' \<and> live D ids N' \<and> candidate t log el (n + int (length qs)) (net_cm N' p) \<and>
    (\<forall>r. r \<noteq> p \<longrightarrow> r \<notin> set qs \<longrightarrow> net_cm N' r = net_cm N r) \<and> (\<forall>q \<in> set qs. cm_currentTerm (net_cm N' q) = t) \<and>
    (majority (n + int (length qs)) (net_cm N p) \<longrightarrow> pending Go_StartLeader (net_cm N' p))"
  using assms(2,4-)
proof (induction qs arbitrary: N n)
  case (Cons q qs)
  have q: "q \<in> ids" "q \<noteq> p" "q \<notin> set qs" using Cons.prems(2,3) by auto
  obtain N1 where N1: "leads_to D ids N N1" "live D ids N1" "\<And>r. r \<noteq> p \<Longrightarrow> r \<noteq> q \<Longrightarrow> net_cm N1 r = net_cm N r"
    "cm_currentTerm (net_cm N1 q) = t" "candidate t log el (n + 1) (net_cm N1 p)"
    "majority (n + 1) (net_cm N p) \<Longrightarrow> pending Go_StartLeader (net_cm N1 p)"
    "\<And>q'. q' \<noteq> q \<Longrightarrow> pending (Go_RequestVote t el q') (net_cm N p) \<Longrightarrow> pending (Go_RequestVote t el q') (net_cm N1 p)"
    using collect_vote [OF D Cons.prems(1) p q(1,2) Cons.prems(5)] Cons.prems(6,7) by auto
  show ?case
  proof (cases "qs = []")
    case True
    with N1 show ?thesis by (intro exI [of _ N1]) auto
  next
    case False
    have logs: "cm_log (net_cm N1 p) = cm_log (net_cm N p)"
      using N1(5) Cons.prems(5) by (simp add: candidate_def)
    have maj: "majority k (net_cm N1 p) = majority k (net_cm N p)" for k
    proof -
      have "length (cm_peerIds (net_cm N1 p)) = length (cm_peerIds (net_cm N p))"
        using peers_list [OF live_reach [OF N1(2)] p] peers_list [OF live_reach [OF Cons.prems(1)] p]
        by (metis distinct_card)
      then show ?thesis by (simp add: majority_def)
    qed
    have "\<forall>x \<in> set qs. pending (Go_RequestVote t el x) (net_cm N1 p)"
      using N1(7) Cons.prems(6) q(3) by (metis list.set_intros(2))
    moreover have "\<forall>x \<in> set qs. cm_currentTerm (net_cm N1 x) < t \<and> behind (net_cm N1 x) (net_cm N1 p)"
    proof
      fix x assume x: "x \<in> set qs"
      then have "net_cm N1 x = net_cm N x" using N1(3) q(3) Cons.prems(2) by auto
      with x Cons.prems(7) behind_log [OF _ logs, of "net_cm N1 x" "net_cm N x"]
      show "cm_currentTerm (net_cm N1 x) < t \<and> behind (net_cm N1 x) (net_cm N1 p)" by simp
    qed
    ultimately obtain N2 where N2: "leads_to D ids N1 N2" "live D ids N2"
      "candidate t log el (n + 1 + int (length qs)) (net_cm N2 p)"
      "\<forall>r. r \<noteq> p \<longrightarrow> r \<notin> set qs \<longrightarrow> net_cm N2 r = net_cm N1 r" "\<forall>q \<in> set qs. cm_currentTerm (net_cm N2 q) = t"
      "majority (n + 1 + int (length qs)) (net_cm N1 p) \<longrightarrow> pending Go_StartLeader (net_cm N2 p)"
      using Cons.IH [OF N1(2) _ _ False N1(5)] Cons.prems(2,3) by auto
    have "cm_currentTerm (net_cm N2 q) = t" using N2(4) q N1(4) by simp
    moreover have "n + int (length (q # qs)) = n + 1 + int (length qs)" by simp
    moreover have "leads_to D ids N N2" using N1(1) N2(1) by (rule leads_to_trans)
    ultimately show ?thesis using N2 N1(3) maj by (intro exI [of _ N2]) (simp add: algebra_simps)
  qed
qed simp

text \<open>A server that no other is ahead of gets elected, and has no rival then.\<close>

lemma gets_elected:
  assumes D: "deps_ok D" and L: "live D ids N" and p: "p \<in> ids" and more: "ids \<noteq> {p}"
    and "cm_state (net_cm N p) \<in> {Follower, Candidate}"
    and terms: "\<forall>q \<in> ids. cm_currentTerm (net_cm N q) \<le> M" and M: "M < 2 ^ 63 - 1"
    and ahead: "\<forall>q \<in> ids. behind (net_cm N q) (net_cm N p)"
  obtains N' where "leads_to D ids N N'" and "unrivalled D ids p (M + 1) (cm_log (net_cm N p)) N'"
proof -
  let ?log = "cm_log (net_cm N p)"
  have "cm_currentTerm (net_cm N p) \<le> M" using terms p by blast
  from campaign [OF L p assms(5) this M] obtain N1 el where N1: "leads_to D ids N N1" "live D ids N1"
    "\<forall>r. r \<noteq> p \<longrightarrow> net_cm N1 r = net_cm N r" and c1: "candidate (M + 1) ?log el 1 (net_cm N1 p)"
    and g1: "\<forall>q \<in> ids - {p}. pending (Go_RequestVote (M + 1) el q) (net_cm N1 p)" by blast
  let ?qs = "cm_peerIds (net_cm N1 p)"
  note peers = peers_list [OF live_reach [OF N1(2)] p]
  have ne: "?qs \<noteq> []"
  proof
    assume "?qs = []"
    then have "ids - {p} = {}" using peers(1) by (metis list.set(1))
    with more p show False by blast
  qed
  have sub: "set ?qs \<subseteq> ids - {p}" using peers(1) by simp
  have low: "\<forall>q \<in> set ?qs. cm_currentTerm (net_cm N1 q) < M + 1 \<and> behind (net_cm N1 q) (net_cm N1 p)"
  proof
    fix q assume "q \<in> set ?qs"
    then have q: "q \<in> ids" "net_cm N1 q = net_cm N q" using sub N1(3) by auto
    moreover have "behind (net_cm N1 q) (net_cm N1 p) = behind (net_cm N q) (net_cm N p)"
      using q(2) c1 by (intro behind_log) (simp_all add: candidate_def)
    ultimately show "cm_currentTerm (net_cm N1 q) < M + 1 \<and> behind (net_cm N1 q) (net_cm N1 p)"
      using terms ahead by auto
  qed
  have g: "\<forall>q \<in> set ?qs. pending (Go_RequestVote (M + 1) el q) (net_cm N1 p)" using g1 sub by blast
  have maj: "majority (1 + int (length ?qs)) (net_cm N1 p)"
    using ne by (cases ?qs) (simp_all add: majority_def)
  obtain N2 where N2: "leads_to D ids N1 N2" "live D ids N2"
    "candidate (M + 1) ?log el (1 + int (length ?qs)) (net_cm N2 p)"
    "\<forall>q \<in> set ?qs. cm_currentTerm (net_cm N2 q) = M + 1" "pending Go_StartLeader (net_cm N2 p)"
    using collect_votes [OF D N1(2) p sub peers(2) ne c1 g low] maj by blast
  have "length (cm_peerIds (net_cm N2 p)) = length ?qs"
    using peers peers_list [OF live_reach [OF N2(2)] p] by (metis distinct_card)
  then have maj2: "majority (cm_votes (net_cm N2 p) (cm_elections (net_cm N2 p))) (net_cm N2 p)"
    using maj N2(3) by (simp add: majority_def candidate_def)
  let ?cm' = "startLeader (finished Go_StartLeader (net_cm N2 p))"
  have prompt: "prompt (net_cm N2 p) L_StartLeader" using N2(3) by (simp add: candidate_def)
  have timely: "timely (net_cm N2 p) L_StartLeader" using maj2 by simp
  note m = live_move [OF N2(2) p cm_step.StartLeader [OF N2(5)] _ timely prompt, simplified]
  let ?N' = "net_after p L_StartLeader ?cm' N2"
  have "cm_currentTerm (net_cm ?N' q) \<le> M + 1" if "q \<in> ids" for q
    using that N2(3,4) peers(1) by (cases "q = p") (auto simp: candidate_def)
  then have "unrivalled D ids p (M + 1) ?log ?N'"
    using m(2) p N2(3) by (auto simp: unrivalled_def live_def candidate_def)
  with that leads_to_trans [OF N1(1) leads_to_trans [OF N2(1) m(1)]] show thesis by blast
qed

section \<open>A leader with a rival\<close>

text \<open>It sends to a server in a later term, is told so and steps down, its log unchanged.\<close>

lemma steps_down:
  assumes D: "deps_ok D" and L: "live D ids N" and p: "p \<in> ids" and q: "q \<in> ids"
    and lead: "cm_state (net_cm N p) = Leader"
    and later: "cm_currentTerm (net_cm N p) < cm_currentTerm (net_cm N q)"
  obtains N' where "leads_to D ids N N'" and "live D ids N'" and "cm_state (net_cm N' p) = Follower"
    and "cm_currentTerm (net_cm N' p) = cm_currentTerm (net_cm N q)"
    and "\<And>r. cm_log (net_cm N' r) = cm_log (net_cm N r)"
    and "\<And>r. r \<noteq> p \<Longrightarrow> cm_currentTerm (net_cm N' r) = cm_currentTerm (net_cm N r)"
proof -
  let ?t = "cm_currentTerm (net_cm N p)" and ?f = "net_cm N q"
  have qp: "q \<noteq> p" using later by auto
  obtain l0 where step0: "cm_step D (net_cm N p) L_Heartbeat l0" and core0: "core l0 = core (net_cm N p)"
    and g: "pending (Go_SendAE ?t q) l0"
    by (rule heartbeat_step [OF live_reach [OF L] p lead]) (use q qp in blast)
  define N0 where "N0 = net_after p L_Heartbeat l0 N"
  have N0: "leads_to D ids N N0" "live D ids N0" "net_cm N0 p = l0" "net_cm N0 q = ?f"
    using live_move [OF L p step0] qp by (simp_all add: N0_def)
  have l0: "cm_state l0 = Leader" "cm_currentTerm l0 = ?t" "cm_log l0 = cm_log (net_cm N p)"
    using core0 lead by (simp_all add: core_iff)
  have "cm_state (net_cm N0 p) = Leader" using l0 N0(3) by simp
  from leader_requests_return [OF live_reach [OF N0(2)] p this q qp, of ?t] obtain req ni
    where args: "appendEntries_args ?t q l0 = Inr (req, ni)" unfolding N0(3) by blast
  note req = appendEntries_args_request [OF args]
  let ?g = "Go_AwaitAE ?t q ni (length (ae_Entries req))"
  define l1 where "l1 = spawn [?g] (finished (Go_SendAE ?t q) l0)"
  have step1: "cm_step D (net_cm N0 p) (L_SendAE q req) l1"
    unfolding N0 l1_def by (rule cm_step.SendAE [OF g args])
  have timely1: "timely (net_cm N0 p) (L_SendAE q req)" using l0 req(2) by (simp add: N0)
  define N1 where "N1 = net_after p (L_SendAE q req) l1 N0"
  have N1: "leads_to D ids N0 N1" "live D ids N1" "net_cm N1 p = l1" "net_cm N1 q = ?f"
    "L_SendAE q req \<in> set (net_hist N1 p)"
    using live_move [OF N0(2) p step1 _ timely1] N0(4) qp by (simp_all add: N1_def)
  have "returns (AppendEntriesHelper D 0 req (net_cm N1 q))"
    using N1(2) q by (intro handlers_return(2) [OF live_reach [OF N1(2)] D q _ N1(5)]) (simp add: live_def)
  then obtain f' reply where run: "AppendEntriesHelper D 0 req ?f = Inr (f', reply)"
    unfolding returns_iff N1(4) by auto
  have alive: "cm_state ?f \<noteq> Dead" by (rule live_alive [OF L q])
  have "\<not> aer_Success reply" using AppendEntriesHelper_log(1) [OF run] req(2) later by fastforce
  then have f': "cm_log f' = cm_log ?f" "cm_currentTerm f' = cm_currentTerm ?f" "aer_Term reply = cm_currentTerm ?f"
    using AppendEntriesHelper_log(2) [OF run] AppendEntriesHelper_frame(4) [OF run]
      AppendEntriesHelper_reply(1) [OF run alive] req(2) later by simp_all
  have step2: "cm_step D (net_cm N1 q) (L_AppendEntries req reply) f'"
    unfolding N1 using run by (rule cm_step.AppendEntries)
  have del2: "deliverable (net_hist N1) q (L_AppendEntries req reply)" using N1(5) qp by auto
  define N2 where "N2 = net_after q (L_AppendEntries req reply) f' N1"
  have N2: "leads_to D ids N1 N2" "live D ids N2" "net_cm N2 p = l1"
    "L_AppendEntries req reply \<in> set (net_hist N2 q)"
    using live_move [OF N1(2) q step2 _ _ _ del2] N1(3) qp by (simp_all add: N2_def)
  define l2 where "l2 = becomeFollower 0 (aer_Term reply) (finished ?g l1)"
  have "handleAEReply 0 ?t q ni (length (ae_Entries req)) reply (finished ?g l1) = Inr l2"
    using f'(3) later l0(2) by (simp add: handleAEReply_def l2_def l1_def)
  then have step3: "cm_step D (net_cm N2 p) (L_AEReply ?t q ni (length (ae_Entries req)) reply) l2"
    unfolding N2 by (intro cm_step.AEReply) (simp_all add: l1_def pending_def)
  have timely3: "timely (net_cm N2 p) (L_AEReply ?t q ni (length (ae_Entries req)) reply)"
    using l0(2) by (simp add: N2(3) l1_def)
  have "cm_id l0 = p" using reach_ids(1) [OF live_reach [OF N0(2)] p] by (simp add: N0(3))
  then have del3: "deliverable (net_hist N2) p (L_AEReply ?t q ni (length (ae_Entries req)) reply)"
    using N2(4) req(2,3,6) by auto
  define N' where "N' = net_after p (L_AEReply ?t q ni (length (ae_Entries req)) reply) l2 N2"
  have N': "leads_to D ids N2 N'" "live D ids N'"
    using live_move [OF N2(2) p step3 _ timely3 _ del3] by (simp_all add: N'_def)
  have cms: "net_cm N' r = (if r = p then l2 else if r = q then f' else net_cm N r)" for r
    by (simp add: N'_def N2_def N1_def N0_def)
  have l2: "cm_state l2 = Follower" "cm_currentTerm l2 = cm_currentTerm ?f" "cm_log l2 = cm_log (net_cm N p)"
    using l0(3) f'(3) by (simp_all add: l2_def l1_def)
  have to: "leads_to D ids N N'"
    using N0(1) N1(1) N2(1) N'(1) by (blast intro: leads_to_trans)
  show thesis
    by (rule that [OF to N'(2)]) (use l2 f' in \<open>simp_all add: cms\<close>)
qed

section \<open>Never stuck\<close>

lemma behind_total: "behind a b \<or> behind b a"
  by (auto simp: behind_def)

lemma behind_trans: "behind a b \<Longrightarrow> behind b c \<Longrightarrow> behind a c"
  by (auto simp: behind_def)

lemma most_up_to_date:
  assumes "finite A" and "A \<noteq> {}"
  shows "\<exists>p \<in> A. \<forall>q \<in> A. behind (cm q) (cm p)"
  using assms
proof (induction rule: finite_ne_induct)
  case (singleton x)
  then show ?case using behind_total by auto
next
  case (insert x A)
  then obtain p where "p \<in> A" "\<forall>q \<in> A. behind (cm q) (cm p)" by blast
  then show ?case using behind_total [of "cm x" "cm p"] behind_total [of "cm x" "cm x"] behind_trans by blast
qed

theorem never_stuck:
  assumes D: "deps_ok D" and L: "live D ids N" and card: "2 \<le> card ids"
    and terms: "\<forall>q \<in> ids. cm_currentTerm (net_cm N q) < 2 ^ 63 - 1"
  obtains p t N' where "p \<in> ids" and "leads_to D ids N N'" and "unrivalled D ids p t (cm_log (net_cm N p)) N'"
proof -
  have fin: "finite ids" and ne: "ids \<noteq> {}" using card by (auto intro: card_ge_0_finite)
  obtain p where p: "p \<in> ids" and ahead: "\<forall>q \<in> ids. behind (net_cm N q) (net_cm N p)"
    using most_up_to_date [OF fin ne, of "net_cm N"] by blast
  have more: "ids \<noteq> {p}" using card by auto
  let ?T = "(\<lambda>q. cm_currentTerm (net_cm N q)) ` ids"
  define M where "M = Max ?T"
  have max: "\<forall>q \<in> ids. cm_currentTerm (net_cm N q) \<le> M" using fin by (simp add: M_def)
  have "M \<in> ?T" unfolding M_def using fin ne by (intro Max_in) auto
  then obtain m where m: "m \<in> ids" "cm_currentTerm (net_cm N m) = M" by auto
  have M: "M < 2 ^ 63 - 1" using terms m by auto
  have alive: "cm_state (net_cm N p) \<noteq> Dead" by (rule live_alive [OF L p])
  show thesis
  proof (cases "cm_state (net_cm N p) = Leader")
    case False
    then have "cm_state (net_cm N p) \<in> {Follower, Candidate}" using alive by (cases "cm_state (net_cm N p)") auto
    from gets_elected [OF D L p more this max M ahead] that p show thesis by blast
  next
    case lead: True
    show thesis
    proof (cases "cm_currentTerm (net_cm N p) = M")
      case True
      then have "unrivalled D ids p M (cm_log (net_cm N p)) N"
        using L p lead max by (simp add: unrivalled_def live_def)
      with that p show thesis by (meson leads_to_refl)
    next
      case False
      then have "cm_currentTerm (net_cm N p) < cm_currentTerm (net_cm N m)" using max p m by force
      from steps_down [OF D L p m(1) lead this] obtain N1 where N1: "leads_to D ids N N1" "live D ids N1"
        "cm_state (net_cm N1 p) = Follower" "cm_currentTerm (net_cm N1 p) = M"
        and logs: "\<And>r. cm_log (net_cm N1 r) = cm_log (net_cm N r)"
        and same: "\<And>r. r \<noteq> p \<Longrightarrow> cm_currentTerm (net_cm N1 r) = cm_currentTerm (net_cm N r)"
        unfolding m(2) by metis
      have "\<forall>q \<in> ids. cm_currentTerm (net_cm N1 q) \<le> M"
      proof
        fix q assume "q \<in> ids"
        then show "cm_currentTerm (net_cm N1 q) \<le> M" using max N1(4) same [of q] by (cases "q = p") simp_all
      qed
      moreover have "\<forall>q \<in> ids. behind (net_cm N1 q) (net_cm N1 p)"
        using ahead behind_log [OF logs logs] by simp
      moreover have "cm_state (net_cm N1 p) \<in> {Follower, Candidate}" using N1(3) by simp
      ultimately obtain N' where "leads_to D ids N1 N'" "unrivalled D ids p (M + 1) (cm_log (net_cm N1 p)) N'"
        using gets_elected [OF D N1(2) p more _ _ M] by metis
      with that [OF p] leads_to_trans [OF N1(1)] logs show thesis by metis
    qed
  qed
qed

end
