(* ===== verification/Chat_System.thy ===== *)
theory Chat_System
  imports RaftServerSpec Broadcast_Spec Raft_Recovery
begin

text \<open>
  The running system: five server programs, each with its consensus module, the channel of
  committed commands, the database of users and groups that \<open>commitEntries\<close> writes with these
  commands, and the channel of groups to be told. A server program can end and be started
  again on its databases. Shown is what every database contains in every state of an execution.
\<close>

section \<open>The system\<close>

text \<open>The network of \<open>sys_net\<close> has the consensus modules of the servers, with their history.\<close>

record ('s, 'c) chat_system =
  sys_server :: "int \<Rightarrow> ('s, 'c) Server"
  sys_net :: "'s network"

abbreviation sys_store :: "('s, 'c) chat_system \<Rightarrow> int \<Rightarrow> 's DiskStore" where
  "sys_store S p \<equiv> cm_storage (srv_cm (sys_server S p))"

datatype sys_event =
    Raft int label
  | Apply int uint32
  | Announce int string

fun sent_entries :: "label \<Rightarrow> CommitEntry list" where
  "sent_entries (L_Commit es) = es"
| "sent_entries _ = []"

definition with_server :: "int \<Rightarrow> ('s, 'c) Server \<Rightarrow> 's network \<Rightarrow> ('s, 'c) chat_system \<Rightarrow> ('s, 'c) chat_system" where
  "with_server p s N S = \<lparr>sys_server = (sys_server S)(p := s), sys_net = N\<rparr>"

lemma with_server_simps [simp]:
  "sys_server (with_server p s N S) q = (if q = p then s else sys_server S q)"
  "sys_net (with_server p s N S) = N"
  by (simp_all add: with_server_def)

text \<open>
  A step of a consensus module, which may send on the channel of committed commands and, before a
  reply is handled, open a lost connection again; a new start
  of a server; a turn of \<open>commitEntries\<close>, which takes a command from the channel, with the group
  id a join would draw; and a turn of the broadcaster, which takes a group to be told.
\<close>

definition reconnects :: "label \<Rightarrow> (int, 'c option) fmap \<Rightarrow> (int, 'c option) fmap \<Rightarrow> bool" where
  "reconnects l clients clients' \<longleftrightarrow>
     (case l of
        L_VoteReply saved el peer reply \<Rightarrow> \<exists>G. reconnect_lost G peer clients = Inr clients'
      | L_AEReply saved peer ni n reply \<Rightarrow> \<exists>G. reconnect_lost G peer clients = Inr clients'
      | L_ForwardReply reply \<Rightarrow> \<exists>G leader. reconnect_lost G leader clients = Inr clients'
      | _ \<Rightarrow> clients' = clients)"

inductive sys_step ::
  "'s deps \<Rightarrow> int set \<Rightarrow> ('s, 'c) chat_system \<Rightarrow> sys_event \<Rightarrow> ('s, 'c) chat_system \<Rightarrow> bool" for D ids where
  Consensus:
    "net_step D ids (sys_net S) (p, l) N \<Longrightarrow> \<not> outside l \<Longrightarrow>
     reconnects l (srv_peerClients (sys_server S p)) clients \<Longrightarrow>
     s = (sys_server S p)\<lparr>srv_peerClients := clients, srv_cm := net_cm N p,
            srv_commitChan := srv_commitChan (sys_server S p) @ sent_entries l\<rparr> \<Longrightarrow>
     sys_step D ids S (Raft p l) (with_server p s N S)"
| Started_again:
    "net_step D ids (sys_net S) (p, l) N \<Longrightarrow> restarts l \<Longrightarrow>
     opens open_db p (sys_store S p) \<Longrightarrow> NewServer D open_db G p addr = Inr s0 \<Longrightarrow>
     srv_cm s0 = net_cm N p \<Longrightarrow> Serve s0 = Inr s \<Longrightarrow>
     sys_step D ids S (Raft p l) (with_server p s N S)"
| Applied:
    "p \<in> ids \<Longrightarrow> srv_commitChan (sys_server S p) \<noteq> [] \<Longrightarrow>
     commitEntries_step D gid (sys_server S p) = Inr s \<Longrightarrow>
     sys_step D ids S (Apply p gid) (with_server p s (net_after p L_Apply (srv_cm s) (sys_net S)) S)"
| Announced:
    "srv_broadcast (sys_server S p) = g # gs \<Longrightarrow>
     sys_step D ids S (Announce p g) (with_server p ((sys_server S p)\<lparr>srv_broadcast := gs\<rparr>) (sys_net S) S)"

text \<open>The servers as they have been started on databases without a log, all with the same chat.\<close>

definition sys_init :: "'s deps \<Rightarrow> int set \<Rightarrow> AChat \<Rightarrow> ('s, 'c) chat_system \<Rightarrow> bool" where
  "sys_init D ids c S \<longleftrightarrow> net_init ids (sys_net S) \<and>
     (\<forall>p \<in> ids. srv_cm (sys_server S p) = net_cm (sys_net S) p \<and>
        srv_commitChan (sys_server S p) = [] \<and> srv_broadcast (sys_server S p) = [] \<and>
        disk_ok D (sys_store S p) \<and> abs_store D (sys_store S p) = c)"

text \<open>
  What an execution has applied: for each start of a server, the last one first, how many
  commands it has taken from its channel; and the groups it has told since its last start.
\<close>

fun pass_after :: "int \<Rightarrow> sys_event \<Rightarrow> nat list \<Rightarrow> nat list" where
  "pass_after p (Raft q l) ns = (if q = p \<and> restarts l then 0 # ns else ns)"
| "pass_after p (Apply q gid) ns = (if q = p then Suc (hd ns) # tl ns else ns)"
| "pass_after p (Announce q g) ns = ns"

definition passes :: "int \<Rightarrow> sys_event list \<Rightarrow> nat list" where
  "passes p evs = fold (pass_after p) evs [0]"

fun told_after :: "int \<Rightarrow> sys_event \<Rightarrow> string list \<Rightarrow> string list" where
  "told_after p (Raft q l) gs = (if q = p \<and> restarts l then [] else gs)"
| "told_after p (Apply q gid) gs = gs"
| "told_after p (Announce q g) gs = (if q = p then gs @ [g] else gs)"

definition told :: "int \<Rightarrow> sys_event list \<Rightarrow> string list" where
  "told p evs = fold (told_after p) evs []"

text \<open>The chat after the passes, each from the start of the log.\<close>

abbreviation apply_passes :: "chat_op list \<Rightarrow> nat list \<Rightarrow> AChat \<Rightarrow> AChat" where
  "apply_passes L ns c \<equiv> foldr (\<lambda>n. ops_apply (take n L)) ns c"

section \<open>The two databases of a server\<close>

text \<open>The commands write the one, the consensus module the other.\<close>

lemmas store_op_defs =
  SaveUser_def DeleteUser_def UpdateGroup_def JoinGroup_def RemoveUserInGroup_def AppendMessage_def
  LikeMessage_def UnLikeMessage_def Let_def

lemmas store_splits = if_splits prod.splits option.splits bool.splits

lemma store_frames:
  "SaveUser D u st = Inr (b, st') \<Longrightarrow> replicatedlog st' = replicatedlog st"
  "DeleteUser D uid st = Inr st' \<Longrightarrow> replicatedlog st' = replicatedlog st"
  "JoinGroup D gid n u st = Inr st' \<Longrightarrow> replicatedlog st' = replicatedlog st"
  "RemoveUserInGroup D uid n st = Inr (b, st') \<Longrightarrow> replicatedlog st' = replicatedlog st"
  "AppendMessage D a st = Inr st' \<Longrightarrow> replicatedlog st' = replicatedlog st"
  "Storage.LikeMessage D l st = Inr st' \<Longrightarrow> replicatedlog st' = replicatedlog st"
  "Storage.UnLikeMessage D r st = Inr st' \<Longrightarrow> replicatedlog st' = replicatedlog st"
  by (auto simp: store_op_defs split: store_splits)

lemma persistData_frame:
  "persistData D gid e st = Inr (st', sent) \<Longrightarrow> replicatedlog st' = replicatedlog st"
  by (auto simp: persistData_def Let_def dest!: store_frames split: if_splits)

lemma step_diskstore:
  assumes "cm_step D cm l cm'" and "l \<noteq> L_Apply"
  shows "diskstore (cm_storage cm') = diskstore (cm_storage cm)"
  using assms
  by (cases rule: cm_step.cases)
    (auto simp: handler_defs Stop_def persistToStorage_def SetState_def dest!: restart_started(4)
      split: if_splits prod.splits)

lemma abs_store_disk: "diskstore st' = diskstore st \<Longrightarrow> abs_store D st' = abs_store D st"
  by (simp add: abs_store_def GetGroup_def)

lemma disk_ok_disk: "diskstore st' = diskstore st \<Longrightarrow> disk_ok D st' = disk_ok D st"
  by (simp add: disk_ok_def store_invar_def GetGroup_def)

section \<open>When a command can be applied\<close>

text \<open>
  Well-formed commands can be applied as long as no group has got the largest number of posts;
  every command adds at most one.
\<close>

fun op_wf :: "chat_op \<Rightarrow> bool" where
  "op_wf (Op_Join u new cur) = group_name_ok new"
| "op_wf (Op_Post m g) = message_ok m"
| "op_wf _ = True"

definition room :: "nat \<Rightarrow> AChat \<Rightarrow> bool" where
  "room n c \<longleftrightarrow> (\<forall>g. length (posts c g) + n \<le> max_posts)"

lemma op_ok_wf: "op_wf x \<Longrightarrow> room (Suc n) c \<Longrightarrow> op_ok x c"
  by (cases x) (auto simp: room_def Suc_le_eq intro: le_less_trans [OF le_add1])

lemma posts_op: "length (posts (op_apply x c) h) \<le> length (posts c h) + 1"
  by (cases x) (simp_all add: a_post_def a_like_def a_unlike_def posts_upd_posts_le [where k = 1, simplified])

lemma room_apply: "room (Suc n) c \<Longrightarrow> room n (op_apply x c)"
  unfolding room_def
proof
  fix h
  assume "\<forall>g. length (posts c g) + Suc n \<le> max_posts"
  then have "length (posts c h) + Suc n \<le> max_posts" by blast
  with posts_op [of x c h] show "length (posts (op_apply x c) h) + n \<le> max_posts" by simp
qed

lemma room_mono: "room n c \<Longrightarrow> m \<le> n \<Longrightarrow> room m c"
  by (meson room_def add_le_cancel_left order_trans)

lemma ops_ok_wf: "\<forall>x \<in> set xs. op_wf x \<Longrightarrow> room (length xs) c \<Longrightarrow> ops_ok xs c"
  by (induction xs arbitrary: c) (auto intro: op_ok_wf room_apply)

lemma room_ops: "room (n + length xs) c \<Longrightarrow> room n (ops_apply xs c)"
  by (induction xs arbitrary: c) (auto intro: room_apply)

lemma room_passes: "room (n + sum_list ns) c \<Longrightarrow> room n (apply_passes L ns c)"
proof (induction ns arbitrary: n)
  case (Cons k ns)
  then have "room (n + length (take k L) + sum_list ns) c" by (elim room_mono) simp
  from room_ops [OF Cons.IH [OF this]] show ?case by simp
qed simp

lemma sum_list_pass: "ns \<noteq> [] \<Longrightarrow> sum_list ns \<le> sum_list (pass_after p ev ns) \<and> pass_after p ev ns \<noteq> []"
  by (cases ev; cases ns) auto

lemma sum_list_passes: "ns \<noteq> [] \<Longrightarrow> sum_list ns \<le> sum_list (fold (pass_after p) evs ns) \<and> fold (pass_after p) evs ns \<noteq> []"
proof (induction evs arbitrary: ns)
  case (Cons ev evs)
  from Cons.IH [of "pass_after p ev ns"] sum_list_pass [OF Cons.prems, of p ev] show ?case
    by (auto intro: order_trans)
qed simp

text \<open>More of the log does not change what the passes so far have done.\<close>

lemma apply_passes_append: "\<forall>n \<in> set ns. n \<le> length L \<Longrightarrow> apply_passes (L @ M) ns c = apply_passes L ns c"
  by (induction ns) simp_all

section \<open>What the databases contain\<close>

abbreviation cmd :: "chat_op \<Rightarrow> Command option" where
  "cmd x \<equiv> Some (command_of x)"

text \<open>
  The part of a server: its consensus module is that of the network; the commands it has taken
  from its channel and those that are in it are what has been delivered to it; its database
  contains the chat after the passes; and the groups of the commands taken have been told or are
  in the channel of the broadcaster.
\<close>

definition server_in_step ::
  "'s deps \<Rightarrow> chat_op list \<Rightarrow> AChat \<Rightarrow> 's network \<Rightarrow> int \<Rightarrow> ('s, 'c) Server \<Rightarrow> nat list \<Rightarrow> string list \<Rightarrow> bool" where
  "server_in_step D L c N p s ns gs \<longleftrightarrow> srv_cm s = net_cm N p \<and> ns \<noteq> [] \<and> (\<forall>n \<in> set ns. n \<le> length L) \<and>
     hd ns \<le> length (delivered N p) \<and>
     map ce_Command (srv_commitChan s) = drop (hd ns) (map fst (delivered N p)) \<and>
     disk_ok D (cm_storage (srv_cm s)) \<and> abs_store D (cm_storage (srv_cm s)) = apply_passes L ns c \<and>
     gs @ srv_broadcast s = concat (map op_groups (take (hd ns) L))"

lemma server_in_stepD:
  assumes "server_in_step D L c N p s ns gs"
  shows "srv_cm s = net_cm N p" and "ns \<noteq> []" and "\<forall>n \<in> set ns. n \<le> length L" and "hd ns \<le> length (delivered N p)"
    and "map ce_Command (srv_commitChan s) = drop (hd ns) (map fst (delivered N p))"
    and "disk_ok D (cm_storage (srv_cm s))" and "abs_store D (cm_storage (srv_cm s)) = apply_passes L ns c"
    and "gs @ srv_broadcast s = concat (map op_groups (take (hd ns) L))"
  using assms unfolding server_in_step_def by blast+

lemma server_in_step_grows:
  assumes "server_in_step D L c N p s ns gs" and "net_cm N' p = net_cm N p" and "delivered N' p = delivered N p"
  shows "server_in_step D (L @ M) c N' p s ns gs"
proof -
  note d = server_in_stepD [OF assms(1)]
  have "hd ns \<le> length L" using d(2,3) by simp
  then have "take (hd ns) (L @ M) = take (hd ns) L" by simp
  with d assms(2,3) show ?thesis
    unfolding server_in_step_def apply_passes_append [OF d(3)] by (auto intro: trans_le_add1)
qed

definition in_step ::
  "'s deps \<Rightarrow> int set \<Rightarrow> AChat \<Rightarrow> ('s, 'c) chat_system \<Rightarrow> broadcast \<Rightarrow> chat_op list \<Rightarrow>
   (int \<Rightarrow> nat list) \<Rightarrow> (int \<Rightarrow> string list) \<Rightarrow> bool" where
  "in_step D ids c S b L ns gs \<longleftrightarrow> represents D ids (sys_net S) b \<and> bc_log b = map cmd L \<and>
     (\<forall>x \<in> set L. op_wf x) \<and>
     (\<forall>p \<in> ids. server_in_step D L c (sys_net S) p (sys_server S p) (ns p) (gs p))"

text \<open>The log only grows, by well-formed commands if only such are submitted.\<close>

definition submitted_ok :: "int set \<Rightarrow> 's network \<Rightarrow> bool" where
  "submitted_ok ids N \<longleftrightarrow> (\<forall>c \<in># submissions ids N. \<exists>x. c = cmd x \<and> op_wf x)"

lemma wf_commands: "\<forall>c \<in> set cs. \<exists>x. c = cmd x \<and> op_wf x \<Longrightarrow> \<exists>L. cs = map cmd L \<and> (\<forall>x \<in> set L. op_wf x)"
proof (induction cs)
  case (Cons c cs)
  then obtain x L where "c = cmd x" "op_wf x" "cs = map cmd L" "\<forall>x \<in> set L. op_wf x" by auto
  then show ?case by (intro exI [of _ "x # L"]) simp
qed simp

lemma log_grows:
  assumes "represents D ids N b" and "net_step D ids N pl N'" and "bc_log b = map cmd L" and "submitted_ok ids N'"
  obtains b' M where "represents D ids N' b'" and "bc_log b' = map cmd (L @ M)" and "\<forall>x \<in> set M. op_wf x"
proof -
  obtain b' where b': "bc_step b (observe pl) b'" "represents D ids N' b'"
    using refinement_square [OF assms(1,2)] by blast
  then have "prefix (bc_log b) (bc_log b')" using bc_log_grows [of b "[observe pl]" b'] by auto
  then obtain cs where cs: "bc_log b' = map cmd L @ cs" unfolding assms(3) prefix_def by blast
  have "set_mset (mset (bc_log b')) \<subseteq> set_mset (submissions ids N')"
    using b'(2) unfolding represents_def by (metis set_mset_mono)
  then have "\<forall>c \<in> set cs. \<exists>x. c = cmd x \<and> op_wf x"
    using assms(4) cs by (auto simp: submitted_ok_def)
  then obtain M where "cs = map cmd M" "\<forall>x \<in> set M. op_wf x" using wf_commands by blast
  with that b'(2) cs show thesis by simp
qed

lemma delivered_commands_log:
  assumes "represents D ids N b" and "bc_log b = map cmd L" and "p \<in> ids"
  shows "map fst (delivered N p) = map cmd (take (length (delivered N p)) L)" and "length (delivered N p) \<le> length L"
proof -
  have c: "prefix (map le_Command (committed (net_cm N p))) (map cmd L)" and r: "reach D ids N"
    using assms by (simp_all add: represents_def)
  note d = delivered_placed [OF r assms(3) c]
  then show "length (delivered N p) \<le> length L" by simp
  have "map fst (placed (map cmd L)) = map cmd L" by (simp add: placed_def)
  with d(1) show "map fst (delivered N p) = map cmd (take (length (delivered N p)) L)" by (metis take_map)
qed

text \<open>The kinds of steps, seen from the server that takes them.\<close>

lemma sent_delivery: "map ce_Command (sent_entries l) = map fst (delivery l)"
  by (cases l) simp_all

lemma consensus_in_step:
  assumes "server_in_step D L c N p s ns gs" and "delivered N' p = delivered N p @ delivery l"
    and "diskstore (cm_storage (net_cm N' p)) = diskstore (cm_storage (net_cm N p))"
  shows "server_in_step D (L @ M) c N' p
    (s\<lparr>srv_peerClients := clients, srv_cm := net_cm N' p, srv_commitChan := srv_commitChan s @ sent_entries l\<rparr>) ns gs"
proof -
  note d = server_in_stepD [OF assms(1)]
  have "hd ns \<le> length L" using d(2,3) by simp
  then have "take (hd ns) (L @ M) = take (hd ns) L" by simp
  with d assms(2) disk_ok_disk [OF assms(3)] abs_store_disk [OF assms(3)] show ?thesis
    unfolding server_in_step_def apply_passes_append [OF d(3)] by (auto simp: sent_delivery intro: trans_le_add1)
qed

lemma restart_in_step:
  assumes "server_in_step D L c N p s ns gs" and "delivered N' p = []" and "srv_cm s' = net_cm N' p"
    and "cm_storage (net_cm N' p) = cm_storage (net_cm N p)" and "srv_commitChan s' = []" and "srv_broadcast s' = []"
  shows "server_in_step D (L @ M) c N' p s' (0 # ns) []"
proof -
  note d = server_in_stepD [OF assms(1)]
  have "apply_passes (L @ M) (0 # ns) c = apply_passes L ns c" using apply_passes_append [OF d(3)] by simp
  with d assms(2-6) show ?thesis
    unfolding server_in_step_def by (auto intro: trans_le_add1)
qed

lemma announce_in_step:
  assumes "server_in_step D L c N p s ns gs" and "srv_broadcast s = g # hs"
  shows "server_in_step D L c N p (s\<lparr>srv_broadcast := hs\<rparr>) ns (gs @ [g])"
  using server_in_stepD [OF assms(1)] assms(2) unfolding server_in_step_def by simp

lemma apply_in_step:
  assumes s: "server_in_step D L c N p s ns gs" and "srv_commitChan s \<noteq> []"
    and del: "map fst (delivered N p) = map cmd (take (length (delivered N p)) L)" "length (delivered N p) \<le> length L"
    and wf: "\<forall>x \<in> set L. op_wf x" and room: "room (Suc (sum_list ns)) c"
  obtains s' where "commitEntries_step D gid s = Inr s'" and "srv_commitChan s' = tl (srv_commitChan s)"
    and "\<exists>store. replicatedlog store = replicatedlog (cm_storage (srv_cm s)) \<and> srv_cm s' = srv_cm s\<lparr>cm_storage := store\<rparr>"
    and "\<And>N'. net_cm N' p = srv_cm s' \<Longrightarrow> delivered N' p = delivered N p \<Longrightarrow>
      server_in_step D L c N' p s' (Suc (hd ns) # tl ns) gs"
proof -
  note d = server_in_stepD [OF s]
  obtain h ts where ns: "ns = h # ts" using d(2) by (cases ns) auto
  obtain e es where chan: "srv_commitChan s = e # es" using assms(2) by (cases "srv_commitChan s") auto
  let ?k = "length (delivered N p)"
  have "map ce_Command (e # es) = drop h (map cmd (take ?k L))" using d(5) del(1) by (simp add: chan ns)
  also have "\<dots> = map cmd (drop h (take ?k L))" by (rule drop_map)
  finally have chan': "map ce_Command (e # es) = map cmd (drop h (take ?k L))" .
  then have "drop h (take ?k L) \<noteq> []" by (metis list.simps(3,8) map_is_Nil_conv)
  then have h: "h < ?k" "h < length L" using del(2) by simp_all
  then have "drop h (take ?k L) = L ! h # drop (Suc h) (take ?k L)"
    using Cons_nth_drop_Suc [of h "take ?k L"] del(2) by simp
  then have e: "ce_Command e = cmd (L ! h)" and "map ce_Command es = map cmd (drop (Suc h) (take ?k L))"
    using chan' by simp_all
  then have es: "map ce_Command es = drop (Suc h) (map fst (delivered N p))" using del(1) by (simp add: drop_map)
  let ?store = "cm_storage (srv_cm s)"
  have "room (Suc 0) (abs_store D ?store)"
    unfolding d(7) by (rule room_passes) (use room in simp)
  then have "op_ok (L ! h) (abs_store D ?store)" using wf h(2) by (intro op_ok_wf) simp_all
  from persistData_refines [OF d(6) this e] obtain store'
    where store': "persistData D gid e ?store = Inr (store', op_groups (L ! h))" "disk_ok D store'"
      "abs_store D store' = op_apply (L ! h) (abs_store D ?store)" by blast
  let ?s' = "s\<lparr>srv_commitChan := es, srv_cm := srv_cm s\<lparr>cm_storage := store'\<rparr>,
    srv_broadcast := srv_broadcast s @ op_groups (L ! h)\<rparr>"
  have step: "take (Suc h) L = take h L @ [L ! h]" by (rule take_Suc_conv_app_nth [OF h(2)])
  have "server_in_step D L c N' p ?s' (Suc (hd ns) # tl ns) gs"
    if "net_cm N' p = srv_cm ?s'" "delivered N' p = delivered N p" for N'
    unfolding server_in_step_def
  proof (intro conjI)
    show "abs_store D (cm_storage (srv_cm ?s')) = apply_passes L (Suc (hd ns) # tl ns) c"
      using store'(3) d(7) by (simp add: ns step)
    show "gs @ srv_broadcast ?s' = concat (map op_groups (take (hd (Suc (hd ns) # tl ns)) L))"
      using d(8) by (simp add: ns step)
    show "map ce_Command (srv_commitChan ?s') = drop (hd (Suc (hd ns) # tl ns)) (map fst (delivered N' p))"
      using es that(2) by (simp add: ns)
  qed (use that store'(2) h d(3) in \<open>simp_all add: ns\<close>)
  moreover have "commitEntries_step D gid s = Inr ?s'" by (simp add: commitEntries_step_def chan store'(1))
  moreover have "replicatedlog store' = replicatedlog ?store" by (rule persistData_frame [OF store'(1)])
  ultimately show thesis by (intro that [of ?s']) (auto simp: chan)
qed

section \<open>Every step keeps it\<close>

lemma net_stepE:
  assumes "net_step D ids N (p, l) N'" and "represents D ids N b"
  obtains cm' where "net_move D ids N p l cm'" and "N' = net_after p l cm' N"
  using assms by (auto simp: net_step_def net_move_def represents_def)

lemma net_step_diskstore:
  assumes "net_move D ids N p l cm'" and "l \<noteq> L_Apply"
  shows "diskstore (cm_storage cm') = diskstore (cm_storage (net_cm N p))"
proof -
  have "cm_step D (net_cm N p) l cm'" using net_moveD(5) [OF assms(1)] by (simp add: prompt_step_def)
  then show ?thesis using assms(2) by (rule step_diskstore)
qed

lemma new_server_storage:
  assumes "NewServer D open_db G p addr = Inr s0" and "opens open_db p st" and "Serve s0 = Inr s"
  shows "srv_cm s = srv_cm s0" and "cm_storage (srv_cm s0) = st" and "srv_commitChan s = []" and "srv_broadcast s = []"
  using assms restart_started(4) [OF assms(2)]
  by (auto simp: NewServer_def Serve_def Let_def split: if_splits)

lemma applied_net_step:
  assumes "reach D ids N" and "p \<in> ids" and "replicatedlog store = replicatedlog (cm_storage (net_cm N p))"
  shows "net_step D ids N (p, L_Apply) (net_after p L_Apply (net_cm N p\<lparr>cm_storage := store\<rparr>) N)"
  using assms cm_step.Applied [OF assms(3), of D] by (auto simp: net_step_def prompt_step_def)

text \<open>A step of one server in the network, whatever it does to the server's own part.\<close>

lemma net_in_step:
  assumes inv: "in_step D ids c S b L ns gs" and step: "net_step D ids (sys_net S) (p, l) N"
    and subs: "submitted_ok ids N"
    and own: "\<And>M. server_in_step D (L @ M) c N p s (ns' p) (gs' p)"
    and rest: "\<And>q. q \<noteq> p \<Longrightarrow> ns' q = ns q \<and> gs' q = gs q"
  shows "\<exists>b' M. in_step D ids c (with_server p s N S) b' (L @ M) ns' gs'"
proof -
  have rep: "represents D ids (sys_net S) b" and log: "bc_log b = map cmd L" and wf: "\<forall>x \<in> set L. op_wf x"
    using inv by (simp_all add: in_step_def)
  obtain b' M where b': "represents D ids N b'" "bc_log b' = map cmd (L @ M)" "\<forall>x \<in> set M. op_wf x"
    by (rule log_grows [OF rep step log subs])
  obtain cm' where N: "N = net_after p l cm' (sys_net S)" using net_stepE [OF step rep] by blast
  have "server_in_step D (L @ M) c N q (sys_server S q) (ns' q) (gs' q)" if "q \<in> ids" "q \<noteq> p" for q
  proof -
    have "server_in_step D L c (sys_net S) q (sys_server S q) (ns q) (gs q)"
      using inv that(1) by (simp add: in_step_def)
    then have "server_in_step D (L @ M) c N q (sys_server S q) (ns q) (gs q)"
      by (rule server_in_step_grows) (use that(2) in \<open>simp_all add: N delivered_after\<close>)
    then show ?thesis using rest [OF that(2)] by simp
  qed
  with b' wf own show ?thesis by (intro exI [of _ b'] exI [of _ M]) (auto simp: in_step_def)
qed

lemma consensus_step:
  assumes inv: "in_step D ids c S b L ns gs" and step: "net_step D ids (sys_net S) (p, l) N" and l: "\<not> outside l"
    and subs: "submitted_ok ids N"
  shows "\<exists>b' M. in_step D ids c (with_server p ((sys_server S p)\<lparr>srv_peerClients := clients, srv_cm := net_cm N p,
    srv_commitChan := srv_commitChan (sys_server S p) @ sent_entries l\<rparr>) N S) b' (L @ M) ns gs"
proof -
  obtain cm' where move: "net_move D ids (sys_net S) p l cm'" and N: "N = net_after p l cm' (sys_net S)"
    using net_stepE [OF step] inv by (auto simp: in_step_def)
  have own: "server_in_step D L c (sys_net S) p (sys_server S p) (ns p) (gs p)"
    using inv net_moveD(2) [OF move] by (simp add: in_step_def)
  have "diskstore (cm_storage cm') = diskstore (cm_storage (net_cm (sys_net S) p))"
    using net_step_diskstore [OF move] l by simp
  then show ?thesis
    by (intro net_in_step [OF inv step subs] consensus_in_step [OF own]) (use l in \<open>simp_all add: N delivered_after\<close>)
qed

lemma restart_step:
  assumes inv: "in_step D ids c S b L ns gs" and step: "net_step D ids (sys_net S) (p, l) N" and l: "restarts l"
    and subs: "submitted_ok ids N" and new: "NewServer D open_db G p addr = Inr s0"
    and "opens open_db p (sys_store S p)" and "srv_cm s0 = net_cm N p" and "Serve s0 = Inr s"
  shows "\<exists>b' M. in_step D ids c (with_server p s N S) b' (L @ M) (ns(p := 0 # ns p)) (gs(p := []))"
proof -
  obtain cm' where move: "net_move D ids (sys_net S) p l cm'" and N: "N = net_after p l cm' (sys_net S)"
    using net_stepE [OF step] inv by (auto simp: in_step_def)
  have own: "server_in_step D L c (sys_net S) p (sys_server S p) (ns p) (gs p)"
    using inv net_moveD(2) [OF move] by (simp add: in_step_def)
  note s = new_server_storage [OF new assms(6,8)]
  have "cm_storage (net_cm N p) = cm_storage (net_cm (sys_net S) p)"
    using s(2) assms(7) server_in_stepD(1) [OF own] by simp
  then have "server_in_step D (L @ M) c N p s (0 # ns p) []" for M
    by (intro restart_in_step [OF own]) (use s l assms(7) in \<open>simp_all add: N delivered_after\<close>)
  then show ?thesis by (intro net_in_step [OF inv step subs]) simp_all
qed

lemma apply_step:
  assumes inv: "in_step D ids c S b L ns gs" and p: "p \<in> ids" "srv_commitChan (sys_server S p) \<noteq> []"
    and run: "commitEntries_step D gid (sys_server S p) = Inr s"
    and subs: "submitted_ok ids (sys_net S)" and room: "room (Suc (sum_list (ns p))) c"
  shows "\<exists>b' M. in_step D ids c (with_server p s (net_after p L_Apply (srv_cm s) (sys_net S)) S) b' (L @ M)
    (ns(p := Suc (hd (ns p)) # tl (ns p))) gs"
proof -
  let ?N = "net_after p L_Apply (srv_cm s) (sys_net S)"
  have rep: "represents D ids (sys_net S) b" and log: "bc_log b = map cmd L" and wf: "\<forall>x \<in> set L. op_wf x"
    and own: "server_in_step D L c (sys_net S) p (sys_server S p) (ns p) (gs p)"
    using inv p(1) by (simp_all add: in_step_def)
  have reach: "reach D ids (sys_net S)" using rep by (simp add: represents_def)
  obtain s' where "commitEntries_step D gid (sys_server S p) = Inr s'"
    and store: "\<exists>store. replicatedlog store = replicatedlog (sys_store S p) \<and>
      srv_cm s' = srv_cm (sys_server S p)\<lparr>cm_storage := store\<rparr>"
    and next_s: "\<And>N'. net_cm N' p = srv_cm s' \<Longrightarrow> delivered N' p = delivered (sys_net S) p \<Longrightarrow>
      server_in_step D L c N' p s' (Suc (hd (ns p)) # tl (ns p)) (gs p)"
    using apply_in_step [OF own p(2) delivered_commands_log [OF rep log p(1)] wf room, of gid] by metis
  then have s': "s' = s" using run by simp
  have step: "net_step D ids (sys_net S) (p, L_Apply) ?N"
    using applied_net_step [OF reach p(1)] store server_in_stepD(1) [OF own] by (auto simp: s')
  have "server_in_step D L c ?N p s (Suc (hd (ns p)) # tl (ns p)) (gs p)"
    using next_s [of ?N] by (simp add: s' delivered_after)
  then have "server_in_step D (L @ M) c ?N p s (Suc (hd (ns p)) # tl (ns p)) (gs p)" for M
    by (rule server_in_step_grows) simp_all
  moreover have "submitted_ok ids ?N"
    using subs by (simp add: submitted_ok_def submissions_after [OF reach_finite [OF reach p(1)] p(1)])
  ultimately show ?thesis by (intro net_in_step [OF inv step]) simp_all
qed

lemma announce_step:
  assumes "in_step D ids c S b L ns gs" and "srv_broadcast (sys_server S p) = g # hs"
  shows "in_step D ids c (with_server p ((sys_server S p)\<lparr>srv_broadcast := hs\<rparr>) (sys_net S) S) b L ns (gs(p := gs p @ [g]))"
  using assms announce_in_step [OF _ assms(2)] by (simp add: in_step_def)

lemma sys_step_in_step:
  assumes inv: "in_step D ids c S b L ns gs" and step: "sys_step D ids S ev S'" and subs: "submitted_ok ids (sys_net S')"
    and room: "\<forall>p \<in> ids. room (sum_list (pass_after p ev (ns p))) c"
  shows "\<exists>b' M. in_step D ids c S' b' (L @ M) (\<lambda>p. pass_after p ev (ns p)) (\<lambda>p. told_after p ev (gs p))"
  using step
proof (cases rule: sys_step.cases)
  case (Consensus p l N clients s)
  then have "(\<lambda>q. pass_after q ev (ns q)) = ns" and "(\<lambda>q. told_after q ev (gs q)) = gs" by (auto simp: fun_eq_iff)
  with consensus_step [OF inv Consensus(3,4), of clients] Consensus(2,6) subs show ?thesis by simp
next
  case (Started_again p l N open_db G addr s0 s)
  then have "(\<lambda>q. pass_after q ev (ns q)) = ns(p := 0 # ns p)" and "(\<lambda>q. told_after q ev (gs q)) = gs(p := [])"
    by (auto simp: fun_eq_iff)
  with restart_step [OF inv Started_again(3,4) _ Started_again(6,5,7,8)] Started_again(2) subs show ?thesis by simp
next
  case (Applied p gid s)
  have eq: "(\<lambda>q. pass_after q ev (ns q)) = ns(p := Suc (hd (ns p)) # tl (ns p))" "(\<lambda>q. told_after q ev (gs q)) = gs"
    by (auto simp: fun_eq_iff Applied(1))
  have "ns p \<noteq> []" using inv Applied(3) by (auto simp: in_step_def server_in_step_def)
  then have "sum_list (pass_after p ev (ns p)) = Suc (sum_list (ns p))" by (cases "ns p") (simp_all add: Applied(1))
  then have r: "room (Suc (sum_list (ns p))) c" using room Applied(3) by metis
  have "finite ids" using inv Applied(3) by (auto simp: in_step_def represents_def intro: reach_finite)
  then have "submitted_ok ids (sys_net S)"
    using subs by (simp add: Applied(2) submitted_ok_def submissions_after [OF _ Applied(3)])
  from apply_step [OF inv Applied(3,4,5) this r] show ?thesis unfolding eq by (simp add: Applied(2))
next
  case (Announced p g hs)
  then have "(\<lambda>q. pass_after q ev (ns q)) = ns" and "(\<lambda>q. told_after q ev (gs q)) = gs(p := gs p @ [g])"
    by (auto simp: fun_eq_iff)
  with announce_step [OF inv Announced(3)] show ?thesis by (intro exI [of _ b] exI [of _ "[]"]) (simp add: Announced(2))
qed

section \<open>Executions\<close>

lemma sys_step_submissions:
  fixes S :: "('s, 'c) chat_system"
  assumes "finite ids" and "sys_step D ids S ev S'"
  shows "submissions ids (sys_net S) \<subseteq># submissions ids (sys_net S')"
proof -
  have net: "submissions ids N \<subseteq># submissions ids N'" if step: "net_step D ids N (p, l) N'" for p l and N N' :: "'s network"
  proof -
    obtain cm' where "p \<in> ids" "N' = net_after p l cm' N" using step by (auto simp: net_step_def)
    then show ?thesis by (simp add: submissions_after [OF assms(1)] mset_subset_eq_add_left)
  qed
  from assms(2) show ?thesis
  proof (cases rule: sys_step.cases)
    case (Applied p gid s)
    then show ?thesis by (simp add: submissions_after [OF assms(1)])
  qed (use net in auto)
qed

lemma submitted_ok_run:
  assumes "runs (sys_step D ids) S evs S'" and "finite ids" and "submitted_ok ids (sys_net S')"
  shows "submitted_ok ids (sys_net S)"
  using assms
proof (induction rule: runs.induct)
  case (runs_cons S ev S1 evs S2)
  then show ?case
    using mset_subset_eqD [OF sys_step_submissions [OF runs_cons.prems(1) runs_cons.hyps(1)]]
    by (auto simp: submitted_ok_def)
qed simp

lemma in_step_nonempty: "in_step D ids c S b L ns gs \<Longrightarrow> p \<in> ids \<Longrightarrow> ns p \<noteq> []"
  by (auto simp: in_step_def server_in_step_def)

lemma in_step_finite: "in_step D ids c S b L ns gs \<Longrightarrow> p \<in> ids \<Longrightarrow> finite ids"
  by (auto simp: in_step_def represents_def intro: reach_finite)

lemma run_in_step:
  assumes "runs (sys_step D ids) S evs S'" and "in_step D ids c S b L ns gs" and "finite ids"
    and "submitted_ok ids (sys_net S')"
    and "\<forall>p \<in> ids. room (sum_list (fold (pass_after p) evs (ns p))) c"
  shows "\<exists>b' M. in_step D ids c S' b' (L @ M) (\<lambda>p. fold (pass_after p) evs (ns p)) (\<lambda>p. fold (told_after p) evs (gs p))"
  using assms(1,2,4,5)
proof (induction arbitrary: b L ns gs rule: runs.induct)
  case (runs_cons S ev S1 evs S2)
  have "room (sum_list (pass_after p ev (ns p))) c" if "p \<in> ids" for p
  proof -
    have "pass_after p ev (ns p) \<noteq> []"
      using sum_list_pass [OF in_step_nonempty [OF runs_cons.prems(1) that]] by blast
    from sum_list_passes [OF this, of p evs] runs_cons.prems(3) that show ?thesis by (auto intro: room_mono)
  qed
  then obtain b1 M1 where
    "in_step D ids c S1 b1 (L @ M1) (\<lambda>p. pass_after p ev (ns p)) (\<lambda>p. told_after p ev (gs p))"
    using sys_step_in_step [OF runs_cons.prems(1) runs_cons.hyps(1)]
      submitted_ok_run [OF runs_cons.hyps(2) assms(3) runs_cons.prems(2)] by blast
  from runs_cons.IH [OF this runs_cons.prems(2)] runs_cons.prems(3) obtain b' M' where
    "in_step D ids c S2 b' ((L @ M1) @ M') (\<lambda>p. fold (pass_after p) (ev # evs) (ns p))
      (\<lambda>p. fold (told_after p) (ev # evs) (gs p))" by auto
  then show ?case unfolding append_assoc by blast
next
  case (runs_nil S)
  then show ?case by (intro exI [of _ b] exI [of _ "[]"]) simp
qed

lemma init_in_step: "sys_init D ids c S \<Longrightarrow> in_step D ids c S bc_init [] (\<lambda>_. [0]) (\<lambda>_. [])"
  using represents_init [of ids "sys_net S" D]
  by (auto simp: sys_init_def in_step_def server_in_step_def bc_init_def net_init_def delivered_def)

theorem system_in_step:
  assumes "sys_init D ids c S0" and "runs (sys_step D ids) S0 evs S" and "finite ids"
    and "submitted_ok ids (sys_net S)" and "\<forall>p \<in> ids. room (sum_list (passes p evs)) c"
  obtains b L where "in_step D ids c S b L (\<lambda>p. passes p evs) (\<lambda>p. told p evs)"
  using run_in_step [OF assms(2) init_in_step [OF assms(1)] assms(3,4)] assms(5)
  unfolding passes_def told_def by blast

section \<open>From the network to the system\<close>

lemma some_reconnects: "\<exists>clients'. reconnects l (clients :: (int, 'c option) fmap) clients'"
proof -
  let ?G = "\<lparr>grpc_Dial = \<lambda>_. Some undefined, grpc_GetState = \<lambda>_. Inr [], grpc_Close = \<lambda>_. True\<rparr> :: 'c grpc"
  have "dialable ?G" by (simp add: dialable_def)
  then have "\<exists>clients'. reconnect_lost ?G p clients = Inr clients'" for p using reconnect_lost_ok by metis
  then have "\<exists>clients' G. reconnect_lost G p clients = Inr clients'" for p by blast
  then show ?thesis unfolding reconnects_def by (cases l; simp) blast
qed

text \<open>An execution of the consensus modules alone is one of the system.\<close>

lemma net_run_in_system:
  assumes "runs (net_step D ids) N pls N'" and "\<forall>pl \<in> set pls. \<not> outside (snd pl)" and "sys_net S = N"
  shows "\<exists>S'. runs (sys_step D ids) S (map (\<lambda>(p, l). Raft p l) pls) S' \<and> sys_net S' = N'"
  using assms
proof (induction arbitrary: S rule: runs.induct)
  case (runs_cons N pl N1 pls N2)
  obtain p l where pl: "pl = (p, l)" by (cases pl)
  obtain clients where clients: "reconnects l (srv_peerClients (sys_server S p)) clients"
    using some_reconnects by blast
  let ?s = "(sys_server S p)\<lparr>srv_peerClients := clients, srv_cm := net_cm N1 p,
    srv_commitChan := srv_commitChan (sys_server S p) @ sent_entries l\<rparr>"
  have "sys_step D ids S (Raft p l) (with_server p ?s N1 S)"
    by (rule sys_step.Consensus [OF _ _ clients]) (use runs_cons.hyps(1) runs_cons.prems pl in auto)
  moreover obtain S' where "runs (sys_step D ids) (with_server p ?s N1 S) (map (\<lambda>(p, l). Raft p l) pls) S'"
    "sys_net S' = N2"
    using runs_cons.IH [of "with_server p ?s N1 S"] runs_cons.prems by auto
  ultimately show ?case by (intro exI [of _ S']) (auto simp: pl)
qed auto

lemma raft_passes:
  assumes "\<forall>pl \<in> set pls. \<not> outside (snd pl)"
  shows "fold (pass_after p) (map (\<lambda>(p, l). Raft p l) pls) ns = ns"
  using assms by (induction pls arbitrary: ns) (auto split: prod.splits)

lemma raft_told:
  assumes "\<forall>pl \<in> set pls. \<not> outside (snd pl)"
  shows "fold (told_after p) (map (\<lambda>(p, l). Raft p l) pls) gs = gs"
  using assms by (induction pls arbitrary: gs) (auto split: prod.splits)

section \<open>Applying what is in the channels\<close>

abbreviation chan :: "('s, 'c) chat_system \<Rightarrow> int \<Rightarrow> CommitEntry list" where
  "chan S p \<equiv> srv_commitChan (sys_server S p)"

lemma apply_one:
  assumes inv: "in_step D ids c S b L ns gs" and p: "p \<in> ids" "chan S p \<noteq> []"
    and subs: "submitted_ok ids (sys_net S)"
    and room: "room (Suc (sum_list (ns p))) c" "\<forall>q \<in> ids. room (sum_list (ns q)) c"
  obtains S' b' M where "sys_step D ids S (Apply p gid) S'" and "chan S' p = tl (chan S p)"
    and "\<And>q. q \<noteq> p \<Longrightarrow> chan S' q = chan S q" and "delivered (sys_net S') = delivered (sys_net S)"
    and "submitted_ok ids (sys_net S')"
    and "in_step D ids c S' b' (L @ M) (ns(p := Suc (hd (ns p)) # tl (ns p))) gs"
proof -
  have rep: "represents D ids (sys_net S) b" and log: "bc_log b = map cmd L" and wf: "\<forall>x \<in> set L. op_wf x"
    and each: "server_in_step D L c (sys_net S) p (sys_server S p) (ns p) (gs p)"
    using inv p(1) by (auto simp: in_step_def)
  obtain s' where s': "commitEntries_step D gid (sys_server S p) = Inr s'" "srv_commitChan s' = tl (chan S p)"
    using apply_in_step [OF each p(2) delivered_commands_log [OF rep log p(1)] wf room(1)] by metis
  let ?S' = "with_server p s' (net_after p L_Apply (srv_cm s') (sys_net S)) S"
  have step: "sys_step D ids S (Apply p gid) ?S'" by (rule sys_step.Applied [OF p s'(1)])
  have subs': "submitted_ok ids (sys_net ?S')"
    using subs by (simp add: submitted_ok_def submissions_after [OF in_step_finite [OF inv p(1)] p(1)])
  have n: "sum_list (pass_after p (Apply p gid) (ns p)) = Suc (sum_list (ns p))"
    using in_step_nonempty [OF inv p(1)] by (cases "ns p") simp_all
  have "\<forall>q \<in> ids. room (sum_list (pass_after q (Apply p gid) (ns q))) c"
    using n room by auto
  from sys_step_in_step [OF inv step subs' this] obtain b' M where
    "in_step D ids c ?S' b' (L @ M) (\<lambda>q. pass_after q (Apply p gid) (ns q)) (\<lambda>q. told_after q (Apply p gid) (gs q))" by blast
  moreover have "(\<lambda>q. pass_after q (Apply p gid) (ns q)) = ns(p := Suc (hd (ns p)) # tl (ns p))" by auto
  ultimately have "in_step D ids c ?S' b' (L @ M) (ns(p := Suc (hd (ns p)) # tl (ns p))) gs" by simp
  with that [OF step _ _ _ subs'] s'(2) show thesis by (simp add: delivered_after fun_eq_iff)
qed

lemma apply_channel:
  assumes "in_step D ids c S b L ns gs" and "p \<in> ids" and "submitted_ok ids (sys_net S)"
    and "room (sum_list (ns p) + length (chan S p)) c" and "\<forall>q \<in> ids. room (sum_list (ns q)) c"
  shows "\<exists>evs S' b' M. runs (sys_step D ids) S evs S' \<and> chan S' p = [] \<and> (\<forall>q. q \<noteq> p \<longrightarrow> chan S' q = chan S q) \<and>
    delivered (sys_net S') = delivered (sys_net S) \<and> submitted_ok ids (sys_net S') \<and>
    in_step D ids c S' b' (L @ M) (ns(p := (hd (ns p) + length (chan S p)) # tl (ns p))) gs"
  using assms
proof (induction "length (chan S p)" arbitrary: S b L ns)
  case 0
  have "(hd (ns p) + length (chan S p)) # tl (ns p) = ns p"
    using in_step_nonempty [OF 0(2,3)] 0(1) by (cases "ns p") simp_all
  then show ?case using 0 by (intro exI [of _ "[]"] exI [of _ S] exI [of _ b] exI [of _ "[]"]) auto
next
  case (Suc n)
  have ne: "chan S p \<noteq> []" using Suc.hyps(2) by auto
  have r: "room (Suc (sum_list (ns p))) c" using Suc.prems(4) Suc.hyps(2) by (elim room_mono) simp
  obtain S1 b1 M1 where S1: "sys_step D ids S (Apply p 0) S1" "chan S1 p = tl (chan S p)"
    "\<And>q. q \<noteq> p \<Longrightarrow> chan S1 q = chan S q" "delivered (sys_net S1) = delivered (sys_net S)"
    "submitted_ok ids (sys_net S1)" "in_step D ids c S1 b1 (L @ M1) (ns(p := Suc (hd (ns p)) # tl (ns p))) gs"
    using apply_one [OF Suc.prems(1,2) ne Suc.prems(3) r Suc.prems(5), of 0] by metis
  let ?ns = "ns(p := Suc (hd (ns p)) # tl (ns p))"
  have len: "n = length (chan S1 p)" using Suc.hyps(2) S1(2) by simp
  have sum: "sum_list (?ns p) = Suc (sum_list (ns p))"
    using in_step_nonempty [OF Suc.prems(1,2)] by (cases "ns p") simp_all
  have "room (sum_list (?ns p) + length (chan S1 p)) c"
    using Suc.prems(4) unfolding sum len [symmetric] Suc.hyps(2) [symmetric] by simp
  moreover have "\<forall>q \<in> ids. room (sum_list (?ns q)) c" using sum r Suc.prems(5) by auto
  ultimately obtain evs S' b' M' where S': "runs (sys_step D ids) S1 evs S'" "chan S' p = []"
    "\<forall>q. q \<noteq> p \<longrightarrow> chan S' q = chan S1 q" "delivered (sys_net S') = delivered (sys_net S1)"
    "submitted_ok ids (sys_net S')"
    "in_step D ids c S' b' ((L @ M1) @ M') (?ns(p := (hd (?ns p) + length (chan S1 p)) # tl (?ns p))) gs"
    using Suc.hyps(1) [OF len S1(6) Suc.prems(2) S1(5)] by blast
  have "?ns(p := (hd (?ns p) + length (chan S1 p)) # tl (?ns p)) = ns(p := (hd (ns p) + length (chan S p)) # tl (ns p))"
    unfolding len [symmetric] Suc.hyps(2) [symmetric] by simp
  note in_step = S'(6) [unfolded this append_assoc]
  show ?case
    by (intro exI [of _ "Apply p 0 # evs"] exI [of _ S'] exI [of _ b'] exI [of _ "M1 @ M'"] conjI in_step S'(2,5))
      (use S' S1 in auto)
qed

lemma apply_channels:
  assumes "in_step D ids c S b L ns gs" and "set qs \<subseteq> ids" and "distinct qs" and "submitted_ok ids (sys_net S)"
    and "\<forall>q \<in> ids. room (sum_list (ns q) + length (chan S q)) c"
  shows "\<exists>evs S' b' M ns'. runs (sys_step D ids) S evs S' \<and>
    (\<forall>q. chan S' q = (if q \<in> set qs then [] else chan S q)) \<and>
    delivered (sys_net S') = delivered (sys_net S) \<and> in_step D ids c S' b' (L @ M) ns' gs \<and>
    (\<forall>q. ns' q = (if q \<in> set qs then (hd (ns q) + length (chan S q)) # tl (ns q) else ns q))"
  using assms
proof (induction qs arbitrary: S b L ns)
  case Nil
  then show ?case by (intro exI [of _ "[]"] exI [of _ S] exI [of _ b] exI [of _ "[]"] exI [of _ ns]) simp
next
  case (Cons p qs)
  have p: "p \<in> ids" "p \<notin> set qs" using Cons.prems(2,3) by simp_all
  have rooms: "\<forall>q \<in> ids. room (sum_list (ns q)) c" using Cons.prems(5) by (auto intro: room_mono)
  let ?ns = "ns(p := (hd (ns p) + length (chan S p)) # tl (ns p))"
  obtain evs1 S1 b1 M1 where S1: "runs (sys_step D ids) S evs1 S1" "chan S1 p = []"
    "\<forall>q. q \<noteq> p \<longrightarrow> chan S1 q = chan S q" "delivered (sys_net S1) = delivered (sys_net S)"
    "submitted_ok ids (sys_net S1)" "in_step D ids c S1 b1 (L @ M1) ?ns gs"
    using apply_channel [OF Cons.prems(1) p(1) Cons.prems(4) bspec [OF Cons.prems(5) p(1)] rooms] by blast
  have sum: "sum_list (?ns p) = sum_list (ns p) + length (chan S p)"
    using in_step_nonempty [OF Cons.prems(1) p(1)] by (cases "ns p") simp_all
  have "room (sum_list (?ns q) + length (chan S1 q)) c" if "q \<in> ids" for q
  proof (cases "q = p")
    case True
    then show ?thesis unfolding True sum S1(2) using Cons.prems(5) p(1) by simp
  qed (use Cons.prems(5) S1(3) that in simp)
  then obtain evs2 S' b' M' ns' where S': "runs (sys_step D ids) S1 evs2 S'"
    "\<forall>q. chan S' q = (if q \<in> set qs then [] else chan S1 q)"
    "delivered (sys_net S') = delivered (sys_net S1)" "in_step D ids c S' b' ((L @ M1) @ M') ns' gs"
    "\<forall>q. ns' q = (if q \<in> set qs then (hd (?ns q) + length (chan S1 q)) # tl (?ns q) else ?ns q)"
    using Cons.IH [OF S1(6) _ _ S1(5)] Cons.prems(2,3) by auto
  note in_step = S'(4) [unfolded append_assoc]
  have "ns' q = (if q \<in> set (p # qs) then (hd (ns q) + length (chan S q)) # tl (ns q) else ns q)" for q
    using spec [OF S'(5), of q] S1(3) p(2) by (cases "q = p") simp_all
  moreover have "chan S' q = (if q \<in> set (p # qs) then [] else chan S q)" for q
    using S'(2) S1(2,3) p(2) by (cases "q = p") simp_all
  moreover have "runs (sys_step D ids) S (evs1 @ evs2) S'" using S1(1) S'(1) by (auto simp: runs_append)
  ultimately show ?case
    using S1(4) S'(3)
    by (intro exI [of _ "evs1 @ evs2"] exI [of _ S'] exI [of _ b'] exI [of _ "M1 @ M'"] exI [of _ ns'] conjI in_step) auto
qed

text \<open>
  Once everything in a log has been delivered everywhere and the channels have been read, each
  database is what it was with the commands applied that its server had not applied yet.
\<close>

lemma commands_inj: "map cmd xs = map cmd ys \<longleftrightarrow> xs = ys"
proof -
  have "inj cmd"
  proof (rule injI)
    fix x y assume "cmd x = cmd y"
    then show "x = y" by (cases x; cases y) simp_all
  qed
  then show ?thesis by (simp add: inj_map_eq_map)
qed

lemma later_database:
  assumes inv: "in_step D ids c S b L ns gs" and inv': "in_step D ids c S' b' (L @ M) ns' gs'" and q: "q \<in> ids"
    and passes: "ns' q = length ys # tl (ns q)" and le: "hd (ns q) \<le> length ys"
    and del: "map fst (delivered (sys_net S') q) = map cmd ys"
  shows "abs_store D (sys_store S' q) = ops_apply (drop (hd (ns q)) ys) (abs_store D (sys_store S q))"
proof -
  let ?L = "L @ M" and ?h = "hd (ns q)" and ?t = "tl (ns q)"
  have s: "server_in_step D L c (sys_net S) q (sys_server S q) (ns q) (gs q)"
    and s': "server_in_step D ?L c (sys_net S') q (sys_server S' q) (length ys # ?t) (gs' q)"
    using inv inv' q unfolding in_step_def passes [symmetric] by blast+
  have rep: "represents D ids (sys_net S') b'" "bc_log b' = map cmd ?L" using inv' by (simp_all add: in_step_def)
  have "map cmd ys = map cmd (take (length ys) ?L)"
    using delivered_commands_log(1) [OF rep q] del by (metis length_map)
  then have ys: "take (length ys) ?L = ys" by (simp only: commands_inj)
  have ns: "ns q = ?h # ?t" using server_in_stepD(2) [OF s] by (cases "ns q") simp_all
  have "abs_store D (sys_store S q) = apply_passes ?L (ns q) c"
    unfolding apply_passes_append [OF server_in_stepD(3) [OF s]] by (rule server_in_stepD(7) [OF s])
  also have "\<dots> = ops_apply (take ?h ?L) (apply_passes ?L ?t c)" by (subst ns) simp
  also have "take ?h ?L = take ?h ys" using ys le by (metis min.absorb1 take_take)
  finally have "ops_apply (drop ?h ys) (abs_store D (sys_store S q)) = ops_apply ys (apply_passes ?L ?t c)"
    by (metis append_take_drop_id comp_apply fold_append)
  moreover have "abs_store D (sys_store S' q) = ops_apply (take (length ys) ?L) (apply_passes ?L ?t c)"
    using server_in_stepD(7) [OF s'] by simp
  ultimately show ?thesis unfolding ys by simp
qed

lemma databases_catch_up:
  assumes inv: "in_step D ids c S b L ns gs" and fin: "finite ids"
    and raft: "runs (net_step D ids) (sys_net S) pls N" "\<forall>pl \<in> set pls. \<not> outside (snd pl)"
    and del: "\<forall>q \<in> ids. map fst (delivered N q) = map cmd ys" and subs: "submitted_ok ids N"
    and room: "\<forall>q \<in> ids. room (sum_list (ns q) + length ys) c"
  shows "\<exists>evs S'. runs (sys_step D ids) S (map (\<lambda>(p, l). Raft p l) pls @ evs) S' \<and>
    (\<forall>q \<in> ids. chan S' q = [] \<and>
       abs_store D (sys_store S' q) = ops_apply (drop (hd (ns q)) ys) (abs_store D (sys_store S q)))"
proof -
  obtain S1 where S1: "runs (sys_step D ids) S (map (\<lambda>(p, l). Raft p l) pls) S1" "sys_net S1 = N"
    using net_run_in_system [OF raft, of S] by blast
  have same: "(\<lambda>p. fold (pass_after p) (map (\<lambda>(p, l). Raft p l) pls) (ns p)) = ns"
    using raft_passes [OF raft(2)] by (simp add: fun_eq_iff)
  have rooms: "\<forall>p \<in> ids. room (sum_list (ns p)) c" using room by (auto intro: room_mono)
  have subs1: "submitted_ok ids (sys_net S1)" using subs S1(2) by simp
  obtain b1 M1 gs1 where in1: "in_step D ids c S1 b1 (L @ M1) ns gs1"
    using run_in_step [OF S1(1) inv fin subs1] rooms unfolding fun_cong [OF same] by blast
  have left: "hd (ns q) + length (chan S1 q) = length ys" if "q \<in> ids" for q
  proof -
    have s: "server_in_step D (L @ M1) c (sys_net S1) q (sys_server S1 q) (ns q) (gs1 q)"
      using in1 that by (simp add: in_step_def)
    have "length (chan S1 q) = length (map fst (delivered N q)) - hd (ns q)"
      using arg_cong [OF server_in_stepD(5) [OF s], of length] S1(2) by simp
    moreover have "length (delivered N q) = length ys" using arg_cong [OF bspec [OF del that], of length] by simp
    ultimately show ?thesis using server_in_stepD(4) [OF s] S1(2) by simp
  qed
  have "room (sum_list (ns q) + length (chan S1 q)) c" if "q \<in> ids" for q
    using bspec [OF room that] left [OF that] by (elim room_mono) simp
  moreover obtain qs where qs: "set qs = ids" "distinct qs" using finite_distinct_list [OF fin] by blast
  ultimately obtain evs S' b' M' ns' where S': "runs (sys_step D ids) S1 evs S'"
    "\<forall>q. chan S' q = (if q \<in> ids then [] else chan S1 q)"
    "delivered (sys_net S') = delivered (sys_net S1)" "in_step D ids c S' b' ((L @ M1) @ M') ns' gs1"
    "\<forall>q. ns' q = (if q \<in> ids then (hd (ns q) + length (chan S1 q)) # tl (ns q) else ns q)"
    using apply_channels [OF in1 _ qs(2) subs1] unfolding qs(1) by blast
  have "abs_store D (sys_store S' q) = ops_apply (drop (hd (ns q)) ys) (abs_store D (sys_store S q))"
    if q: "q \<in> ids" for q
    by (rule later_database [OF inv S'(4) [unfolded append_assoc] q])
      (use S'(3,5) S1(2) q left [OF q] del in \<open>simp_all add: le_add1 flip: left [OF q]\<close>)
  moreover have "runs (sys_step D ids) S (map (\<lambda>(p, l). Raft p l) pls @ evs) S'"
    using S1(1) S'(1) by (auto simp: runs_append)
  ultimately show ?thesis using S'(2) by (intro exI [of _ evs] exI [of _ S']) simp
qed

end
