(* ===== verification/Raft_Exec.thy ===== *)
theory Raft_Exec
  imports Raft_Cluster
begin

text \<open>
  An executable scheduler of the cluster: given which server runs which goroutine or receives
  which message, it computes the next state. Every computed execution is an execution of the
  step relation.
\<close>

section \<open>One server\<close>

text \<open>
  The next critical section of a goroutine that waits for no reply. The number is the clock, or
  for the start of a timer the random number.
\<close>

fun go_on :: "'s deps \<Rightarrow> int \<Rightarrow> goroutine \<Rightarrow> 's ConsensusModule \<Rightarrow> (label \<times> 's ConsensusModule) option" where
  "go_on D now Go_MainLoop cm = Some (L_MainLoop,
     spawn [Go_RunElectionTimer True] (finished Go_MainLoop cm\<lparr>cm_electionResetEvent := now\<rparr>))"
| "go_on D now (Go_RunElectionTimer main) cm = (if 0 \<le> now \<and> now < 150 then Some (L_TimerStart,
     spawn [Go_ElectionTimer main (cm_currentTerm cm) (electionTimeout now)]
       (finished (Go_RunElectionTimer main) cm)) else None)"
| "go_on D now (Go_ElectionTimer main ts to) cm = Some (L_Tick,
     after_tick main ts to (electionTick now ts to (finished (Go_ElectionTimer main ts to) cm)))"
| "go_on D now (Go_RequestVote saved el peer) cm = Some (L_SendVote peer (requestVote_args saved cm),
     spawn [Go_AwaitVote saved el peer] (finished (Go_RequestVote saved el peer) cm))"
| "go_on D now Go_StartLeader cm = Some (L_StartLeader, startLeader (finished Go_StartLeader cm))"
| "go_on D now Go_LeaderStart cm = Some (L_Heartbeat,
     spawn [Go_LeaderLoop] (leaderSendAEs (finished Go_LeaderStart cm)))"
| "go_on D now Go_LeaderLoop cm = Some (L_Heartbeat,
     if cm_state cm \<noteq> Leader then finished Go_LeaderLoop cm
     else if 0 < cm_triggerAE cm then leaderSendAEs (cm\<lparr>cm_triggerAE := cm_triggerAE cm - 1\<rparr>)
     else leaderSendAEs cm)"
| "go_on D now (Go_SendAE saved peer) cm = (case appendEntries_args saved peer cm of
     Inr (req, ni) \<Rightarrow> Some (L_SendAE peer req,
       spawn [Go_AwaitAE saved peer ni (length (ae_Entries req))] (finished (Go_SendAE saved peer) cm))
   | Inl e \<Rightarrow> None)"
| "go_on D now (Go_Forward command) cm = Some (L_Forward,
     spawn [Go_AwaitForward command (cm_leaderid cm)] (finished (Go_Forward command) cm))"
| "go_on D now Go_CommitChanSender cm = (if 0 < cm_newCommitReady cm then
     (case commitChanSender (cm\<lparr>cm_newCommitReady := cm_newCommitReady cm - 1\<rparr>) of
        Inr (cm', entries) \<Rightarrow> Some (L_Commit entries, cm') | Inl e \<Rightarrow> None) else None)"
| "go_on D now Go_Submitted cm = (case Submit_persist D (finished Go_Submitted cm) of
     Inr cm' \<Rightarrow> Some (L_Persist, cm') | Inl e \<Rightarrow> None)"
| "go_on D now g cm = None"

lemma go_on_step:
  assumes "go_on D now g cm = Some (l, cm')" and "pending g cm"
  shows "cm_step D cm l cm'"
  using assms
  by (cases "(D, now, g, cm)" rule: go_on.cases)
    (auto intro: cm_step.intros simp del: One_nat_def split: if_splits sum.splits prod.splits)

section \<open>The cluster\<close>

text \<open>
  What happens next at a server: a goroutine goes on, the latest vote or append request of a
  server arrives, the reply to a call arrives, a client submits a command (and the leader has
  stored it, or only appended it), or the server ends and comes up again.
\<close>

datatype choice =
    Go_on goroutine int
  | Take_vote int int
  | Take_append int int
  | Take_reply goroutine int
  | Client "Command option"
  | Client_append "Command option"
  | Come_back

fun first_some :: "('a \<Rightarrow> 'b option) \<Rightarrow> 'a list \<Rightarrow> 'b option" where
  "first_some f [] = None"
| "first_some f (x # xs) = (case f x of None \<Rightarrow> first_some f xs | Some y \<Rightarrow> Some y)"

lemma first_some_Some: "first_some f xs = Some y \<Longrightarrow> \<exists>x \<in> set xs. f x = Some y"
  by (induction xs) (auto split: option.splits)

fun sent_vote :: "int \<Rightarrow> label \<Rightarrow> RequestVoteRequest option" where
  "sent_vote p (L_SendVote q req) = (if q = p then Some req else None)"
| "sent_vote p _ = None"

fun sent_append :: "int \<Rightarrow> label \<Rightarrow> AppendEntriesRequest option" where
  "sent_append p (L_SendAE q req) = (if q = p then Some req else None)"
| "sent_append p _ = None"

fun vote_answer :: "int \<Rightarrow> int \<Rightarrow> label \<Rightarrow> RequestVoteResponse option" where
  "vote_answer p saved (L_RequestVote req reply) =
     (if rv_Term req = saved \<and> rv_CandidateId req = p then Some reply else None)"
| "vote_answer p saved _ = None"

fun append_answer :: "int \<Rightarrow> int \<Rightarrow> int \<Rightarrow> nat \<Rightarrow> label \<Rightarrow> AppendEntriesResponse option" where
  "append_answer p saved ni n (L_AppendEntries req reply) =
     (if ae_Term req = saved \<and> ae_LeaderId req = p \<and> ae_PrevLogIndex req = ni - 1 \<and>
         length (ae_Entries req) = n then Some reply else None)"
| "append_answer p saved ni n _ = None"

definition ok_of :: "'a res \<Rightarrow> 'a option" where
  "ok_of r = (case r of Inl e \<Rightarrow> None | Inr x \<Rightarrow> Some x)"

fun next_move :: "'s deps \<Rightarrow> 's network \<Rightarrow> int \<Rightarrow> choice \<Rightarrow> (label \<times> 's ConsensusModule) option" where
  "next_move D N p (Go_on g now) = (if pending g (net_cm N p) then go_on D now g (net_cm N p) else None)"
| "next_move D N p (Take_vote q now) = (if q = p then None else
     Option.bind (first_some (sent_vote p) (rev (net_hist N q))) (\<lambda>req.
     Option.bind (ok_of (RequestVoteHelper D now req (net_cm N p))) (\<lambda>(cm', reply).
       Some (L_RequestVote req reply, cm'))))"
| "next_move D N p (Take_append q now) = (if q = p then None else
     Option.bind (first_some (sent_append p) (rev (net_hist N q))) (\<lambda>req.
     Option.bind (ok_of (AppendEntriesHelper D now req (net_cm N p))) (\<lambda>(cm', reply).
       Some (L_AppendEntries req reply, cm'))))"
| "next_move D N p (Take_reply (Go_AwaitVote saved el peer) now) =
     (if pending (Go_AwaitVote saved el peer) (net_cm N p) then
        Option.bind (first_some (vote_answer p saved) (rev (net_hist N peer))) (\<lambda>reply.
          Some (L_VoteReply saved el peer reply,
            handleVoteReply now saved el reply (finished (Go_AwaitVote saved el peer) (net_cm N p))))
      else None)"
| "next_move D N p (Take_reply (Go_AwaitAE saved peer ni n) now) =
     (if pending (Go_AwaitAE saved peer ni n) (net_cm N p) then
        Option.bind (first_some (append_answer p saved ni n) (rev (net_hist N peer))) (\<lambda>reply.
        Option.bind (ok_of (handleAEReply now saved peer ni n reply
            (finished (Go_AwaitAE saved peer ni n) (net_cm N p)))) (\<lambda>cm'.
          Some (L_AEReply saved peer ni n reply, cm')))
      else None)"
| "next_move D N p (Take_reply _ now) = None"
| "next_move D N p (Client command) = Option.bind (ok_of (Submit D command (net_cm N p))) (\<lambda>(cm', ok).
     Some (L_Submit command, cm'))"
| "next_move D N p (Client_append command) = (if cm_state (net_cm N p) = Leader
     then Some (L_Append command, spawn [Go_Submitted] (Submit_append command (net_cm N p))) else None)"
| "next_move D N p Come_back = (let cm = net_cm N p in
     Option.bind (ok_of (NewConsensusModule D (reopened (cm_id cm) (cm_storage cm)) (cm_id cm) (cm_peerIds cm)))
       (\<lambda>cm'. Some (L_Restart (cm_currentTerm cm') (cm_votedFor cm') (cm_log cm'), cm')))"

text \<open>The schedule says which steps are allowed at a server.\<close>

definition net_exec ::
  "('s ConsensusModule \<Rightarrow> label \<Rightarrow> bool) \<Rightarrow> 's deps \<Rightarrow> int set \<Rightarrow> 's network \<Rightarrow> int \<times> choice \<Rightarrow> 's network option" where
  "net_exec sched D ids N pc = (case pc of (p, c) \<Rightarrow>
     Option.bind (next_move D N p c) (\<lambda>(l, cm').
       if p \<in> ids \<and> sched (net_cm N p) l then Some (net_after p l cm' N) else None))"

fun net_run ::
  "('s ConsensusModule \<Rightarrow> label \<Rightarrow> bool) \<Rightarrow> 's deps \<Rightarrow> int set \<Rightarrow> (int \<times> choice) list \<Rightarrow> 's network \<Rightarrow> 's network option" where
  "net_run sched D ids [] N = Some N"
| "net_run sched D ids (pc # pcs) N = Option.bind (net_exec sched D ids N pc) (net_run sched D ids pcs)"

definition in_time :: "'s ConsensusModule \<Rightarrow> label \<Rightarrow> bool" where
  "in_time cm l \<longleftrightarrow> prompt cm l \<and> timely cm l"

text \<open>All in time but the steps with certain labels.\<close>

definition in_time_but :: "(label \<Rightarrow> bool) \<Rightarrow> 's ConsensusModule \<Rightarrow> label \<Rightarrow> bool" where
  "in_time_but late cm l \<longleftrightarrow> late l \<or> in_time cm l"

fun leader_start :: "label \<Rightarrow> bool" where
  "leader_start L_StartLeader = True"
| "leader_start _ = False"

fun append_reply :: "label \<Rightarrow> bool" where
  "append_reply (L_AEReply saved peer ni n reply) = True"
| "append_reply _ = False"

fun vote_reply :: "label \<Rightarrow> bool" where
  "vote_reply (L_VoteReply saved el peer reply) = True"
| "vote_reply _ = False"

lemma ok_of_Some [simp]: "ok_of r = Some x \<longleftrightarrow> r = Inr x"
  by (cases r) (simp_all add: ok_of_def)

lemma next_move_step:
  assumes "next_move D N p c = Some (l, cm')"
  shows "cm_step D (net_cm N p) l cm'" and "deliverable (net_hist N) p l"
proof -
  have "cm_step D (net_cm N p) l cm' \<and> deliverable (net_hist N) p l"
    using assms
  proof (cases "(D, N, p, c)" rule: next_move.cases)
    case (1 D' N' p' g now)
    then have "go_on D now g (net_cm N p) = Some (l, cm')" "pending g (net_cm N p)"
      using assms by (simp_all split: if_splits)
    moreover from this have "deliverable (net_hist N) p l"
      by (cases "(D, now, g, net_cm N p)" rule: go_on.cases) (auto split: if_splits sum.splits prod.splits)
    ultimately show ?thesis using go_on_step by blast
  qed (use assms in \<open>auto simp: bind_eq_Some_conv Let_def dest!: first_some_Some split: if_splits prod.splits
      elim!: sent_vote.elims sent_append.elims vote_answer.elims append_answer.elims
      intro: cm_step.intros cm_step.SubmitAppends [simplified] opens_reopened\<close>)
  then show "cm_step D (net_cm N p) l cm'" and "deliverable (net_hist N) p l" by simp_all
qed

lemma net_exec_step:
  assumes "net_exec sched D ids N pc = Some N'"
  shows "\<exists>l cm'. N' = net_after (fst pc) l cm' N \<and> fst pc \<in> ids \<and> sched (net_cm N (fst pc)) l \<and>
    cm_step D (net_cm N (fst pc)) l cm' \<and> deliverable (net_hist N) (fst pc) l"
  using assms next_move_step
  by (fastforce simp: net_exec_def bind_eq_Some_conv split: if_splits prod.splits)

theorem net_run_reach: "net_run in_time D ids pcs N = Some N' \<Longrightarrow> reach D ids N \<Longrightarrow> reach D ids N'"
proof (induction pcs arbitrary: N)
  case (Cons pc pcs)
  then obtain N1 where N1: "net_exec in_time D ids N pc = Some N1" "net_run in_time D ids pcs N1 = Some N'"
    by (auto simp: bind_eq_Some_conv)
  then have "reach D ids N1"
    using Cons.prems(2) by (auto simp: in_time_def prompt_step_def dest!: net_exec_step intro!: reach_after)
  with Cons.IH N1(2) show ?case by blast
qed simp

text \<open>The scheduler stops no server.\<close>

lemma go_on_not_stop: "go_on D now g cm = Some (l, cm') \<Longrightarrow> l \<noteq> L_Stop"
  by (cases "(D, now, g, cm)" rule: go_on.cases) (auto split: if_splits sum.splits prod.splits)

lemma next_move_not_stop: "next_move D N p c = Some (l, cm') \<Longrightarrow> l \<noteq> L_Stop"
  by (cases "(D, N, p, c)" rule: next_move.cases)
    (auto simp: bind_eq_Some_conv Let_def dest: go_on_not_stop split: if_splits prod.splits)

lemma net_run_not_stopped:
  "net_run sched D ids pcs N = Some N' \<Longrightarrow> L_Stop \<notin> set (net_hist N p) \<Longrightarrow> L_Stop \<notin> set (net_hist N' p)"
proof (induction pcs arbitrary: N)
  case (Cons pc pcs)
  then obtain N1 where N1: "net_exec sched D ids N pc = Some N1" "net_run sched D ids pcs N1 = Some N'"
    by (auto simp: bind_eq_Some_conv)
  have "L_Stop \<notin> set (net_hist N1 p)"
    using N1(1) Cons.prems(2)
    by (auto dest: next_move_not_stop simp: net_exec_def bind_eq_Some_conv split: if_splits prod.splits)
  with Cons.IH N1(2) show ?case by blast
qed simp

text \<open>It restarts no server that does not come back.\<close>

lemma next_move_restarts:
  assumes "next_move D N p c = Some (l, cm')" and "c \<noteq> Come_back"
  shows "\<not> restarts l"
proof -
  have go: "\<not> restarts l" if "go_on D now g cm = Some (l, cm')" for now g and cm :: "'a ConsensusModule"
    using that by (cases "(D, now, g, cm)" rule: go_on.cases) (auto split: if_splits sum.splits prod.splits)
  show ?thesis using assms
    by (cases "(D, N, p, c)" rule: next_move.cases)
      (auto simp: bind_eq_Some_conv dest: go split: if_splits prod.splits)
qed

lemma net_run_not_restarted:
  "net_run sched D ids pcs N = Some N' \<Longrightarrow> Come_back \<notin> snd ` set pcs \<Longrightarrow> \<forall>l \<in> set (net_hist N p). \<not> restarts l \<Longrightarrow>
   \<forall>l \<in> set (net_hist N' p). \<not> restarts l"
proof (induction pcs arbitrary: N)
  case (Cons pc pcs)
  then obtain N1 where N1: "net_exec sched D ids N pc = Some N1" "net_run sched D ids pcs N1 = Some N'"
    by (auto simp: bind_eq_Some_conv)
  have "snd pc \<noteq> Come_back" using Cons.prems(2) by auto
  then have "\<forall>l \<in> set (net_hist N1 p). \<not> restarts l"
    using N1(1) Cons.prems(3)
    by (auto dest: next_move_restarts simp: net_exec_def bind_eq_Some_conv split: if_splits prod.splits)
  with Cons.IH N1(2) Cons.prems(2) show ?case by auto
qed simp

section \<open>Other schedules\<close>

text \<open>The steps of the code that a schedule allows, with messages as before.\<close>

definition sched_step ::
  "('s ConsensusModule \<Rightarrow> label \<Rightarrow> bool) \<Rightarrow> 's deps \<Rightarrow> int set \<Rightarrow> 's network \<Rightarrow> int \<times> label \<Rightarrow> 's network \<Rightarrow> bool" where
  "sched_step sched D ids N pl N' \<longleftrightarrow>
     (case pl of (p, l) \<Rightarrow> p \<in> ids \<and> sched (net_cm N p) l \<and> deliverable (net_hist N) p l \<and>
        (\<exists>cm'. cm_step D (net_cm N p) l cm' \<and> N' = net_after p l cm' N))"

lemma net_step_sched: "net_step D ids = sched_step in_time D ids"
  by (auto simp: net_step_def sched_step_def prompt_step_def in_time_def fun_eq_iff)

theorem net_run_sched:
  "net_run sched D ids pcs N = Some N' \<Longrightarrow> \<exists>pls. runs (sched_step sched D ids) N pls N'"
proof (induction pcs arbitrary: N)
  case (Cons pc pcs)
  then obtain N1 where N1: "net_exec sched D ids N pc = Some N1" "net_run sched D ids pcs N1 = Some N'"
    by (auto simp: bind_eq_Some_conv)
  then obtain pls where "runs (sched_step sched D ids) N1 pls N'" using Cons.IH by blast
  moreover obtain l where "sched_step sched D ids N (fst pc, l) N1"
    using net_exec_step [OF N1(1)] by (auto simp: sched_step_def)
  ultimately show ?case using runs_cons by metis
qed (auto intro: runs_nil)

end
