(* ===== verification/Examples.thy ===== *)
theory Examples
  imports RaftServerSpec
begin

text \<open>
  Small concrete states at which the properties of the other theories are applied: five
  servers on databases in memory, one user and one committed command.
\<close>

definition w_store :: "(string \<rightharpoonup> gob) DiskStore" where
  "w_store = \<lparr>diskstore = Map.empty, replicatedlog = Map.empty\<rparr>"

definition w_cm :: "int \<Rightarrow> (string \<rightharpoonup> gob) ConsensusModule" where
  "w_cm i = spawn [Go_MainLoop, Go_CommitChanSender] (init_cm i (other_ids i) w_store)"

definition w_user :: User where
  "w_user = \<lparr>user_Id = 7, user_Name = ''ann''\<rparr>"

definition w_command :: Command where
  "w_command = \<lparr>cmd_Action = Some (Command_Login (Some w_user)), cmd_Event = ''u''\<rparr>"

definition w_entry :: "int \<Rightarrow> LogEntry" where
  "w_entry t = \<lparr>le_Command = Some w_command, le_Term = t\<rparr>"

definition w_append :: AppendEntriesRequest where
  "w_append = \<lparr>ae_Term = 1, ae_LeaderId = 2, ae_PrevLogIndex = -1, ae_PrevLogTerm = -1,
     ae_Entries = [w_entry 1], ae_LeaderCommit = 0\<rparr>"

text \<open>Server 1 as leader of term 1 with one entry, which servers 2 and 3 store.\<close>

definition w_leader :: "(string \<rightharpoonup> gob) ConsensusModule" where
  "w_leader = (startLeader (w_cm 1))
     \<lparr>cm_currentTerm := 1, cm_votedFor := 1, cm_log := [w_entry 1],
      cm_matchIndex := fmupd 2 0 (fmupd 3 0 (fmupd 4 (-1) (fmupd 5 (-1) fmempty)))\<rparr>"

lemma other_ids_1 [simp]: "other_ids 1 = [2, 3, 4, 5]"
  by (simp add: other_ids_def upto.simps)

lemma other_ids_2 [simp]: "other_ids 2 = [1, 3, 4, 5]"
  by (simp add: other_ids_def upto.simps)

lemma w_cm_simps [simp]:
  "cm_id (w_cm i) = i" "cm_peerIds (w_cm i) = other_ids i" "cm_storage (w_cm i) = w_store"
  "cm_currentTerm (w_cm i) = 0" "cm_votedFor (w_cm i) = -1" "cm_log (w_cm i) = []"
  "cm_commitIndex (w_cm i) = -1" "cm_lastApplied (w_cm i) = -1" "cm_state (w_cm i) = Follower"
  "cm_newCommitReady (w_cm i) = 0" "\<not> cm_newCommitClosed (w_cm i)"
  "cm_nextIndex (w_cm i) = fmempty" "cm_matchIndex (w_cm i) = fmempty"
  "cm_spawned (w_cm i) = [Go_MainLoop, Go_CommitChanSender]" "cm_elections (w_cm i) = 0"
  "cm_leaderid (w_cm i) = -1" "cm_electionResetEvent (w_cm i) = 0"
  by (simp_all add: w_cm_def init_cm_def)

lemma w_leader_simps [simp]:
  "cm_id w_leader = 1" "cm_peerIds w_leader = [2, 3, 4, 5]" "cm_currentTerm w_leader = 1"
  "cm_log w_leader = [w_entry 1]" "cm_commitIndex w_leader = -1" "cm_state w_leader = Leader"
  "cm_lastApplied w_leader = -1" "\<not> cm_newCommitClosed w_leader" "cm_votedFor w_leader = 1"
  "cm_matchIndex w_leader = fmupd 2 0 (fmupd 3 0 (fmupd 4 (-1) (fmupd 5 (-1) fmempty)))"
  by (simp_all add: w_leader_def)

lemma w_leader_nextIndex [simp]: "p \<in> {2, 3, 4, 5} \<Longrightarrow> fm_index 0 (cm_nextIndex w_leader) p = 0"
  using startLeader_indexes(1) [of p "w_cm 1"] by (auto simp: w_leader_def)

lemma w_entry_simps [simp]: "le_Term (w_entry t) = t" "le_Command (w_entry t) = Some w_command"
  by (simp_all add: w_entry_def)

lemma log_encodable_w [simp]: "log_encodable []" "log_encodable [w_entry t]"
  by (simp_all add: log_encodable_def w_entry_def w_command_def)

lemma w_append_simps [simp]:
  "ae_Term w_append = 1" "ae_PrevLogIndex w_append = -1" "ae_Entries w_append = [w_entry 1]"
  "ae_LeaderCommit w_append = 0" "ae_LeaderId w_append = 2"
  by (simp_all add: w_append_def)

lemma log_ok_w [simp]: "log_ok (w_cm i)"
  by (simp add: log_ok_def)

lemma self_vote_w [simp]: "i \<noteq> -1 \<Longrightarrow> self_vote (w_cm i)"
  by (simp add: self_vote_def running_def)

lemma cluster_w [simp]: "cluster_ok (w_cm i)" "cluster_ok w_leader"
  "cluster w_leader = {1, 2, 3, 4, 5}" "cluster (w_cm 2) = {1, 2, 3, 4, 5}" "cluster (w_cm 1) = {1, 2, 3, 4, 5}"
  by (auto simp: cluster_ok_def cluster_def set_other_ids distinct_other_ids)

lemma insertEntries_w [simp]: "insertEntries 0 [e] [] = [e]"
  by (simp add: insertEntries_def insertionPoint.simps)

text \<open>The first entries reach server 1.\<close>

definition w_follower :: "(string \<rightharpoonup> gob) ConsensusModule \<Rightarrow> bool" where
  "w_follower f \<longleftrightarrow> cm_log f = [w_entry 1] \<and> cm_commitIndex f = 0 \<and> cm_lastApplied f = -1 \<and>
     cm_state f = Follower \<and> cm_currentTerm f = 1 \<and> cm_newCommitReady f = 1 \<and>
     cm_votedFor f = -1 \<and> pending Go_CommitChanSender f \<and> \<not> cm_newCommitClosed f"

definition w_reply :: AppendEntriesResponse where
  "w_reply = \<lparr>aer_Term = 1, aer_Success = True, aer_ConflictIndex = 0, aer_ConflictTerm = 0\<rparr>"

lemma w_append_run:
  obtains f where "AppendEntriesHelper mem_deps now w_append (w_cm 1) = Inr (f, w_reply)" and "w_follower f"
  using that
  by (simp add: AppendEntriesHelper_def Let_def prevLogMatches_def advanceCommit_def intMin_def
      signal_newCommitReady_def persistToStorage_def SetState_def w_follower_def w_reply_def pending_def
      becomeFollower_def)

end
