(* ===== verification/Cluster_Examples.thy ===== *)
theory Cluster_Examples
  imports Raft_Exec Raft_Safety Examples
begin

text \<open>
  Executions of the five servers, computed from fresh databases: one in which a leader is
  elected, replicates a command and two servers deliver it, and two in which goroutines that
  have waited for the lock act in a term they were not started for.
\<close>

definition w_cluster :: "(string \<rightharpoonup> gob) network" where
  "w_cluster = \<lparr>net_cm = w_cm, net_hist = (\<lambda>_. []), net_led = {}, net_logs = Map.empty\<rparr>"

definition w_ids :: "int set" where
  "w_ids = {1, 2, 3, 4, 5}"

text \<open>Server \<open>p\<close> asks for votes in its election \<open>el\<close> of term \<open>t\<close>; \<open>vs\<close> vote for it.\<close>

definition w_ask :: "int \<Rightarrow> int \<Rightarrow> nat \<Rightarrow> int list \<Rightarrow> int \<Rightarrow> (int \<times> choice) list" where
  "w_ask p t el vs now =
     concat (map (\<lambda>v. [(p, Go_on (Go_RequestVote t el v) now), (v, Take_vote p now)]) vs) @
     map (\<lambda>v. (p, Take_reply (Go_AwaitVote t el v) now)) vs"

text \<open>The first election of a server that has heard of nobody.\<close>

definition w_first_timeout :: "int \<Rightarrow> (int \<times> choice) list" where
  "w_first_timeout p = [(p, Go_on Go_MainLoop 0), (p, Go_on (Go_RunElectionTimer True) 0),
     (p, Go_on (Go_ElectionTimer True 0 150) 200)]"

text \<open>The election of a follower in term \<open>t\<close> that has not heard of a leader until \<open>now\<close>.\<close>

definition w_timeout :: "int \<Rightarrow> int \<Rightarrow> int \<Rightarrow> (int \<times> choice) list" where
  "w_timeout p t now = [(p, Go_on (Go_RunElectionTimer False) 0),
     (p, Go_on (Go_ElectionTimer False t 150) now)]"

text \<open>Leader \<open>p\<close> of term \<open>t\<close> sends to \<open>qs\<close>, which accept; it hears of it.\<close>

definition w_append_to :: "int \<Rightarrow> int \<Rightarrow> int list \<Rightarrow> int \<Rightarrow> (int \<times> choice) list" where
  "w_append_to p t qs now =
     concat (map (\<lambda>q. [(p, Go_on (Go_SendAE t q) now), (q, Take_append p now)]) qs)"

definition w_heard :: "int \<Rightarrow> int \<Rightarrow> int \<Rightarrow> nat \<Rightarrow> int list \<Rightarrow> int \<Rightarrow> (int \<times> choice) list" where
  "w_heard p t ni n qs now = map (\<lambda>q. (p, Take_reply (Go_AwaitAE t q ni n) now)) qs"

lemmas w_run_defs = w_ask_def w_first_timeout_def w_timeout_def w_append_to_def w_heard_def

definition w_good_run :: "(int \<times> choice) list" where
  "w_good_run =
     w_first_timeout 1 @ w_ask 1 1 1 [2, 3] 210 @ [(1, Go_on Go_StartLeader 220)] @
     [(1, Client (Some w_command)), (1, Go_on Go_LeaderStart 230)] @
     w_append_to 1 1 [2, 3] 240 @ w_heard 1 1 0 1 [2, 3] 250 @
     [(1, Go_on Go_CommitChanSender 250), (1, Go_on Go_LeaderLoop 260)] @
     w_append_to 1 1 [2] 270 @ [(2, Go_on Go_CommitChanSender 280)]"

text \<open>Then server 2 is elected in term 2.\<close>

definition w_next_run :: "(int \<times> choice) list" where
  "w_next_run = w_timeout 2 1 500 @ w_ask 2 2 1 [3, 4] 510 @ [(2, Go_on Go_StartLeader 520)]"

definition w_other :: Command where
  "w_other = \<lparr>cmd_Action = Some (Command_Login (Some \<lparr>user_Id = 8, user_Name = ''bob''\<rparr>)), cmd_Event = ''u''\<rparr>"

text \<open>
  Server 1 wins the election of term 1, but before its goroutine starts the leader, it votes for
  server 2 in term 2; both then lead term 2.
\<close>

definition w_split_run :: "(int \<times> choice) list" where
  "w_split_run =
     w_first_timeout 1 @ w_ask 1 1 1 [2, 3] 210 @
     w_timeout 2 1 500 @ w_ask 2 2 1 [1, 4] 510 @ [(2, Go_on Go_StartLeader 520), (1, Go_on Go_StartLeader 520)] @
     [(1, Client (Some w_command)), (2, Client (Some w_other)),
      (1, Go_on Go_LeaderStart 530), (2, Go_on Go_LeaderStart 530)] @
     w_append_to 1 2 [3, 5] 540 @ w_heard 1 2 0 1 [3, 5] 550 @ [(1, Go_on Go_CommitChanSender 550)] @
     w_append_to 2 2 [4, 5] 560 @ w_heard 2 2 0 1 [4, 5] 570 @ [(2, Go_on Go_CommitChanSender 570)]"

lemma w_cluster_init: "net_init w_ids w_cluster"
  by (auto simp: net_init_def w_cluster_def w_ids_def member_def fresh_cm_def tracked_calls_def pending_def
      cluster_def set_other_ids)

lemma w_good_result:
  "map_option (\<lambda>N. (delivered N 1, delivered N 2, delivered N 3, cm_state (net_cm N 1), cm_currentTerm (net_cm N 1),
       cm_log (net_cm N 1)))
     (net_run in_time mem_deps w_ids w_good_run w_cluster) =
     Some ([(Some w_command, 0)], [(Some w_command, 0)], [], Leader, 1, [w_entry 1])"
  by code_simp

lemma w_good_terms:
  "map_option (\<lambda>N. map (\<lambda>q. cm_currentTerm (net_cm N q)) [1, 2, 3, 4, 5])
     (net_run in_time mem_deps w_ids w_good_run w_cluster) = Some [1, 1, 1, 0, 0]"
  by code_simp

lemma w_good_disk:
  "map_option (\<lambda>N. (GetState mem_deps (cm_storage (net_cm N 2)), HasData mem_deps (cm_storage (net_cm N 2)),
       cm_currentTerm (net_cm N 2), cm_votedFor (net_cm N 2), cm_log (net_cm N 2), cm_peerIds (net_cm N 2)))
     (net_run in_time mem_deps w_ids w_good_run w_cluster) =
     Some (Inr (1, 1, [w_entry 1]), Inr True, 1, 1, [w_entry 1], [1, 3, 4, 5])"
  by code_simp

text \<open>Nothing but the command is submitted in it, and there are no steps from outside.\<close>

fun w_plain :: "label \<Rightarrow> bool" where
  "w_plain (L_Submit command) = (command = Some w_command)"
| "w_plain (L_Append command) = False"
| "w_plain (L_ForwardLeader req reply) = False"
| "w_plain l = (\<not> outside l)"

lemma w_plain_outside: "w_plain l \<Longrightarrow> \<not> outside l"
  by (cases l) simp_all

lemma w_good_plain:
  "map_option (\<lambda>N. list_all (\<lambda>p. list_all w_plain (net_hist N p)) [1, 2, 3, 4, 5])
     (net_run in_time mem_deps w_ids w_good_run w_cluster) = Some True"
  by code_simp

lemma w_good_follower:
  "map_option (\<lambda>N. (cm_state (net_cm N 2), cm_leaderid (net_cm N 2)))
     (net_run in_time mem_deps w_ids w_good_run w_cluster) = Some (Follower, 1)"
  by code_simp

lemma w_next_result:
  "map_option (\<lambda>N. (cm_state (net_cm N 2), cm_currentTerm (net_cm N 2), cm_log (net_cm N 2), cm_commitIndex (net_cm N 2),
       cm_currentTerm (net_cm N 1), cm_log (net_cm N 1), cm_commitIndex (net_cm N 1)))
     (Option.bind (net_run in_time mem_deps w_ids w_good_run w_cluster) (net_run in_time mem_deps w_ids w_next_run)) =
     Some (Leader, 2, [w_entry 1], 0, 1, [w_entry 1], 0)"
  by code_simp

lemma w_split_run_result:
  "map_option (\<lambda>N. (delivered N 1, delivered N 2)) (net_run (in_time_but leader_start) mem_deps w_ids w_split_run w_cluster) =
     Some ([(Some w_command, 0)], [(Some w_other, 0)])"
  by code_simp

definition w_third :: Command where
  "w_third = \<lparr>cmd_Action = Some (Command_Login (Some \<lparr>user_Id = 9, user_Name = ''cy''\<rparr>)), cmd_Event = ''u''\<rparr>"

text \<open>
  Server 1 leads term 1 and sends two entries to server 3; server 2 leads term 2, overwrites them
  on server 1 and sends its entry to server 4; server 1 leads again, in term 3, when the reply
  of server 3 arrives.
\<close>

definition w_late_run :: "(int \<times> choice) list" where
  "w_late_run =
     w_first_timeout 1 @ w_ask 1 1 1 [2, 3] 210 @ [(1, Go_on Go_StartLeader 220)] @
     [(1, Client (Some w_command)), (1, Client (Some w_command)), (1, Go_on Go_LeaderStart 230)] @
     w_append_to 1 1 [3] 240 @
     w_timeout 2 1 500 @ w_ask 2 2 1 [4, 5] 510 @ [(2, Go_on Go_StartLeader 520)] @
     [(2, Client (Some w_command)), (2, Go_on Go_LeaderStart 530)] @ w_append_to 2 2 [1, 4] 540 @
     w_timeout 1 2 900 @ w_ask 1 3 2 [2, 4, 5] 910 @ [(1, Go_on Go_StartLeader 920)] @
     w_heard 1 1 0 2 [3] 930"

text \<open>Then server 1 commits an entry that two servers have, and server 2, elected once more, another one.\<close>

definition w_late_commit :: "(int \<times> choice) list" where
  "w_late_commit =
     [(1, Client (Some w_other)), (1, Go_on Go_LeaderStart 940)] @
     w_append_to 1 3 [4] 950 @ w_heard 1 3 1 1 [4] 960 @ [(1, Go_on Go_CommitChanSender 960)] @
     w_timeout 2 3 1300 @ w_ask 2 4 2 [3, 5] 1310 @ [(2, Go_on Go_StartLeader 1320)] @
     [(2, Client (Some w_third)), (2, Go_on Go_LeaderStart 1330)] @
     w_append_to 2 4 [3, 5] 1340 @ w_heard 2 4 1 1 [3, 5] 1350 @ [(2, Go_on Go_LeaderLoop 1360)] @
     w_append_to 2 4 [3, 5] 1370 @ w_heard 2 4 0 2 [3, 5] 1380 @ [(2, Go_on Go_CommitChanSender 1390)]"

lemma w_late_run_result:
  "map_option (\<lambda>N. (cm_state (net_cm N 1), cm_currentTerm (net_cm N 1), appendEntries_args 3 3 (net_cm N 1)))
     (net_run (in_time_but append_reply) mem_deps w_ids w_late_run w_cluster) =
     Some (Leader, 3, Inl (Panic Index_Out_Of_Range))"
  by code_simp

lemma w_late_commit_result:
  "map_option (\<lambda>N. (delivered N 1, delivered N 2))
     (net_run (in_time_but append_reply) mem_deps w_ids (w_late_run @ w_late_commit) w_cluster) =
     Some ([(Some w_command, 0), (Some w_other, 1)], [(Some w_command, 0), (Some w_third, 1)])"
  by code_simp

section \<open>A reply to a vote request that comes late\<close>

text \<open>
  A server that has heard of nobody is a candidate of term \<open>n\<close> after \<open>n\<close> timeouts.
\<close>

definition w_timeouts :: "int \<Rightarrow> nat \<Rightarrow> (int \<times> choice) list" where
  "w_timeouts p n = w_first_timeout p @
     concat (map (\<lambda>k. w_timeout p (int k) (200 + 200 * int k)) [1..<n])"

text \<open>Leader \<open>p\<close> of term \<open>t\<close>, just elected, replicates a command to \<open>qs\<close> and delivers it.\<close>

definition w_lead_and_commit :: "int \<Rightarrow> int \<Rightarrow> Command \<Rightarrow> int list \<Rightarrow> int \<Rightarrow> (int \<times> choice) list" where
  "w_lead_and_commit p t command qs now =
     [(p, Client (Some command)), (p, Go_on Go_LeaderStart now)] @ w_append_to p t qs now @
     w_heard p t 0 1 qs now @ [(p, Go_on Go_CommitChanSender now)]"

text \<open>
  Server 1 asks server 2, which is in term 3, for its vote in term 1. Before the reply is
  handled, server 1 votes for server 4 in term 4 and is a candidate of term 5; the reply takes it
  back to term 3, and it votes for server 3 in term 4.
\<close>

definition w_lowered_run :: "(int \<times> choice) list" where
  "w_lowered_run =
     w_timeouts 1 1 @ w_timeouts 2 3 @ [(1, Go_on (Go_RequestVote 1 1 2) 700), (2, Take_vote 1 700)] @
     w_timeouts 4 4 @ w_ask 4 4 4 [1, 5] 810 @ [(4, Go_on Go_StartLeader 820)] @
     w_timeout 1 4 1300 @ [(1, Take_reply (Go_AwaitVote 1 1 2) 1310)] @
     w_timeouts 3 4 @ w_ask 3 4 4 [1, 2] 1320 @ [(3, Go_on Go_StartLeader 1330)] @
     w_lead_and_commit 4 4 w_command [1, 5] 1340 @ w_lead_and_commit 3 4 w_other [1, 2] 1350"

lemma w_lowered_result:
  "map_option (\<lambda>N. (delivered N 3, delivered N 4))
     (net_run (in_time_but vote_reply) mem_deps w_ids w_lowered_run w_cluster) =
     Some ([(Some w_other, 0)], [(Some w_command, 0)])"
  by code_simp

section \<open>A request that is sent late\<close>

text \<open>
  Server 1 leads term 1 and has sent two entries to server 3; the goroutine of its next request
  waits while server 2 is elected and overwrites the two entries with one of its own.
\<close>

definition w_deposed_run :: "(int \<times> choice) list" where
  "w_deposed_run =
     w_first_timeout 1 @ w_ask 1 1 1 [2, 3] 210 @ [(1, Go_on Go_StartLeader 220)] @
     [(1, Client (Some w_command)), (1, Client (Some w_command)), (1, Go_on Go_LeaderStart 230)] @
     w_append_to 1 1 [3] 240 @ w_heard 1 1 0 2 [3] 250 @ [(1, Go_on Go_LeaderLoop 260)] @
     w_timeout 2 1 500 @ w_ask 2 2 1 [4, 5] 510 @ [(2, Go_on Go_StartLeader 520)] @
     [(2, Client (Some w_other)), (2, Go_on Go_LeaderStart 530)] @ w_append_to 2 2 [1] 540"

lemma w_deposed_result:
  "map_option (\<lambda>N. (pending (Go_SendAE 1 3) (net_cm N 1), cm_state (net_cm N 1),
       appendEntries_args 1 3 (net_cm N 1)))
     (net_run in_time mem_deps w_ids w_deposed_run w_cluster) =
     Some (True, Follower, Inl (Panic Index_Out_Of_Range))"
  by code_simp

section \<open>Restarts\<close>

text \<open>
  Server 1 votes for server 4 in term 1, restarts without its vote, and votes for server 3 in
  term 1.
\<close>

definition w_forgot_run :: "(int \<times> choice) list" where
  "w_forgot_run =
     w_first_timeout 4 @ w_ask 4 1 1 [1, 5] 210 @ [(4, Go_on Go_StartLeader 220), (1, Come_back)] @
     w_first_timeout 3 @ w_ask 3 1 1 [1, 2] 310 @ [(3, Go_on Go_StartLeader 320)] @
     w_lead_and_commit 4 1 w_command [1, 5] 330 @ w_lead_and_commit 3 1 w_other [1, 2] 340"

lemma w_forgot_result:
  "map_option (\<lambda>N. (delivered N 3, delivered N 4))
     (net_run (in_time_but restarts) mem_deps w_ids w_forgot_run w_cluster) =
     Some ([(Some w_other, 0)], [(Some w_command, 0)])"
  by code_simp

text \<open>
  After the execution \<open>w_good_run\<close> server 2, which has delivered the command, restarts; at the
  next request of the leader it delivers the command again.
\<close>

definition w_back_run :: "(int \<times> choice) list" where
  "w_back_run = w_good_run @ [(2, Come_back), (1, Go_on Go_LeaderLoop 300)] @ w_append_to 1 1 [2] 310 @
     [(2, Go_on Go_CommitChanSender 320)]"

lemma w_back_result:
  "map_option (\<lambda>N. (delivered N 1, delivered N 2, ever_delivered N 2, cm_log (net_cm N 2)))
     (net_run in_time mem_deps w_ids w_back_run w_cluster) =
     Some ([(Some w_command, 0)], [(Some w_command, 0)], [(Some w_command, 0), (Some w_command, 0)], [w_entry 1])"
  by code_simp

text \<open>
  Server 1 leads term 1. It has appended a second command and given up its lock, but not yet
  written its state; servers 2 and 3 store the command and server 1 commits and delivers it. It
  restarts with the first command only and votes for server 4, which overwrites the second.
\<close>

definition w_unsaved_run :: "(int \<times> choice) list" where
  "w_unsaved_run =
     w_first_timeout 1 @ w_ask 1 1 1 [2, 3] 210 @ [(1, Go_on Go_StartLeader 220)] @
     [(1, Client (Some w_command)), (1, Go_on Go_LeaderStart 230)] @
     w_append_to 1 1 [2, 3, 4] 240 @ w_heard 1 1 0 1 [2, 3] 250 @
     [(1, Client_append (Some w_third)), (1, Go_on Go_LeaderLoop 260)] @
     w_append_to 1 1 [2, 3] 270 @ w_heard 1 1 1 1 [2, 3] 280 @
     [(1, Go_on Go_CommitChanSender 290), (1, Come_back)] @
     w_timeout 4 1 600 @ w_ask 4 2 1 [1, 5] 610 @ [(4, Go_on Go_StartLeader 620)] @
     [(4, Client (Some w_other)), (4, Go_on Go_LeaderStart 630)] @
     w_append_to 4 2 [1, 3] 640 @ w_heard 4 2 1 1 [1, 3] 650 @ [(4, Go_on Go_CommitChanSender 660)]"

lemma w_unsaved_result:
  "map_option (\<lambda>N. (ever_delivered N 1, delivered N 4))
     (net_run (in_time_but restarts) mem_deps w_ids w_unsaved_run w_cluster) =
     Some ([(Some w_command, 0), (Some w_third, 1)], [(Some w_command, 0), (Some w_other, 1)])"
  by code_simp

end
