(* ===== verification/Cluster_Properties.thy ===== *)
theory Cluster_Properties
  imports Cluster_Examples Raft_Recovery
begin

text \<open>
  The properties of the cluster as a whole, each applied to an execution of the five servers.
\<close>

section \<open>The example as a reachable state\<close>

lemma w_good_reached:
  obtains N where "reach mem_deps w_ids N" and "delivered N 1 = [(Some w_command, 0)]"
    and "delivered N 2 = [(Some w_command, 0)]" and "delivered N 3 = []"
    and "cm_state (net_cm N 1) = Leader" and "cm_currentTerm (net_cm N 1) = 1"
    and "net_run in_time mem_deps w_ids w_good_run w_cluster = Some N" and "cm_log (net_cm N 1) = [w_entry 1]"
proof -
  obtain N where run: "net_run in_time mem_deps w_ids w_good_run w_cluster = Some N"
    and res: "delivered N 1 = [(Some w_command, 0)]" "delivered N 2 = [(Some w_command, 0)]"
      "delivered N 3 = []" "cm_state (net_cm N 1) = Leader" "cm_currentTerm (net_cm N 1) = 1"
      "cm_log (net_cm N 1) = [w_entry 1]"
    using w_good_result by (cases "net_run in_time mem_deps w_ids w_good_run w_cluster") auto
  have "reach mem_deps w_ids N" using net_run_reach [OF run] reach_init [OF w_cluster_init] by blast
  with run res that show thesis by blast
qed

lemma w_next_reached:
  obtains N N' pls where "reach mem_deps w_ids N" and "runs (net_step mem_deps w_ids) N pls N'"
    and "reach mem_deps w_ids N'" and "cm_state (net_cm N 1) = Leader" and "cm_currentTerm (net_cm N 1) = 1"
    and "cm_state (net_cm N' 2) = Leader" and "cm_currentTerm (net_cm N' 2) = 2"
    and "cm_log (net_cm N' 2) = [w_entry 1]" and "cm_currentTerm (net_cm N' 1) = 1"
    and "cm_log (net_cm N' 1) = [w_entry 1]" and "cm_commitIndex (net_cm N' 1) = 0"
    and "delivered N 1 = [(Some w_command, 0)]" and "\<forall>l \<in> set (net_hist N' 1). \<not> restarts l"
proof -
  obtain N where N: "reach mem_deps w_ids N" "cm_state (net_cm N 1) = Leader" "cm_currentTerm (net_cm N 1) = 1"
    "net_run in_time mem_deps w_ids w_good_run w_cluster = Some N"
    "delivered N 1 = [(Some w_command, 0)]"
    using w_good_reached by metis
  obtain N' where run: "net_run in_time mem_deps w_ids w_next_run N = Some N'"
    and res: "cm_state (net_cm N' 2) = Leader" "cm_currentTerm (net_cm N' 2) = 2"
      "cm_log (net_cm N' 2) = [w_entry 1]" "cm_currentTerm (net_cm N' 1) = 1"
      "cm_log (net_cm N' 1) = [w_entry 1]" "cm_commitIndex (net_cm N' 1) = 0"
    using w_next_result N(4) by (cases "net_run in_time mem_deps w_ids w_next_run N") auto
  obtain pls where "runs (net_step mem_deps w_ids) N pls N'"
    using net_run_sched [OF run] by (auto simp: net_step_sched)
  moreover have "reach mem_deps w_ids N'" using net_run_reach [OF run N(1)] .
  moreover have "\<forall>l \<in> set (net_hist N 1). \<not> restarts l"
    by (rule net_run_not_restarted [OF N(4)]) (auto simp: w_cluster_def w_good_run_def w_run_defs)
  then have "\<forall>l \<in> set (net_hist N' 1). \<not> restarts l"
    by (rule net_run_not_restarted [OF run, rotated]) (auto simp: w_next_run_def w_run_defs)
  ultimately show thesis using that N(1-3,5) res by blast
qed

lemma w_ids_mem [simp]: "1 \<in> w_ids" "2 \<in> w_ids" "3 \<in> w_ids"
  by (simp_all add: w_ids_def)

text \<open>In the example no server has been stopped or has a later term, and server 2 knows the leader.\<close>

lemma w_good_calm:
  obtains N where "reach mem_deps w_ids N" and "cm_state (net_cm N 1) = Leader"
    and "cm_currentTerm (net_cm N 1) = 1" and "cm_log (net_cm N 1) = [w_entry 1]" and "delivered N 3 = []"
    and "\<forall>q \<in> w_ids. L_Stop \<notin> set (net_hist N q) \<and> cm_currentTerm (net_cm N q) \<le> cm_currentTerm (net_cm N 1)"
    and "cm_state (net_cm N 2) = Follower" and "cm_leaderid (net_cm N 2) = 1"
    and "net_run in_time mem_deps w_ids w_good_run w_cluster = Some N"
proof -
  obtain N where N: "reach mem_deps w_ids N" "delivered N 3 = []" "cm_state (net_cm N 1) = Leader"
    "cm_currentTerm (net_cm N 1) = 1"
    "net_run in_time mem_deps w_ids w_good_run w_cluster = Some N" "cm_log (net_cm N 1) = [w_entry 1]"
    using w_good_reached by metis
  have "map (\<lambda>q. cm_currentTerm (net_cm N q)) [1, 2, 3, 4, 5] = [1, 1, 1, 0, 0]" using w_good_terms N(5) by simp
  moreover have "L_Stop \<notin> set (net_hist N q)" for q
    by (rule net_run_not_stopped [OF N(5)]) (simp add: w_cluster_def)
  ultimately have "\<forall>q \<in> w_ids. L_Stop \<notin> set (net_hist N q) \<and> cm_currentTerm (net_cm N q) \<le> cm_currentTerm (net_cm N 1)"
    using N(4) by (auto simp: w_ids_def)
  moreover have "cm_state (net_cm N 2) = Follower" "cm_leaderid (net_cm N 2) = 1"
    using w_good_follower N(5) by simp_all
  ultimately show thesis using that N by blast
qed

section \<open>Safety of the replicated log\<close>



lemma led_stays: "runs (net_step D ids) N pls N' \<Longrightarrow> (p, t) \<in> net_led N \<Longrightarrow> (p, t) \<in> net_led N'"
proof (induction rule: runs.induct)
  case (runs_cons N pl N1 pls N2)
  then have "(p, t) \<in> net_led N1" by (auto simp: net_step_def)
  with runs_cons show ?case by blast
qed













section \<open>Progress\<close>





end
