(* ===== verification/Broadcast_Properties.thy ===== *)
theory Broadcast_Properties
  imports Cluster_Properties Broadcast_Spec
begin

text \<open>
  The cluster as an implementation of the broadcast specification, and the validity of what it
  delivers.
\<close>

section \<open>Refinement\<close>



section \<open>Delivery\<close>

lemma committed_kept_run:
  assumes "runs (net_step D ids) N pls N'" and "reach D ids N"
    and "\<forall>l. (p, l) \<in> set pls \<longrightarrow> \<not> restarts l"
  shows "prefix (committed (net_cm N p)) (committed (net_cm N' p)) \<and> prefix (delivered N p) (delivered N' p)"
  using assms
proof (induction rule: runs.induct)
  case (runs_cons N pl N1 pls N2)
  obtain q l cm' where move: "net_move D ids N q l cm'" and N1: "N1 = net_after q l cm' N" and pl: "pl = (q, l)"
    using runs_cons.hyps(1) runs_cons.prems(1) by (auto simp: net_step_def net_move_def split: prod.splits)
  have l: "\<not> restarts l" if "p = q" using runs_cons.prems(2) pl that by simp
  have "prefix (committed (net_cm N p)) (committed (net_cm N1 p))"
    unfolding N1 using l by (rule committed_kept [OF move])
  moreover have "prefix (delivered N p) (delivered N1 p)" using l by (simp add: N1 delivered_after)
  moreover have "reach D ids N1" unfolding N1 by (rule net_moveD(7) [OF move])
  moreover have "\<forall>l. (p, l) \<in> set pls \<longrightarrow> \<not> restarts l" using runs_cons.prems(2) by simp
  ultimately show ?case using runs_cons.IH by (blast intro: prefix_order.trans)
qed simp

lemma reach_represents: "reach D ids N \<Longrightarrow> \<exists>s. represents D ids N s"
proof (induction rule: reach.induct)
  case (reach_step N pl N')
  then show ?case using refinement_square by blast
qed (blast intro: represents_init)

lemma delivered_comparable_run:
  assumes "runs (net_step D ids) N pls N'" and "reach D ids N" and "p \<in> ids"
  shows "prefix (delivered N p) (delivered N' p) \<or> prefix (delivered N' p) (delivered N p)"
proof -
  obtain s where s: "represents D ids N s" using reach_represents [OF assms(2)] by blast
  obtain s' where s': "runs bc_step s (map observe pls) s'" "represents D ids N' s'"
    using cluster.simulated [OF assms(1) s] by blast
  have c: "prefix (map le_Command (committed (net_cm N p))) (bc_log s)"
    "prefix (map le_Command (committed (net_cm N' p))) (bc_log s')"
    using s s'(2) assms(3) by (auto simp: represents_def)
  have "prefix (map le_Command (committed (net_cm N p))) (bc_log s')"
    using c(1) bc_log_grows [OF s'(1)] by (rule prefix_order.trans)
  from delivered_placed(1) [OF assms(2,3) this] delivered_placed(1) [OF reach_runs [OF assms(1,2)] assms(3) c(2)]
  show ?thesis by (metis prefix_same_cases take_is_prefix)
qed


lemma runs_hist: "runs (net_step D ids) N pls N' \<Longrightarrow> (p, l) \<in> set pls \<or> l \<in> set (net_hist N p) \<Longrightarrow> l \<in> set (net_hist N' p)"
proof (induction rule: runs.induct)
  case (runs_cons N pl N1 pls N2)
  then have "(p, l) \<in> set pls \<or> l \<in> set (net_hist N1 p)" by (auto simp: net_step_def split: if_splits)
  with runs_cons.IH show ?case by blast
qed simp


section \<open>Validity\<close>



end
