(* ===== verification/Raft_Properties.thy ===== *)
theory Raft_Properties
  imports Raft_Quorum Examples
begin

text \<open>
  The commit rule of the leader, with its application to a concrete state.
\<close>

section \<open>The commit rule\<close>

lemma w_leader_committable: "committable w_leader 0"
  by (simp add: committable_def majority_def matchCount_def)

text \<open>
  C21: The commit rule of the leader. It never fails, never moves the commit index back, and
  moves it to the last entry of the leader's own term that a majority stores, if there is one
  beyond the commit index.
\<close>

theorem commit_rule:
  assumes "-1 \<le> cm_commitIndex cm"
  shows "leaderCommit cm = Inr (cm_commitIndex cm) \<and>
      (\<forall>i. cm_commitIndex cm < int i \<longrightarrow> i < length (cm_log cm) \<longrightarrow> \<not> committable cm i) \<or>
    (\<exists>i. leaderCommit cm = Inr (int i) \<and> cm_commitIndex cm < int i \<and> i < length (cm_log cm) \<and>
      committable cm i \<and> (\<forall>j. i < j \<longrightarrow> j < length (cm_log cm) \<longrightarrow> \<not> committable cm j))"
  by (rule leaderCommit_cases [OF assms]) blast+

theorem commit_rule_witness: "leaderCommit w_leader = Inr 0"
  using commit_rule [of w_leader] w_leader_committable by auto

end
