(* ===== verification/Replication_Properties.thy ===== *)
theory Replication_Properties
  imports Raft_Properties
begin

text \<open>
  The properties of log replication, of persistence and restart, and the schedules in which
  the code departs from the protocol.
\<close>

section \<open>Replication\<close>

text \<open>
  C20: A follower catches up in at most two exchanges. If the logs match, the leader leads and
  the follower is in no later term, then the first exchange either leaves the follower with the
  whole log of the leader, or is rejected and the second one does; the leader then knows it.
\<close>

theorem follower_catches_up:
  assumes "deps_ok D" and "leading p l" and "following (cm_currentTerm l) f"
    and "log_matching (cm_log l) (cm_log f)"
  shows "\<exists>l' f' reply. replicate_round D now p l f = Inr (l', f', reply) \<and>
    (if aer_Success reply then replicated p (cm_log l) l' f'
     else \<exists>l'' f'' reply'. replicate_round D now' p l' f' = Inr (l'', f'', reply') \<and>
            aer_Success reply' \<and> replicated p (cm_log l) l'' f'')"
  by (rule two_rounds [OF assms])

definition w_ahead :: "(string \<rightharpoonup> gob) ConsensusModule" where
  "w_ahead = w_leader\<lparr>cm_nextIndex := fmupd 2 1 fmempty\<rparr>"

lemma w_ahead_leading: "leading 2 w_ahead" "following (cm_currentTerm w_ahead) (w_cm 2)"
  "log_matching (cm_log w_ahead) (cm_log (w_cm 2))" "cm_log w_ahead = [w_entry 1]"
  by (simp_all add: w_ahead_def leading_def following_def log_matching_def)

theorem follower_catches_up_witness:
  "\<exists>l' f' reply. replicate_round mem_deps 0 2 w_ahead (w_cm 2) = Inr (l', f', reply) \<and>
    (if aer_Success reply then replicated 2 [w_entry 1] l' f'
     else \<exists>l'' f'' reply'. replicate_round mem_deps 50 2 l' f' = Inr (l'', f'', reply') \<and>
            aer_Success reply' \<and> replicated 2 [w_entry 1] l'' f'')"
  using follower_catches_up [OF mem_deps_ok w_ahead_leading(1,2,3), where now = 0 and now' = 50]
  unfolding w_ahead_leading(4) .

text \<open>
  What an accepted request does to the log. The entries before the new ones stay, the new
  ones are there, term by term, and the log is either unchanged or ends with them; the server is
  a follower in the term of the request.
\<close>

lemma accepted_entries_in_log:
  assumes "AppendEntriesHelper D now req cm = Inr (cm', reply)" and "aer_Success reply"
  shows "let s = nat (ae_PrevLogIndex req + 1) in
    take s (cm_log cm') = take s (cm_log cm) \<and>
    (\<forall>k. k < length (ae_Entries req) \<longrightarrow> s + k < length (cm_log cm') \<and>
       same_term (cm_log cm' ! (s + k)) (ae_Entries req ! k)) \<and>
    (cm_log cm' = cm_log cm \<or> length (cm_log cm') = s + length (ae_Entries req)) \<and>
    cm_state cm' = Follower \<and> cm_currentTerm cm' = ae_Term req"
proof -
  let ?s = "nat (ae_PrevLogIndex req + 1)"
  from AppendEntriesHelper_log(1) [OF assms]
  have prev: "prevLogMatches req (cm_log cm) = Inr True" and live: "cm_state cm \<noteq> Dead"
      "cm_currentTerm cm \<le> ae_Term req"
    and log: "cm_log cm' = insertEntries ?s (ae_Entries req) (cm_log cm)" by auto
  note start = prevLogMatches_start(2) [OF prev]
  have "cm_log cm' = cm_log cm \<or> length (cm_log cm') = ?s + length (ae_Entries req)"
  proof (cases rule: insertEntries_cases [of ?s "ae_Entries req" "cm_log cm"])
    case (cut m)
    have "?s + m \<le> length (cm_log cm)"
      using cut(3) [of "m - 1"] start by (cases m) auto
    with cut(1,2) log show ?thesis by simp
  qed (use log in simp)
  with insertEntries_prefix [OF start] insertEntries_holds [OF start] log live
    AppendEntriesHelper_frame(4,5) [OF assms(1)]
  show ?thesis by (simp add: Let_def)
qed

text \<open>
  The merge as a recursion on the two lists: entries with equal terms are kept from the log, the
  first difference replaces the rest of the log.
\<close>

fun merge_log :: "LogEntry list \<Rightarrow> LogEntry list \<Rightarrow> LogEntry list" where
  "merge_log log [] = log"
| "merge_log [] entries = entries"
| "merge_log (x # log) (e # entries) = (if same_term x e then x # merge_log log entries else e # entries)"

lemma merge_log_kept:
  "(\<And>k. k < length es \<Longrightarrow> k < length xs \<and> same_term (xs ! k) (es ! k)) \<Longrightarrow> merge_log xs es = xs"
proof (induction xs es rule: merge_log.induct)
  case (3 x log e entries)
  have "k < length log \<and> same_term (log ! k) (entries ! k)" if "k < length entries" for k
    using 3(2) [of "Suc k"] that by simp
  with 3(1) 3(2) [of 0] show ?case by simp
qed fastforce+

lemma merge_log_cut:
  "m < length es \<Longrightarrow> (\<And>k. k < m \<Longrightarrow> k < length xs \<and> same_term (xs ! k) (es ! k)) \<Longrightarrow>
   length xs \<le> m \<or> \<not> same_term (xs ! m) (es ! m) \<Longrightarrow> merge_log xs es = take m xs @ drop m es"
proof (induction xs es arbitrary: m rule: merge_log.induct)
  case (3 x log e entries)
  show ?case
  proof (cases m)
    case (Suc n)
    have "k < length log \<and> same_term (log ! k) (entries ! k)" if "k < n" for k
      using 3(3) [of "Suc k"] that Suc by simp
    with 3(1) [of n] 3(2,4) 3(3) [of 0] Suc show ?thesis by simp
  qed (use 3(4) in simp)
next
  case (2 e es)
  then show ?case by (cases m) auto
qed auto

theorem insertEntries_merge_log:
  assumes "start \<le> length log"
  shows "insertEntries start entries log = take start log @ merge_log (drop start log) entries"
proof (cases rule: insertEntries_cases [of start entries log])
  case kept
  then have "merge_log (drop start log) entries = drop start log"
    using assms by (intro merge_log_kept) (metis add_less_cancel_left le_add_diff_inverse length_drop nth_drop)
  with kept(1) show ?thesis by simp
next
  case (cut m)
  have in_log: "k < length (drop start log) \<and> same_term (drop start log ! k) (entries ! k)" if "k < m" for k
    using cut(3) [OF that] assms by auto
  have "length (drop start log) \<le> m \<or> \<not> same_term (drop start log ! m) (entries ! m)"
    using cut(4) assms by auto
  from merge_log_cut [OF cut(2) in_log this] cut(1) show ?thesis by (simp add: take_add)
qed

text \<open>
  C19: The search for the insertion point computes a plain merge. An accepted request leaves the
  log up to the previous index, followed by the recursive merge of the rest of the log with the
  new entries; a refused one leaves the log alone.
\<close>

theorem append_is_merge:
  assumes "AppendEntriesHelper D now req cm = Inr (cm', reply)"
  defines "s \<equiv> nat (ae_PrevLogIndex req + 1)"
  shows "cm_log cm' = (if aer_Success reply
    then take s (cm_log cm) @ merge_log (drop s (cm_log cm)) (ae_Entries req) else cm_log cm)"
proof (cases "aer_Success reply")
  case True
  note log = AppendEntriesHelper_log(1) [OF assms(1) True]
  then have "s \<le> length (cm_log cm)" unfolding s_def by (intro prevLogMatches_start(2)) auto
  with log True show ?thesis by (simp add: insertEntries_merge_log s_def)
qed (simp add: AppendEntriesHelper_log(2) [OF assms(1)])

theorem append_is_merge_witness:
  "\<exists>f. AppendEntriesHelper mem_deps 0 w_append (w_cm 1) = Inr (f, w_reply) \<and> cm_log f = merge_log [] [w_entry 1]"
proof -
  obtain f where f: "AppendEntriesHelper mem_deps 0 w_append (w_cm 1) = Inr (f, w_reply)"
    using w_append_run by blast
  from append_is_merge [OF f] f show ?thesis by (intro exI [of _ f]) (simp add: w_reply_def)
qed

text \<open>
  Handling a request again changes nothing. A request that has been accepted, delivered a
  second time, leaves the log and the commit index as they are.
\<close>

lemma append_entries_idempotent:
  assumes "AppendEntriesHelper D now req cm = Inr (cm', reply)" and "aer_Success reply"
    and "AppendEntriesHelper D now' req cm' = Inr (cm'', reply')"
  shows "cm_log cm'' = cm_log cm' \<and> cm_commitIndex cm'' = cm_commitIndex cm'"
proof (cases "aer_Success reply'")
  case True
  let ?s = "nat (ae_PrevLogIndex req + 1)"
  note first = AppendEntriesHelper_log(1) [OF assms(1,2)]
  note second = AppendEntriesHelper_log(1) [OF assms(3) True]
  have "?s \<le> length (cm_log cm)" using first by (intro prevLogMatches_start(2)) auto
  then have log: "cm_log cm'' = cm_log cm'"
    using insertEntries_idem [of ?s "cm_log cm" "ae_Entries req"] first second by simp
  with first second show ?thesis by (auto simp: intMin_def split: if_splits)
qed (use AppendEntriesHelper_log(2) [OF assms(3)] in simp)

text \<open>
  C32: A request of an old term is refused. The handler answers with the later term and changes
  nothing but the stored state and the leader it believes in, which it takes over from the
  refused request.
\<close>

theorem stale_append_refused:
  assumes "deps_ok D" and "log_encodable (cm_log cm)" and "cm_state cm \<noteq> Dead"
    and "ae_Term req < cm_currentTerm cm"
  shows "\<exists>store. AppendEntriesHelper D now req cm =
    Inr (cm\<lparr>cm_leaderid := ae_LeaderId req, cm_storage := store\<rparr>,
         \<lparr>aer_Term = cm_currentTerm cm, aer_Success = False, aer_ConflictIndex = 0, aer_ConflictTerm = 0\<rparr>)"
proof -
  obtain cm1 where "persistToStorage D (cm\<lparr>cm_leaderid := ae_LeaderId req\<rparr>) = Inr cm1"
    using persistToStorage_returns [OF assms(1)] assms(2) by fastforce
  with persistToStorage_frame [OF this] assms(3,4) show ?thesis
    by (auto simp: AppendEntriesHelper_def Let_def)
qed

theorem stale_append_refused_witness:
  "\<exists>store. AppendEntriesHelper mem_deps 0 (w_append\<lparr>ae_Term := 0\<rparr>) w_leader =
    Inr (w_leader\<lparr>cm_leaderid := 2, cm_storage := store\<rparr>,
         \<lparr>aer_Term = 1, aer_Success = False, aer_ConflictIndex = 0, aer_ConflictTerm = 0\<rparr>)"
  using stale_append_refused [of mem_deps w_leader "w_append\<lparr>ae_Term := 0\<rparr>" 0] by simp

section \<open>Elections\<close>

definition up_to_date :: "RequestVoteRequest \<Rightarrow> 's ConsensusModule \<Rightarrow> bool" where
  "up_to_date req cm \<longleftrightarrow>
     rv_LastLogTerm req > snd (lastLogIndexAndTerm cm) \<or>
     rv_LastLogTerm req = snd (lastLogIndexAndTerm cm) \<and> rv_LastLogIndex req \<ge> fst (lastLogIndexAndTerm cm)"

lemma lastLogIndexAndTerm_cong: "cm_log cm' = cm_log cm \<Longrightarrow> lastLogIndexAndTerm cm' = lastLogIndexAndTerm cm"
  by (simp add: lastLogIndexAndTerm_def)

lemma vote_cond_iff:
  "vote_cond req cm \<longleftrightarrow> cm_currentTerm cm = rv_Term req \<and>
     (cm_votedFor cm = -1 \<or> cm_votedFor cm = rv_CandidateId req) \<and> up_to_date req cm"
  by (simp add: vote_cond_def up_to_date_def split: prod.splits)

text \<open>
  When a vote is granted. A running server answers every vote request with the later of the
  two terms, and grants it exactly when the request is not of an old term, the server has not
  voted for another candidate in that term, and the candidate's log is at least as up to date.
\<close>

lemma vote_granted_iff:
  assumes "deps_ok D" and "log_encodable (cm_log cm)" and "cm_state cm \<noteq> Dead"
  shows "\<exists>cm' reply. RequestVoteHelper D now req cm = Inr (cm', reply) \<and>
    rvr_Term reply = max (cm_currentTerm cm) (rv_Term req) \<and>
    (rvr_VoteGranted reply \<longleftrightarrow> cm_currentTerm cm \<le> rv_Term req \<and>
       (cm_currentTerm cm = rv_Term req \<longrightarrow> cm_votedFor cm \<in> {-1, rv_CandidateId req}) \<and>
       up_to_date req cm)"
proof -
  let ?cm1 = "if rv_Term req > cm_currentTerm cm then becomeFollower now (rv_Term req) cm else cm"
  let ?cm2 = "if vote_cond req ?cm1
     then ?cm1\<lparr>cm_votedFor := rv_CandidateId req, cm_electionResetEvent := now\<rparr> else ?cm1"
  have log: "cm_log ?cm2 = cm_log cm" "cm_log ?cm1 = cm_log cm" by simp_all
  obtain cm3 where "persistToStorage D ?cm2 = Inr cm3"
    using persistToStorage_returns [OF assms(1), of ?cm2] assms(2) log by auto
  then have "RequestVoteHelper D now req cm =
      Inr (cm3, \<lparr>rvr_Term = cm_currentTerm ?cm2, rvr_VoteGranted = vote_cond req ?cm1\<rparr>)"
    using assms(3) by (simp add: RequestVoteHelper_def Let_def)
  moreover have "up_to_date req ?cm1 = up_to_date req cm"
    using lastLogIndexAndTerm_cong [OF log(2)] by (simp add: up_to_date_def)
  ultimately show ?thesis by (auto simp: vote_cond_iff max_def)
qed

definition counts :: "int \<Rightarrow> RequestVoteResponse \<Rightarrow> bool" where
  "counts saved r \<longleftrightarrow> rvr_Term r = saved \<and> rvr_VoteGranted r"

lemma handleVoteReply_candidate:
  assumes "cm_state c = Candidate" and "rvr_Term r \<le> saved"
  shows "cm_votes (handleVoteReply now saved el r c) el = cm_votes c el + (if counts saved r then 1 else 0)"
    and "cm_state (handleVoteReply now saved el r c) = Candidate"
    and "pending Go_StartLeader (handleVoteReply now saved el r c) \<longleftrightarrow>
      pending Go_StartLeader c \<or> counts saved r \<and> majority (cm_votes c el + 1) c"
  using assms by (auto simp: handleVoteReply_def Let_def counts_def majority_def pending_def)

text \<open>The count of an election over the replies of its peers.\<close>

definition reply_votes :: "int \<Rightarrow> RequestVoteResponse list \<Rightarrow> int" where
  "reply_votes saved rs = int (length (filter (counts saved) rs))"

definition count_replies ::
  "int \<Rightarrow> int \<Rightarrow> nat \<Rightarrow> RequestVoteResponse list \<Rightarrow> 's ConsensusModule \<Rightarrow> 's ConsensusModule" where
  "count_replies now saved el rs cm = fold (\<lambda>r. handleVoteReply now saved el r) rs cm"

lemma count_replies_peerIds: "cm_peerIds (count_replies now saved el rs cm) = cm_peerIds cm"
  by (induction rs rule: rev_induct) (simp_all add: count_replies_def handleVoteReply_frame)

text \<open>
  A candidate becomes leader exactly with a majority. While a candidate handles replies of
  its election that carry no later term, its counter is one vote more for every grant in the
  term, and a new leader is started if and only if the counter has reached a majority.
\<close>

lemma candidate_needs_majority:
  assumes "cm_state cm = Candidate" and "\<forall>r \<in> set rs. rvr_Term r \<le> saved"
    and "\<not> pending Go_StartLeader cm" and "\<not> majority (cm_votes cm el) cm"
  shows "cm_votes (count_replies now saved el rs cm) el = cm_votes cm el + reply_votes saved rs \<and>
    cm_state (count_replies now saved el rs cm) = Candidate \<and>
    (pending Go_StartLeader (count_replies now saved el rs cm) \<longleftrightarrow>
       majority (cm_votes cm el + reply_votes saved rs) cm)"
  using assms(2)
proof (induction rs rule: rev_induct)
  case Nil
  with assms show ?case by (simp add: count_replies_def reply_votes_def)
next
  case (snoc r rs)
  let ?c = "count_replies now saved el rs cm"
  have step: "count_replies now saved el (rs @ [r]) cm = handleVoteReply now saved el r ?c"
    by (simp add: count_replies_def)
  have maj: "majority n ?c = majority n cm" for n
    by (simp add: majority_def count_replies_peerIds)
  have votes: "reply_votes saved (rs @ [r]) = reply_votes saved rs + (if counts saved r then 1 else 0)"
    by (simp add: reply_votes_def counts_def)
  have mono: "majority n cm \<Longrightarrow> majority (n + 1) cm" for n by (simp add: majority_def)
  from snoc have "cm_state ?c = Candidate" "rvr_Term r \<le> saved" by simp_all
  from handleVoteReply_candidate [OF this, of now el] snoc mono [of "cm_votes cm el + reply_votes saved rs"]
  show ?case unfolding step votes maj by (auto simp: add.assoc)
qed

end
