(* ===== verification/Restart_Properties.thy ===== *)
theory Restart_Properties
  imports Replication_Properties
begin

text \<open>
  What survives a crash: the properties of the persisted state.
\<close>

section \<open>Persistence\<close>

definition durable :: "'s deps \<Rightarrow> 's ConsensusModule \<Rightarrow> bool" where
  "durable D cm \<longleftrightarrow>
     GetState D (cm_storage cm) = Inr (cm_currentTerm cm, cm_votedFor cm, cm_log cm) \<and>
     HasData D (cm_storage cm) = Inr (cm_log cm \<noteq> [])"

lemma persisted_durable: "deps_ok D \<Longrightarrow> persistToStorage D cm = Inr cm' \<Longrightarrow> durable D cm'"
  by (auto simp: persistToStorage_def durable_def dest: raft_storage.get_put raft_storage.has_put)

text \<open>
  C29: State is on disk before a peer hears of it. When a running server has handled a vote
  request or an append request, reading its storage gives exactly its term, its vote and its log,
  and the storage says that it has data if and only if that log has an entry.
\<close>

theorem answered_after_persist:
  assumes "deps_ok D" and "cm_state cm \<noteq> Dead"
    and "cm_step D cm l cm'"
    and "l = L_RequestVote vreq vreply \<or> l = L_AppendEntries areq areply"
  shows "durable D cm'"
  using assms(4)
proof
  assume "l = L_RequestVote vreq vreply"
  with assms(3) obtain now where run: "RequestVoteHelper D now vreq cm = Inr (cm', vreply)"
    by (auto elim: RequestVote_stepE)
  from RequestVoteHelper_Inr [OF run assms(2)] assms(1) show ?thesis by (metis persisted_durable)
next
  assume "l = L_AppendEntries areq areply"
  with assms(3) obtain now where "AppendEntriesHelper D now areq cm = Inr (cm', areply)"
    by (auto elim: AppendEntries_stepE)
  with assms(2) obtain cm5 where "persistToStorage D cm5 = Inr cm'"
    by (auto simp: AppendEntriesHelper_def Let_def)
  with assms(1) show ?thesis by (rule persisted_durable)
qed

theorem answered_after_persist_witness:
  "\<exists>f. cm_step mem_deps (w_cm 1) (L_AppendEntries w_append w_reply) f \<and> durable mem_deps f"
proof -
  obtain f where "AppendEntriesHelper mem_deps 0 w_append (w_cm 1) = Inr (f, w_reply)"
    using w_append_run by blast
  then have "cm_step mem_deps (w_cm 1) (L_AppendEntries w_append w_reply) f" by (rule cm_step.AppendEntries)
  with answered_after_persist [OF mem_deps_ok _ this] show ?thesis by auto
qed

lemma durable_starts:
  assumes "durable D cm" and "cm_log cm \<noteq> []" and "opens open_db (cm_id cm) (cm_storage cm)"
  obtains cm' where "NewConsensusModule D open_db (cm_id cm) (cm_peerIds cm) = Inr cm'"
    and "cm_currentTerm cm' = cm_currentTerm cm" and "cm_votedFor cm' = cm_votedFor cm" and "cm_log cm' = cm_log cm"
proof -
  have "\<exists>cm'. NewConsensusModule D open_db (cm_id cm) (cm_peerIds cm) = Inr cm' \<and>
      cm_currentTerm cm' = cm_currentTerm cm \<and> cm_votedFor cm' = cm_votedFor cm \<and> cm_log cm' = cm_log cm"
    using assms(1,2) NewDiskStore_opens [OF assms(3)]
    by (simp add: NewConsensusModule_def restoreFromStorage_def init_cm_def durable_def)
  with that show thesis by blast
qed

text \<open>
  C30: A restart restores term, vote and log. A server whose state is durable and that has a log
  can be ended and started on its databases; it has the same term, vote and log, is a follower
  that has committed and applied nothing, and has taken a step in time of the cluster's relation.
\<close>

theorem restart_restores:
  assumes "durable D cm" and "cm_log cm \<noteq> []" and "opens open_db (cm_id cm) (cm_storage cm)"
  shows "\<exists>cm'. NewConsensusModule D open_db (cm_id cm) (cm_peerIds cm) = Inr cm' \<and>
    cm_currentTerm cm' = cm_currentTerm cm \<and> cm_votedFor cm' = cm_votedFor cm \<and>
    cm_log cm' = cm_log cm \<and> cm_storage cm' = cm_storage cm \<and> cm_state cm' = Follower \<and>
    cm_commitIndex cm' = -1 \<and> cm_lastApplied cm' = -1 \<and>
    prompt_step D cm (L_Restart (cm_currentTerm cm) (cm_votedFor cm) (cm_log cm)) cm'"
proof -
  obtain cm' where new: "NewConsensusModule D open_db (cm_id cm) (cm_peerIds cm) = Inr cm'"
    and same: "cm_currentTerm cm' = cm_currentTerm cm" "cm_votedFor cm' = cm_votedFor cm" "cm_log cm' = cm_log cm"
    by (rule durable_starts [OF assms])
  have "cm_step D cm (L_Restart (cm_currentTerm cm) (cm_votedFor cm) (cm_log cm)) cm'"
    using cm_step.Restart [OF assms(3) new] by (simp only: same)
  then show ?thesis
    using new same restart_started [OF assms(3) new] by (simp add: prompt_step_def started_def)
qed

theorem restart_restores_witness:
  "\<exists>cm cm'. persistToStorage mem_deps w_leader = Inr cm \<and>
    NewConsensusModule mem_deps (reopened (cm_id cm) (cm_storage cm)) (cm_id cm) (cm_peerIds cm) = Inr cm' \<and>
    cm_currentTerm cm' = 1 \<and> cm_votedFor cm' = 1 \<and> cm_log cm' = [w_entry 1] \<and> cm_commitIndex cm' = -1"
proof -
  obtain cm where cm: "persistToStorage mem_deps w_leader = Inr cm"
    using persistToStorage_returns [OF mem_deps_ok, of w_leader] by auto
  have same: "cm_log cm = [w_entry 1]" "cm_currentTerm cm = 1" "cm_votedFor cm = 1"
    using persistToStorage_frame [OF cm] by auto
  from restart_restores [OF persisted_durable [OF mem_deps_ok cm] _ opens_reopened] same cm show ?thesis by fastforce
qed

text \<open>
  C31: A submitted command is in the stored log of the leader when the submission is done, under the
  leader's term and behind everything else; any other server changes nothing but starts a
  goroutine that forwards the command.
\<close>

theorem submit_durable:
  assumes "deps_ok D" and "Submit D command cm = Inr (cm', ok)"
  shows "ok \<and>
    (if cm_state cm = Leader
     then cm_log cm' = cm_log cm @ [\<lparr>le_Command = command, le_Term = cm_currentTerm cm\<rparr>] \<and>
          durable D cm' \<and> cm_triggerAE cm' = Suc (cm_triggerAE cm)
     else cm' = cm\<lparr>cm_spawned := cm_spawned cm @ [Go_Forward command]\<rparr>)"
proof (cases "cm_state cm = Leader")
  case True
  with assms(2) obtain cm1 where p: "persistToStorage D (cm\<lparr>cm_log := cm_log cm @
      [\<lparr>le_Command = command, le_Term = cm_currentTerm cm\<rparr>]\<rparr>) = Inr cm1"
    and cm': "cm' = cm1\<lparr>cm_triggerAE := Suc (cm_triggerAE cm1)\<rparr>" and ok: ok
    by (auto simp: Submit_def)
  from persisted_durable [OF assms(1) p] persistToStorage_frame [OF p] True cm' ok
  show ?thesis by (auto simp: durable_def)
next
  case False
  with assms(2) show ?thesis by (auto simp: Submit_def forwardToLeader_def spawn_def)
qed

theorem submit_durable_witness:
  "\<exists>cm'. Submit mem_deps (Some w_command) w_leader = Inr (cm', True) \<and>
     cm_log cm' = [w_entry 1, w_entry 1] \<and> durable mem_deps cm'"
proof -
  have "log_encodable [w_entry 1, w_entry 1]"
    by (simp add: log_encodable_def w_entry_def w_command_def)
  then obtain cm' where r: "Submit mem_deps (Some w_command) w_leader = Inr (cm', True)"
    using persistToStorage_returns [OF mem_deps_ok, of "w_leader\<lparr>cm_log := [w_entry 1, w_entry 1]\<rparr>"]
    by (auto simp: Submit_def w_entry_def)
  from submit_durable [OF mem_deps_ok r] r show ?thesis
    by (intro exI [of _ cm']) (simp add: w_entry_def)
qed

end
