(* ===== verification/Store_Properties.thy ===== *)
theory Store_Properties
  imports Raft_Properties
begin

text \<open>
  The properties of the application of committed commands: the refinement of the abstract chat,
  what each command does to groups, posts and users, and the inputs on which the store
  misbehaves.
\<close>

section \<open>Refinement\<close>

text \<open>
  C5: Applying committed commands refines the abstract chat. On a store in order, every
  sequence of well-formed commands is applied without a failure, announces the groups that its
  operations concern, in order, and leaves a store that represents the result of the abstract
  operations.
\<close>

theorem committed_commands_refine:
  assumes "disk_ok D store" and "ops_ok xs (abs_store D store)"
    and "map (\<lambda>e. ce_Command (snd e)) es = map (\<lambda>x. Some (command_of x)) xs"
  shows "\<exists>store'. apply_entries D es store = Inr (store', concat (map op_groups xs)) \<and>
    disk_ok D store' \<and> abs_store D store' = ops_apply xs (abs_store D store)"
  by (rule apply_entries_refines [OF assms])

lemma disk_ok_w [simp]: "disk_ok mem_deps w_store"
  by (simp add: disk_ok_def store_invar_def GetGroup_def w_store_def)

definition w_chat :: AChat where
  "w_chat = \<lparr>ac_users = Map.empty, ac_groups = Map.empty\<rparr>"

lemma abs_w_store [simp]: "abs_store mem_deps w_store = w_chat"
  by (simp add: abs_store_def GetGroup_def w_store_def w_chat_def)

definition w_group :: Group where
  "w_group = \<lparr>grp_GroupID = 0, grp_Groupname = ''go'', grp_Participants = None, grp_Messages = None\<rparr>"

definition w_message :: ChatMessage where
  "w_message = \<lparr>msg_MessagedBy = Some w_user, msg_Message = ''hi'', msg_LikedBy = fmempty\<rparr>"

definition w_ops :: "chat_op list" where
  "w_ops = [Op_Login w_user, Op_Join w_user ''go'' ''None'', Op_Post w_message w_group]"

definition w_entries :: "(uint32 \<times> CommitEntry) list" where
  "w_entries = map (\<lambda>x. (9, \<lparr>ce_Command = Some (command_of x), ce_Index = 0, ce_Term = 1\<rparr>)) w_ops"

lemma group_name_w [simp]: "group_name_ok ''go''" "group_name_ok ''None''"
  by (simp_all add: group_name_ok_def numeral_key_def is_digit_def)

lemma ops_ok_w: "ops_ok w_ops w_chat"
  by (simp add: w_ops_def w_message_def w_group_def message_ok_def max_posts_def posts_def w_chat_def
      a_login_def a_join_def a_leave_def upd_group_def)

lemma ops_apply_w: "posts (ops_apply w_ops w_chat) ''go'' = [abs_post w_message]"
  by (simp add: w_ops_def posts_def w_chat_def w_group_def a_login_def a_join_def a_leave_def
      a_post_def upd_posts_def upd_group_def)

theorem committed_commands_refine_witness:
  "\<exists>store'. apply_entries mem_deps w_entries w_store = Inr (store', [''None'', ''go'', ''go'']) \<and>
     posts (abs_store mem_deps store') ''go'' = [abs_post w_message]"
proof -
  have "concat (map op_groups w_ops) = [''None'', ''go'', ''go'']"
    by (simp add: w_ops_def w_group_def)
  with committed_commands_refine [of mem_deps w_store w_ops w_entries] ops_ok_w ops_apply_w show ?thesis
    by (auto simp: w_entries_def)
qed

section \<open>Groups and posts\<close>

text \<open>A committed entry for an operation.\<close>

definition entry_of :: "chat_op \<Rightarrow> CommitEntry" where
  "entry_of x = \<lparr>ce_Command = Some (command_of x), ce_Index = 0, ce_Term = 0\<rparr>"

lemma persistData_op:
  assumes "disk_ok D store" and "op_ok x (abs_store D store)"
  obtains store' where "persistData D gid (entry_of x) store = Inr (store', op_groups x)"
    and "disk_ok D store'" and "abs_store D store' = op_apply x (abs_store D store)"
  using persistData_refines [OF assms, of "entry_of x" gid] by (auto simp: entry_of_def)

text \<open>
  C33: A join moves the user. When a committed join is applied, the user is a member of the new
  group and no longer of the group it left, every other membership is what it was, and no post
  is lost.
\<close>

theorem join_moves_member:
  assumes "disk_ok D store" and "named_members (abs_store D store)" and "group_name_ok new" and "cur \<noteq> new"
  shows "\<exists>store'. persistData D gid (entry_of (Op_Join u new cur)) store = Inr (store', [cur, new]) \<and>
    (\<forall>n. members (abs_store D store') n =
       (if n = new then insert (user_Id u) (members (abs_store D store) n)
        else if n = cur then members (abs_store D store) n - {user_Id u}
        else members (abs_store D store) n)) \<and>
    (\<forall>n. posts (abs_store D store') n = posts (abs_store D store) n)"
proof -
  have op: "op_ok (Op_Join u new cur) (abs_store D store)" using assms(3) by simp
  show ?thesis
    by (rule persistData_op [OF assms(1) op, of gid])
      (use assms(4) in \<open>auto simp: members_join members_leave [OF assms(2)]\<close>)
qed

theorem join_moves_member_witness:
  "\<exists>store'. persistData mem_deps 9 (entry_of (Op_Join w_user ''go'' ''None'')) w_store =
      Inr (store', [''None'', ''go'']) \<and> members (abs_store mem_deps store') ''go'' = {7}"
proof -
  have "named_members w_chat" by (simp add: named_members_def w_chat_def)
  then obtain store' where "persistData mem_deps 9 (entry_of (Op_Join w_user ''go'' ''None'')) w_store =
      Inr (store', [''None'', ''go''])"
    and m: "\<forall>n. members (abs_store mem_deps store') n =
       (if n = ''go'' then insert (user_Id w_user) (members w_chat n)
        else if n = ''None'' then members w_chat n - {user_Id w_user} else members w_chat n)"
    using join_moves_member [of mem_deps w_store "''go''" "''None''" 9 w_user] by auto
  moreover have "members (abs_store mem_deps store') ''go'' = {7}"
    using m by (simp add: members_def w_chat_def w_user_def)
  ultimately show ?thesis by blast
qed

text \<open>
  A post goes to the end of its group and to no other group; a post to a group that does
  not exist is dropped.
\<close>

lemma post_appended:
  assumes "disk_ok D store" and "message_ok m"
    and "length (posts (abs_store D store) (grp_Groupname g)) < max_posts"
  shows "\<exists>store'. persistData D gid (entry_of (Op_Post m g)) store = Inr (store', [grp_Groupname g]) \<and>
    (\<forall>n. posts (abs_store D store') n = posts (abs_store D store) n @
       (if n = grp_Groupname g \<and> ac_groups (abs_store D store) n \<noteq> None then [abs_post m] else []))"
proof -
  have op: "op_ok (Op_Post m g) (abs_store D store)" using assms(2,3) by simp
  have "posts (a_post (grp_Groupname g) p c) n = posts c n @
      (if n = grp_Groupname g \<and> ac_groups c n \<noteq> None then [p] else [])" for p c n
    by (auto simp: a_post_def posts_def upd_posts_def upd_group_def split: option.splits)
  with persistData_op [OF assms(1) op, of gid] show ?thesis by (metis op_apply.simps(3) op_groups.simps(3))
qed



section \<open>Users\<close>

text \<open>
  A saved user is found under its id until it is deleted, and neither operation touches
  another user.
\<close>

lemma user_save_get_delete:
  assumes "deps_ok D"
  shows "\<exists>s1 s2. SaveUser D (Some u) store = Inr (True, s1) \<and> GetUser D (user_Id u) s1 = Some u \<and>
    DeleteUser D (user_Id u) s1 = Inr s2 \<and> GetUser D (user_Id u) s2 = None \<and>
    (\<forall>i. i \<noteq> user_Id u \<longrightarrow> GetUser D i s1 = GetUser D i store \<and> GetUser D i s2 = GetUser D i store)"
proof -
  let ?k = "Itoa (unat (user_Id u))"
  obtain r1 where r1: "badger_Set D (diskstore store) ?k (Gob_User u) = (True, r1)"
    using badger_Set_ok [OF assms, of ?k] by auto
  obtain r2 where r2: "badger_Delete D r1 ?k = (True, r2)"
    using badger_Delete_ok [OF assms, of ?k] by auto
  have "SaveUser D (Some u) store = Inr (True, store\<lparr>diskstore := r1\<rparr>)"
    by (simp add: SaveUser_def copier_simps [OF assms] r1)
  moreover have "DeleteUser D (user_Id u) (store\<lparr>diskstore := r1\<rparr>) = Inr (store\<lparr>diskstore := r2\<rparr>)"
    by (simp add: DeleteUser_def r2)
  ultimately show ?thesis
    by (simp add: GetUser_def badger_SetE [OF assms r1] badger_DeleteE [OF assms r2])
qed

section \<open>Inputs on which the store misbehaves\<close>

text \<open>
  C40: A group named like a user id replaces the user. Users and groups share one key space:
  joining a group whose name is the decimal id of a saved user leaves, under that id, a user
  without id and name.
\<close>

theorem numeric_group_replaces_user:
  assumes "deps_ok D" and "badger_Get D (diskstore store) (Itoa (unat uid)) = Some (Gob_User v)"
  shows "\<exists>store'. JoinGroup D gid (Itoa (unat uid)) (Some u) store = Inr store' \<and>
    GetUser D uid store = Some v \<and> GetUser D uid store' = Some empty_User"
proof -
  let ?k = "Itoa (unat uid)"
  let ?g = "new_group gid ?k (Some u)"
  obtain r where r: "badger_Set D (diskstore store) ?k (Gob_Group ?g) = (True, r)"
    using badger_Set_ok [OF assms(1), of ?k] by auto
  have "JoinGroup D gid ?k (Some u) store = Inr (store\<lparr>diskstore := r\<rparr>)"
    by (simp add: JoinGroup_def GetGroup_def assms(2) UpdateGroup_def copier_simps [OF assms(1)]
        gob_encode_Group_def group_wf_encodable [OF group_wf_new] r)
  then show ?thesis by (simp add: GetUser_def assms(2) badger_SetE [OF assms(1) r])
qed

theorem numeric_group_replaces_user_witness:
  "\<exists>store'. JoinGroup mem_deps 9 (Itoa 7) (Some w_user)
     (w_store\<lparr>diskstore := [Itoa 7 \<mapsto> Gob_User w_user]\<rparr>) = Inr store' \<and>
     GetUser mem_deps 7 store' = Some empty_User"
  using numeric_group_replaces_user [of mem_deps "w_store\<lparr>diskstore := [Itoa 7 \<mapsto> Gob_User w_user]\<rparr>" 7 w_user 9 w_user]
  by auto

text \<open>
  A committed join of the group with the empty name kills the server, on a database that
  has no empty key and rejects writing one; the client, which only logs a message, lets the
  name through.
\<close>

lemma join_empty_name_kills:
  assumes "disk_ok D store" and "badger_Get D (diskstore store) [] = None" and "\<And>s v. \<not> fst (badger_Set D s [] v)"
    and "cur \<noteq> []"
  shows "persistData D gid (entry_of (Op_Join u [] cur)) store = Inl (Panic Check_Error)"
proof -
  obtain d' where d': "RemoveUserInGroup D (user_Id u) cur store = Inr (True, d')"
    and a: "abs_store D d' = a_leave cur (user_Id u) (abs_store D store)" and ok: "disk_ok D d'"
    using disk.leave [OF assms(1)] by blast
  have deps: "deps_ok D" using assms(1) by (rule disk_okD)
  have "ac_groups (abs_store D store) [] = None"
    by (simp add: abs_store_groups GetGroup_def assms(2))
  then have "ac_groups (abs_store D d') [] = None"
    using assms(4) by (simp add: a a_leave_def upd_group_def)
  then have g: "GetGroup D [] d' = (x, True) \<Longrightarrow> x = None" for x
    by (auto simp: abs_store_groups split: option.splits)
  have none: "case GetGroup D [] d' of (Some grp, True) \<Rightarrow> False | _ \<Rightarrow> True"
    using g by (auto split: option.splits prod.splits bool.splits)
  obtain r where set: "badger_Set D (diskstore d') [] (Gob_Group (new_group gid [] (Some u))) = (False, r)"
    using assms(3) by (metis (full_types) prod.collapse)
  have up: "UpdateGroup D [] (new_group gid [] (Some u)) d' = Inl (Panic Check_Error)"
    by (simp add: UpdateGroup_def copier_simps [OF deps] gob_encode_Group_def group_wf_encodable [OF group_wf_new] set)
  have "JoinGroup D gid [] (Some u) d' = Inl (Panic Check_Error)"
    using none up by (auto simp: JoinGroup_def split: option.splits prod.splits bool.splits)
  with d' show ?thesis by (simp add: persistData_def entry_of_def Command_getters)
qed

text \<open>
  C39: Replaying the log after a restart posts messages again. The log is applied from its
  start on a store that already holds the result, so a committed post of an existing group is
  there twice after a restart.
\<close>

theorem replay_posts_twice:
  assumes "disk_ok D store" and "message_ok m" and "ac_groups (abs_store D store) (grp_Groupname g) \<noteq> None"
    and "Suc (length (posts (abs_store D store) (grp_Groupname g))) < max_posts"
  shows "\<exists>s1 s2 o1 o2. apply_entries D [(i, entry_of (Op_Post m g))] store = Inr (s1, o1) \<and>
    apply_entries D [(j, entry_of (Op_Post m g))] s1 = Inr (s2, o2) \<and>
    posts (abs_store D s1) (grp_Groupname g) = posts (abs_store D store) (grp_Groupname g) @ [abs_post m] \<and>
    posts (abs_store D s2) (grp_Groupname g) =
      posts (abs_store D store) (grp_Groupname g) @ [abs_post m, abs_post m]"
proof -
  let ?n = "grp_Groupname g" and ?c = "abs_store D store"
  have ops: "ops_ok [Op_Post m g] ?c" using assms(2,4) by simp
  obtain s1 where s1: "apply_entries D [(i, entry_of (Op_Post m g))] store = Inr (s1, [?n])" "disk_ok D s1"
    "abs_store D s1 = a_post ?n (abs_post m) ?c"
    using apply_entries_refines [OF assms(1) ops, of "[(i, entry_of (Op_Post m g))]"] by (auto simp: entry_of_def)
  have p1: "posts (abs_store D s1) ?n = posts ?c ?n @ [abs_post m]"
    by (simp add: s1(3) a_post_def posts_upd_posts [OF assms(3)])
  have "ac_groups (abs_store D s1) ?n \<noteq> None"
    using assms(3) by (simp add: s1(3) a_post_def upd_posts_def upd_group_def)
  moreover have "ops_ok [Op_Post m g] (abs_store D s1)" using assms(2,4) p1 by simp
  then obtain s2 where s2: "apply_entries D [(j, entry_of (Op_Post m g))] s1 = Inr (s2, [?n])"
    "abs_store D s2 = a_post ?n (abs_post m) (abs_store D s1)"
    using apply_entries_refines [OF s1(2), of "[Op_Post m g]" "[(j, entry_of (Op_Post m g))]"] by (auto simp: entry_of_def)
  ultimately have "posts (abs_store D s2) ?n = posts (abs_store D s1) ?n @ [abs_post m]"
    by (simp add: a_post_def posts_upd_posts)
  with s1 s2 p1 show ?thesis by auto
qed

theorem replay_posts_twice_witness:
  "\<exists>s s1 s2 o1 o2. persistData mem_deps 9 (entry_of (Op_Join w_user ''go'' ''None'')) w_store = Inr (s, [''None'', ''go'']) \<and>
    apply_entries mem_deps [(0, entry_of (Op_Post w_message w_group))] s = Inr (s1, o1) \<and>
    apply_entries mem_deps [(0, entry_of (Op_Post w_message w_group))] s1 = Inr (s2, o2) \<and>
    posts (abs_store mem_deps s2) ''go'' = [abs_post w_message, abs_post w_message]"
proof -
  obtain s where s: "persistData mem_deps 9 (entry_of (Op_Join w_user ''go'' ''None'')) w_store = Inr (s, [''None'', ''go''])"
    "disk_ok mem_deps s" "abs_store mem_deps s = op_apply (Op_Join w_user ''go'' ''None'') w_chat"
    using persistData_op [of mem_deps w_store "Op_Join w_user ''go'' ''None''" 9] by auto
  have n: "grp_Groupname w_group = ''go''" and m: "message_ok w_message"
    by (simp_all add: w_group_def w_message_def message_ok_def)
  have c: "ac_groups (abs_store mem_deps s) ''go'' \<noteq> None" "posts (abs_store mem_deps s) ''go'' = []"
    by (simp_all add: s(3) posts_def w_chat_def a_join_def a_leave_def upd_group_def)
  from replay_posts_twice [OF s(2) m, of w_group 0 0] s(1) c show ?thesis
    by (auto simp: n max_posts_def)
qed

end
