(* ===== verification/ClientStore.thy ===== *)
theory ClientStore
  imports Proto
begin

text \<open>
  \<open>chat_client/client_store.go\<close>: the user and the group a client is in. The locale is the Go
  interface \<open>ClientStore\<close>, through which the client service uses the store.
\<close>

locale client_store =
  fixes set_user :: "User option \<Rightarrow> 'd \<Rightarrow> 'd"
    and set_group :: "Group option \<Rightarrow> 'd \<Rightarrow> 'd"
    and get_user :: "'d \<Rightarrow> User option"
    and get_group :: "'d \<Rightarrow> Group option"
  assumes get_set_user: "get_user (set_user u d) = u"
    and get_set_group: "get_group (set_group g d) = g"
    and get_user_set_group: "get_user (set_group g d) = get_user d"
    and get_group_set_user: "get_group (set_user u d) = get_group d"
begin

definition logged_in :: "'d \<Rightarrow> bool" where
  "logged_in d \<longleftrightarrow> User_GetName (get_user d) \<noteq> []"

text \<open>Joining a group does not log out; logging in or out does not leave the group.\<close>

lemma logged_in_set: "logged_in (set_group g d) = logged_in d"
  "logged_in (set_user u d) \<longleftrightarrow> User_GetName u \<noteq> []"
  by (simp_all add: logged_in_def get_user_set_group get_set_user)

lemma session_swap:
  "get_user (set_user u (set_group g d)) = get_user (set_group g (set_user u d))"
  "get_group (set_user u (set_group g d)) = get_group (set_group g (set_user u d))"
  by (simp_all add: get_set_user get_set_group get_user_set_group get_group_set_user)

end

record InMemoryClientStore =
  active_user :: "User option"
  client_group :: "Group option"

definition NewInMemoryClientStore :: InMemoryClientStore where
  "NewInMemoryClientStore =
     \<lparr>active_user = Some \<lparr>user_Id = 0, user_Name = []\<rparr>,
      client_group = Some \<lparr>grp_GroupID = 0, grp_Groupname = [],
        grp_Participants = Some fmempty, grp_Messages = Some fmempty\<rparr>\<rparr>"

definition SetUser :: "User option \<Rightarrow> InMemoryClientStore \<Rightarrow> InMemoryClientStore" where
  "SetUser user store = store\<lparr>active_user := user\<rparr>"

definition SetGroup :: "Group option \<Rightarrow> InMemoryClientStore \<Rightarrow> InMemoryClientStore" where
  "SetGroup g store = store\<lparr>client_group := g\<rparr>"

definition GetUser_active :: "InMemoryClientStore \<Rightarrow> User option" where
  "GetUser_active store = active_user store"

definition GetGroup_active :: "InMemoryClientStore \<Rightarrow> Group option" where
  "GetGroup_active store = client_group store"

interpretation session: client_store SetUser SetGroup GetUser_active GetGroup_active
  by unfold_locales (simp_all add: SetUser_def SetGroup_def GetUser_active_def GetGroup_active_def)

lemmas session_simps [simp] =
  session.get_set_user session.get_set_group session.get_user_set_group session.get_group_set_user

lemma NewInMemoryClientStore_simps [simp]:
  "GetUser_active NewInMemoryClientStore = Some \<lparr>user_Id = 0, user_Name = []\<rparr>"
  "GetGroup_active NewInMemoryClientStore = Some \<lparr>grp_GroupID = 0, grp_Groupname = [],
     grp_Participants = Some fmempty, grp_Messages = Some fmempty\<rparr>"
  by (simp_all add: NewInMemoryClientStore_def GetUser_active_def GetGroup_active_def)

end
