(* ===== verification/ClientService.thy ===== *)
theory ClientService
  imports ClientStore GoStrings
begin

text \<open>
  \<open>chat_client/client_service.go\<close>: the chat client. What the RPCs return is an argument
  (\<open>None\<close> for an error, in which case the generated stub returns a \<open>nil\<close> reply), as is the
  id that \<open>uuid.New().ID()\<close> draws; what is printed is returned as a list of lines.
\<close>

record ChatServiceClient =
  cl_clientstore :: InMemoryClientStore
  cl_serverId :: int

definition NewChatServiceClient :: "InMemoryClientStore \<Rightarrow> int \<Rightarrow> ChatServiceClient" where
  "NewChatServiceClient store serverId = \<lparr>cl_clientstore = store, cl_serverId = serverId\<rparr>"

abbreviation cl_user :: "ChatServiceClient \<Rightarrow> User option" where
  "cl_user client \<equiv> GetUser_active (cl_clientstore client)"

abbreviation cl_group :: "ChatServiceClient \<Rightarrow> Group option" where
  "cl_group client \<equiv> GetGroup_active (cl_clientstore client)"

section \<open>Login, logout, server view\<close>

text \<open>The client afterwards, the request, and whether the error is \<open>nil\<close>.\<close>

definition UserLogin ::
  "uint32 \<Rightarrow> LoginResponse option \<Rightarrow> string \<Rightarrow> ChatServiceClient \<Rightarrow>
   ChatServiceClient \<times> LoginRequest \<times> bool" where
  "UserLogin fresh_id reply user_name client =
     (let user = \<lparr>user_Id = fresh_id, user_Name = user_name\<rparr>;
          req = \<lparr>loginreq_User = Some user\<rparr>
      in case reply of
           None \<Rightarrow> (client, req, False)
         | Some _ \<Rightarrow>
             (client\<lparr>cl_clientstore := SetUser (Some user) (cl_clientstore client)\<rparr>, req, True))"

definition UserLogout ::
  "LogoutResponse option \<Rightarrow> ChatServiceClient \<Rightarrow>
   (ChatServiceClient \<times> LogoutRequest option \<times> bool) res" where
  "UserLogout reply client =
     (let user = cl_user client
      in rbind (deref (cl_group client)) (\<lambda>g.
         rbind (deref user) (\<lambda>u.
           if user_Id u = 0 then Inr (client, None, True)
           else
             let req = \<lparr>logoutreq_Logout = Some \<lparr>logout_User = user, logout_Currgroup = grp_Groupname g\<rparr>\<rparr>;
                 client1 = client\<lparr>cl_clientstore :=
                   SetUser (Some \<lparr>user_Id = 0, user_Name = []\<rparr>) (cl_clientstore client)\<rparr>
             in rbind (deref reply) (\<lambda>resp. Inr (client1, Some req, logoutresp_Status resp)))))"

text \<open>
  \<open>ConnectionHealthCheck\<close>: on an interrupt its first goroutine logs the user out and ends the
  process, the second one ends it in a turn that finds the connection not ready.
\<close>

definition ConnectionHealthCheck_interrupt ::
  "LogoutResponse option \<Rightarrow> ChatServiceClient \<Rightarrow> LogoutRequest option res" where
  "ConnectionHealthCheck_interrupt reply client =
     rbind (UserLogout reply client) (\<lambda>(client1, req, ok). Inr req)"

definition ConnectionHealthCheck_turn :: "string \<Rightarrow> bool" where
  "ConnectionHealthCheck_turn conn_state \<longleftrightarrow> conn_state \<noteq> ''READY''"

definition client_ServerView :: "ServerViewResponse option \<Rightarrow> ChatServiceClient \<Rightarrow> (int \<times> int list) res" where
  "client_ServerView reply client =
     rbind (deref reply) (\<lambda>resp. Inr (cl_serverId client, sv_Peerservers resp))"

section \<open>Commands typed in a group\<close>

definition no_request :: GroupChatRequest where
  "no_request = \<lparr>req_Action = None\<rparr>"

definition request :: "GroupChatAction \<Rightarrow> GroupChatRequest" where
  "request a = \<lparr>req_Action = Some a\<rparr>"

definition ProcessMessage ::
  "LogoutResponse option \<Rightarrow> ServerViewResponse option \<Rightarrow> string \<Rightarrow> ChatServiceClient \<Rightarrow>
   (ChatServiceClient \<times> GroupChatRequest \<times> string) res" where
  "ProcessMessage logout_reply view_reply msg0 client =
     (let msg1 = strings_Trim msg0 [CHR 0x0D, CHR 0x0A];
          args = strings_Split msg1 CHR '' '';
          cmd = strings_TrimSpace (hd args);
          msg = strings_Join (tl args) CHR '' '';
          user = cl_user client;
          messagenumber = of_nat (fst (ParseUint32 msg)) :: uint32
      in if cmd = ''a'' then
           (if User_GetName user = [] then Inr (client, no_request, cmd)
            else rbind (deref (cl_group client)) (\<lambda>g.
              if grp_Groupname g = [] then Inr (client, no_request, cmd)
              else Inr (client, request (GroupChatRequest_Append (Some
                 \<lparr>app_Chatmessage = Some \<lparr>msg_MessagedBy = user, msg_Message = msg, msg_LikedBy = fmempty\<rparr>,
                  app_Group = Some g\<rparr>)), cmd)))
         else if cmd = ''l'' then
           (if User_GetName user = [] then Inr (client, no_request, cmd)
            else rbind (deref (cl_group client)) (\<lambda>g.
              if grp_Groupname g = [] then Inr (client, no_request, cmd)
              else Inr (client, request (GroupChatRequest_Like (Some
                 \<lparr>like_Likeduser = user, like_Messageid = messagenumber, like_Group = Some g\<rparr>)), cmd)))
         else if cmd = ''r'' then
           Inr (client, request (GroupChatRequest_Unlike (Some
             \<lparr>unlike_Unlikeduser = user, unlike_Messageid = messagenumber,
              unlike_Group = cl_group client\<rparr>)), cmd)
         else if cmd = ''p'' then
           rbind (deref (cl_group client)) (\<lambda>g.
             Inr (client, request (GroupChatRequest_Print (Some
               \<lparr>print_User = user, print_Groupname = grp_Groupname g\<rparr>)), cmd))
         else if cmd = ''j'' then
           rbind (deref (cl_group client)) (\<lambda>g.
             Inr (client, request (GroupChatRequest_Joinchat (Some
               \<lparr>join_Joineduser = user, join_Newgroup = msg,
                join_Currgroup = (if grp_GroupID g \<noteq> 0 then grp_Groupname g else ''None'')\<rparr>)), cmd))
         else if cmd = ''q'' then
           rbind (UserLogout logout_reply client) (\<lambda>(client1, _). Inr (client1, no_request, cmd))
         else if cmd = ''v'' then
           rbind (client_ServerView view_reply client) (\<lambda>_. Inr (client, no_request, cmd))
         else Inr (client, no_request, cmd))"

section \<open>Printing a group\<close>

text \<open>A printed line: the index, the author, the text and the number of likes.\<close>

type_synonym line = "uint32 \<times> string \<times> string \<times> nat"

definition print_message ::
  "(uint32, ChatMessage option) fmap \<Rightarrow> uint32 \<Rightarrow> line list res" where
  "print_message chatmessages i =
     (case fmlookup chatmessages i of
        None \<Rightarrow> Inr []
      | Some p \<Rightarrow>
          rbind (deref p) (\<lambda>chatmessage.
          rbind (deref (msg_MessagedBy chatmessage)) (\<lambda>author.
            Inr [(i, user_Name author, msg_Message chatmessage, fmsize (msg_LikedBy chatmessage))])))"

fun print_each :: "(uint32, ChatMessage option) fmap \<Rightarrow> int list \<Rightarrow> line list res" where
  "print_each chatmessages [] = Inr []"
| "print_each chatmessages (i # is) =
     rbind (print_message chatmessages (of_int i)) (\<lambda>ls.
     rbind (print_each chatmessages is) (\<lambda>rest. Inr (ls @ rest)))"

text \<open>
  The loop of \<open>PrintRecent\<close> counts \<open>print_recent\<close> down from 10; the index
  \<open>uint32(chatlength - print_recent)\<close> wraps when there are fewer messages.
\<close>

definition PrintRecent :: "Group option \<Rightarrow> (string \<times> (uint32, string) fmap \<times> line list) res" where
  "PrintRecent g =
     (let chatmessages = nil_empty (Group_GetMessages g); chatlength = int (fmsize chatmessages)
      in rbind (print_each chatmessages (map (\<lambda>k. chatlength - int k) (rev [1..<11]))) (\<lambda>ls.
           Inr (Group_GetGroupname g, nil_empty (Group_GetParticipants g), ls)))"

definition PrintAll :: "Group option \<Rightarrow> (string \<times> (uint32, string) fmap \<times> line list) res" where
  "PrintAll g =
     (let chatmessages = nil_empty (Group_GetMessages g); chatlength = fmsize chatmessages
      in rbind (print_each chatmessages (map int [0..<chatlength])) (\<lambda>ls.
           Inr (Group_GetGroupname g, nil_empty (Group_GetParticipants g), ls)))"

section \<open>The stream of a group\<close>

datatype client_ctx = CCtx_Nil | CCtx_Canceled | CCtx_DeadlineExceeded

fun client_contextError :: "client_ctx \<Rightarrow> string option" where
  "client_contextError CCtx_Canceled = Some ''request is canceled''"
| "client_contextError CCtx_DeadlineExceeded = Some ''deadline is exceeded''"
| "client_contextError CCtx_Nil = None"

datatype client_recv = CRecv_EOF | CRecv_Err | CRecv_Resp GroupChatResponse

text \<open>One turn of the receiving goroutine: \<open>None\<close> when it returns, else what it prints.\<close>

definition client_receive ::
  "client_ctx \<Rightarrow> client_recv \<Rightarrow> ChatServiceClient \<Rightarrow>
   (ChatServiceClient \<times> (string \<times> (uint32, string) fmap \<times> line list)) option res" where
  "client_receive ctx r client =
     (if client_contextError ctx \<noteq> None then Inr None
      else case r of
        CRecv_EOF \<Rightarrow> Inr None
      | CRecv_Err \<Rightarrow> Inr None
      | CRecv_Resp resp \<Rightarrow>
          (let client1 = (if resp_Event resp = ''j''
                 then client\<lparr>cl_clientstore := SetGroup (resp_Group resp) (cl_clientstore client)\<rparr>
                 else client)
           in rbind (if resp_Event resp = ''p'' then PrintAll (resp_Group resp)
                     else PrintRecent (resp_Group resp)) (\<lambda>out. Inr (Some (client1, out)))))"

text \<open>
  One turn of the sending goroutine on a line of input (\<open>None\<close> for a read error): what it
  sends, if it goes on.
\<close>

datatype send_turn = Send_Stop | Send_Done | Send_Request GroupChatRequest

definition client_send ::
  "LogoutResponse option \<Rightarrow> ServerViewResponse option \<Rightarrow> string option \<Rightarrow> ChatServiceClient \<Rightarrow>
   (ChatServiceClient \<times> send_turn) res" where
  "client_send logout_reply view_reply input client =
     (case input of
        None \<Rightarrow> Inr (client, Send_Stop)
      | Some msg \<Rightarrow>
          rbind (ProcessMessage logout_reply view_reply msg client) (\<lambda>(client1, req, command).
            if command = ''q'' then Inr (client1, Send_Done)
            else Inr (client1, Send_Request req)))"

text \<open>
  The start of \<open>JoinGroupChat\<close>: the stream is opened, and the request of the command that led
  here is sent on it. The result is what was sent, or nothing if the send fails.
\<close>

definition JoinGroupChat_open ::
  "bool \<Rightarrow> bool \<Rightarrow> LogoutResponse option \<Rightarrow> ServerViewResponse option \<Rightarrow> string \<Rightarrow> ChatServiceClient \<Rightarrow>
   (ChatServiceClient \<times> GroupChatRequest option) res" where
  "JoinGroupChat_open opened sent logout_reply view_reply mesg client =
     (if \<not> opened then Inl Log_Fatal
      else rbind (ProcessMessage logout_reply view_reply mesg client) (\<lambda>(client1, req, command).
             Inr (client1, if sent then Some req else None)))"

end
