(* ===== verification/ServerStore.thy ===== *)
theory ServerStore
  imports Proto
begin

text \<open>
  \<open>server/server_store.go\<close>: the active users and the connections of one chat server. A
  connection is keyed by its stream, an interface value that the model keeps abstract. Go
  ranges over a map in an unspecified order: \<open>RemoveConn\<close> takes the order as an argument.
\<close>

section \<open>Active users\<close>

record ActiveUsersStore =
  au_activeusers :: "User option list"
  au_activeusergroup :: "(uint32, string) fmap"

definition NewInMemoryActiveUsersStore :: ActiveUsersStore where
  "NewInMemoryActiveUsersStore = \<lparr>au_activeusers = [], au_activeusergroup = fmempty\<rparr>"

definition AddUser :: "User option \<Rightarrow> string \<Rightarrow> ActiveUsersStore \<Rightarrow> ActiveUsersStore res" where
  "AddUser user groupname store =
     rbind (deref user) (\<lambda>u.
       Inr (store\<lparr>au_activeusers := au_activeusers store @ [user],
                  au_activeusergroup := fmupd (user_Id u) groupname (au_activeusergroup store)\<rparr>))"

section \<open>Connections\<close>

type_synonym client = "string \<times> string"

record 'st ConnStore =
  conn_clients :: "('st, client) fmap option"

definition NewInMemoryConnStore :: "'st ConnStore" where
  "NewInMemoryConnStore = \<lparr>conn_clients = Some fmempty\<rparr>"

definition AddConn :: "'st \<Rightarrow> client \<Rightarrow> 'st ConnStore \<Rightarrow> 'st ConnStore" where
  "AddConn stream client conn =
     (let clients = nil_empty (conn_clients conn)
      in if fmlookup clients stream = Some client then conn\<lparr>conn_clients := Some clients\<rparr>
         else conn\<lparr>conn_clients := Some (fmupd stream client clients)\<rparr>)"

definition RemoveConn :: "'st list \<Rightarrow> client \<Rightarrow> 'st ConnStore \<Rightarrow> 'st ConnStore" where
  "RemoveConn order removeclient conn =
     (case conn_clients conn of
        None \<Rightarrow> conn
      | Some clients \<Rightarrow>
          (case filter (\<lambda>stream. fmlookup clients stream = Some removeclient) order of
             [] \<Rightarrow> conn
           | stream # _ \<Rightarrow> conn\<lparr>conn_clients := Some (fmdrop stream clients)\<rparr>))"

definition client_of :: "'st ConnStore \<Rightarrow> 'st \<Rightarrow> client option" where
  "client_of conn stream = fmlookup (nil_empty (conn_clients conn)) stream"

definition map_order :: "'st list \<Rightarrow> 'st ConnStore \<Rightarrow> bool" where
  "map_order order conn \<longleftrightarrow>
     distinct order \<and> set order = {stream. client_of conn stream \<noteq> None}"

section \<open>The interface of the connection store\<close>

text \<open>
  What the chat service expects: adding a stream binds it, removing a client unbinds one of
  its streams, if there is one, and nothing else changes.
\<close>

locale conn_table =
  fixes lookup :: "'d \<Rightarrow> 'st \<Rightarrow> 'c option"
    and valid :: "'o \<Rightarrow> 'd \<Rightarrow> bool"
    and add :: "'st \<Rightarrow> 'c \<Rightarrow> 'd \<Rightarrow> 'd"
    and remove :: "'o \<Rightarrow> 'c \<Rightarrow> 'd \<Rightarrow> 'd"
  assumes lookup_add: "lookup (add s c d) = (lookup d)(s \<mapsto> c)"
    and lookup_remove: "valid r d \<Longrightarrow>
      (\<forall>s. lookup d s \<noteq> Some c) \<and> lookup (remove r c d) = lookup d \<or>
      (\<exists>s. lookup d s = Some c \<and> lookup (remove r c d) = (lookup d)(s := None))"
begin

definition single :: "'d \<Rightarrow> bool" where
  "single d \<longleftrightarrow> (\<forall>s s' c. lookup d s = Some c \<longrightarrow> lookup d s' = Some c \<longrightarrow> s = s')"

text \<open>With one stream per client, a removed client is gone.\<close>

lemma removed_gone:
  assumes "valid r d" and "single d"
  shows "lookup (remove r c d) s = (if lookup d s = Some c then None else lookup d s)"
  using lookup_remove [OF assms(1), of c] assms(2) by (auto simp: single_def)

lemma single_remove:
  assumes "valid r d" and "single d"
  shows "single (remove r c d)"
  using assms(2) unfolding single_def removed_gone [OF assms] by (auto split: if_splits)

text \<open>A client that moves to another group keeps one stream, bound to the new group.\<close>

lemma moved:
  assumes "valid r d" and "single d" and "\<And>s'. lookup d s' = Some new \<Longrightarrow> s' = s"
  shows "lookup (add s new (remove r cur d)) s = Some new" and "single (add s new (remove r cur d))"
proof -
  show "lookup (add s new (remove r cur d)) s = Some new" by (simp add: lookup_add)
  have "lookup (remove r cur d) s' = Some new \<Longrightarrow> s' = s" for s'
    using removed_gone [OF assms(1,2), of cur s'] assms(3) [of s'] by (auto split: if_splits)
  with single_remove [OF assms(1,2), of cur] show "single (add s new (remove r cur d))"
    by (auto simp: single_def lookup_add split: if_splits)
qed

end

lemma client_of_AddConn: "client_of (AddConn stream client conn) = (client_of conn)(stream \<mapsto> client)"
  by (auto simp: AddConn_def client_of_def Let_def fun_eq_iff)

lemma client_of_RemoveConn:
  assumes "map_order order conn"
  shows "(\<forall>s. client_of conn s \<noteq> Some c) \<and> client_of (RemoveConn order c conn) = client_of conn \<or>
    (\<exists>s. client_of conn s = Some c \<and> client_of (RemoveConn order c conn) = (client_of conn)(s := None))"
proof (cases "conn_clients conn")
  case None
  then show ?thesis by (simp add: RemoveConn_def client_of_def)
next
  case (Some clients)
  then have look: "client_of conn s = fmlookup clients s" for s by (simp add: client_of_def)
  show ?thesis
  proof (cases "filter (\<lambda>s. fmlookup clients s = Some c) order")
    case Nil
    then have "\<forall>s. client_of conn s \<noteq> Some c"
      using assms by (force simp: look map_order_def filter_empty_conv)
    with Nil Some show ?thesis by (simp add: RemoveConn_def)
  next
    case (Cons s rest)
    then have "s \<in> set (filter (\<lambda>s. fmlookup clients s = Some c) order)" by simp
    then have "client_of conn s = Some c" by (simp add: look)
    moreover have "client_of (RemoveConn order c conn) = (client_of conn)(s := None)"
      using Some Cons by (auto simp: RemoveConn_def client_of_def fun_eq_iff)
    ultimately show ?thesis by blast
  qed
qed

interpretation conns: conn_table client_of map_order AddConn RemoveConn
  by unfold_locales (simp_all add: client_of_AddConn client_of_RemoveConn)

end
