(* ===== verification/ChatService.thy ===== *)
theory ChatService
  imports ServerStore RaftServerSpec
begin

text \<open>
  \<open>server/chat_service.go\<close>: the chat and auth services of one server. A stream is a value of an
  abstract type; what \<open>stream.Context().Err()\<close> and \<open>stream.Recv()\<close> return are arguments,
  and what is sent on streams is returned. \<open>JoinGroupChat\<close> sleeps between processing a request
  and answering it, so its loop body is two operations.
\<close>

datatype ctx_err = Ctx_Nil | Ctx_Canceled | Ctx_DeadlineExceeded

datatype grpc_code = Code_Canceled | Code_DeadlineExceeded

fun contextError :: "ctx_err \<Rightarrow> grpc_code option" where
  "contextError Ctx_Canceled = Some Code_Canceled"
| "contextError Ctx_DeadlineExceeded = Some Code_DeadlineExceeded"
| "contextError Ctx_Nil = None"

datatype recv = Recv_EOF | Recv_Err | Recv_Req GroupChatRequest

record ('s, 'c, 'st) ChatServiceServer =
  cs_connstore :: "'st ConnStore"
  cs_activeusersstore :: ActiveUsersStore
  cs_raft :: "('s, 'c) Server"

definition NewChatServiceServer ::
  "'st ConnStore \<Rightarrow> ActiveUsersStore \<Rightarrow> ('s, 'c) Server \<Rightarrow> ('s, 'c, 'st) ChatServiceServer" where
  "NewChatServiceServer clients activeusers raft =
     \<lparr>cs_connstore = clients, cs_activeusersstore = activeusers, cs_raft = raft\<rparr>"

text \<open>\<open>s.raft.cm.Submit(command)\<close>\<close>

definition raft_Submit ::
  "'s deps \<Rightarrow> Command \<Rightarrow> ('s, 'c, 'st) ChatServiceServer \<Rightarrow>
   (('s, 'c, 'st) ChatServiceServer \<times> bool) res" where
  "raft_Submit D command s =
     rbind (with_cm (Submit D (Some command)) (cs_raft s)) (\<lambda>(raft, ok). Inr (s\<lparr>cs_raft := raft\<rparr>, ok))"

abbreviation storage_of :: "('s, 'c, 'st) ChatServiceServer \<Rightarrow> 's DiskStore" where
  "storage_of s \<equiv> cm_storage (srv_cm (cs_raft s))"

section \<open>Login and logout\<close>

definition logout_command :: "User option \<Rightarrow> string \<Rightarrow> Command" where
  "logout_command user groupname =
     \<lparr>cmd_Action = Some (Command_Logout (Some \<lparr>logout_User = user, logout_Currgroup = groupname\<rparr>)),
      cmd_Event = ''q''\<rparr>"

fun logout_each ::
  "'s deps \<Rightarrow> (uint32, string) fmap \<Rightarrow> User option list \<Rightarrow> ('s, 'c, 'st) ChatServiceServer \<Rightarrow>
   ('s, 'c, 'st) ChatServiceServer res" where
  "logout_each D groups [] s = Inr s"
| "logout_each D groups (user # users) s =
     rbind (deref user) (\<lambda>u.
     rbind (raft_Submit D (logout_command user (fm_index [] groups (user_Id u))) s) (\<lambda>(s1, ok).
       logout_each D groups users s1))"

definition RemoveActiveUsers ::
  "'s deps \<Rightarrow> ('s, 'c, 'st) ChatServiceServer \<Rightarrow> (('s, 'c, 'st) ChatServiceServer \<times> bool) res" where
  "RemoveActiveUsers D s =
     (let activeusers = au_activeusers (cs_activeusersstore s);
          activeusersgroups = au_activeusergroup (cs_activeusersstore s)
      in if length activeusers = 0 then Inr (s, True)
         else rbind (logout_each D activeusersgroups activeusers s) (\<lambda>s1. Inr (s1, True)))"

text \<open>What \<open>CheckServerHealth\<close> does on an interrupt, and whether the process then exits.\<close>

definition CheckServerHealth ::
  "'s deps \<Rightarrow> ('s, 'c, 'st) ChatServiceServer \<Rightarrow> (('s, 'c, 'st) ChatServiceServer \<times> bool) res" where
  "CheckServerHealth D s = RemoveActiveUsers D s"

definition Login ::
  "'s deps \<Rightarrow> LoginRequest \<Rightarrow> ('s, 'c, 'st) ChatServiceServer \<Rightarrow>
   (('s, 'c, 'st) ChatServiceServer \<times> LoginResponse) res" where
  "Login D req s =
     (let user = loginreq_User req;
          command = \<lparr>cmd_Action = Some (Command_Login user), cmd_Event = ''u''\<rparr>
      in rbind (AddUser user [] (cs_activeusersstore s)) (\<lambda>active.
         rbind (raft_Submit D command (s\<lparr>cs_activeusersstore := active\<rparr>)) (\<lambda>(s1, ok).
           if ok then rbind (deref user) (\<lambda>_. Inr (s1, \<lparr>loginresp_User = user\<rparr>))
           else Inr (s1, \<lparr>loginresp_User = None\<rparr>))))"

definition Logout_rpc ::
  "'s deps \<Rightarrow> LogoutRequest \<Rightarrow> ('s, 'c, 'st) ChatServiceServer \<Rightarrow>
   (('s, 'c, 'st) ChatServiceServer \<times> LogoutResponse) res" where
  "Logout_rpc D req s =
     rbind (deref (logoutreq_Logout req)) (\<lambda>logout.
       let user = logout_User logout; groupname = logout_Currgroup logout
       in rbind (raft_Submit D (logout_command user groupname) s) (\<lambda>(s1, ok).
            if ok then rbind (deref user) (\<lambda>_. Inr (s1, \<lparr>logoutresp_Status = True\<rparr>))
            else Inr (s1, \<lparr>logoutresp_Status = False\<rparr>)))"

definition ServerView ::
  "'c grpc \<Rightarrow> ServerViewRequest \<Rightarrow> ('s, 'c, 'st) ChatServiceServer \<Rightarrow> ServerViewResponse res" where
  "ServerView G req s =
     rbind (GetActivePeers G (cs_raft s)) (\<lambda>activepeers. Inr \<lparr>sv_Peerservers = activepeers\<rparr>)"

section \<open>Requests on the stream\<close>

text \<open>The result is the group name and the event; \<open>order\<close> is that of the range in \<open>RemoveConn\<close>.\<close>

definition ProcessRequest ::
  "'s deps \<Rightarrow> 'st list \<Rightarrow> GroupChatRequest \<Rightarrow> ('s, 'c, 'st) ChatServiceServer \<Rightarrow>
   (('s, 'c, 'st) ChatServiceServer \<times> string \<times> string) res" where
  "ProcessRequest D order req s =
     (case req_Action req of
        Some (GroupChatRequest_Append a) \<Rightarrow>
          rbind (raft_Submit D \<lparr>cmd_Action = Some (Command_Append a), cmd_Event = ''a''\<rparr> s) (\<lambda>(s1, ok).
            if ok then rbind (deref a) (\<lambda>x. rbind (deref (app_Group x)) (\<lambda>g. Inr (s1, grp_Groupname g, ''a'')))
            else Inr (s1, [], []))
      | Some (GroupChatRequest_Like a) \<Rightarrow>
          rbind (raft_Submit D \<lparr>cmd_Action = Some (Command_Like a), cmd_Event = ''l''\<rparr> s) (\<lambda>(s1, ok).
            if ok then rbind (deref a) (\<lambda>x. rbind (deref (like_Group x)) (\<lambda>g. Inr (s1, grp_Groupname g, ''l'')))
            else Inr (s1, [], []))
      | Some (GroupChatRequest_Unlike a) \<Rightarrow>
          rbind (raft_Submit D \<lparr>cmd_Action = Some (Command_Unlike a), cmd_Event = ''r''\<rparr> s) (\<lambda>(s1, ok).
            if ok then rbind (deref a) (\<lambda>x. rbind (deref (unlike_Group x)) (\<lambda>g. Inr (s1, grp_Groupname g, ''r'')))
            else Inr (s1, [], []))
      | Some (GroupChatRequest_Joinchat a) \<Rightarrow>
          rbind (deref a) (\<lambda>joinchat.
          rbind (deref (join_Joineduser joinchat)) (\<lambda>user.
            let currclient = (join_Currgroup joinchat, user_Name user);
                s1 = s\<lparr>cs_connstore := RemoveConn order currclient (cs_connstore s)\<rparr>
            in rbind (raft_Submit D \<lparr>cmd_Action = Some (Command_Joinchat a), cmd_Event = ''j''\<rparr> s1) (\<lambda>(s2, ok).
                 if ok then Inr (s2, join_Newgroup joinchat, ''j'') else Inr (s2, [], []))))
      | Some (GroupChatRequest_Print a) \<Rightarrow>
          rbind (deref a) (\<lambda>p. Inr (s, print_Groupname p, ''p''))
      | _ \<Rightarrow> Inr (s, [], []))"

text \<open>
  The first half of the loop body of \<open>JoinGroupChat\<close>: the stream ends, or a request has been
  processed.
\<close>

datatype stream_end = End_Context grpc_code | End_EOF | End_Recv

definition JoinGroupChat_receive ::
  "'s deps \<Rightarrow> 'st list \<Rightarrow> ctx_err \<Rightarrow> recv \<Rightarrow> ('s, 'c, 'st) ChatServiceServer \<Rightarrow>
   (stream_end + ('s, 'c, 'st) ChatServiceServer \<times> GroupChatRequest \<times> string \<times> string) res" where
  "JoinGroupChat_receive D order ctx r s =
     (case contextError ctx of
        Some code \<Rightarrow> Inr (Inl (End_Context code))
      | None \<Rightarrow>
          (case r of
             Recv_EOF \<Rightarrow> Inr (Inl End_EOF)
           | Recv_Err \<Rightarrow> Inr (Inl End_Recv)
           | Recv_Req req \<Rightarrow>
               rbind (ProcessRequest D order req s) (\<lambda>(s1, groupname, ev).
                 Inr (Inr (s1, req, groupname, ev)))))"

text \<open>The second half: the state and what is sent on the stream.\<close>

definition JoinGroupChat_respond ::
  "'s deps \<Rightarrow> 'st \<Rightarrow> GroupChatRequest \<Rightarrow> string \<Rightarrow> string \<Rightarrow> ('s, 'c, 'st) ChatServiceServer \<Rightarrow>
   (('s, 'c, 'st) ChatServiceServer \<times> GroupChatResponse list) res" where
  "JoinGroupChat_respond D stream req groupname ev s =
     (if ev = ''j'' then
        rbind (deref (GetJoinchat req)) (\<lambda>joinchat.
        rbind (deref (join_Joineduser joinchat)) (\<lambda>user.
        rbind (AddUser (Some user) groupname (cs_activeusersstore s)) (\<lambda>active.
          Inr (s\<lparr>cs_connstore := AddConn stream (groupname, user_Name user) (cs_connstore s),
                 cs_activeusersstore := active\<rparr>,
               [\<lparr>resp_Group = fst (GetGroup D groupname (storage_of s)), resp_Event = ev\<rparr>]))))
      else if ev = ''p'' then
        Inr (s, [\<lparr>resp_Group = fst (GetGroup D groupname (storage_of s)), resp_Event = ev\<rparr>])
      else Inr (s, []))"

section \<open>Broadcast\<close>

text \<open>
  One group name received from the broadcast channel. \<open>order\<close> is that of the range over the
  connections.
\<close>

fun broadcast_each ::
  "('st \<Rightarrow> ctx_err) \<Rightarrow> GroupChatResponse \<Rightarrow> string \<Rightarrow> 'st list \<Rightarrow> ('st, client) fmap \<Rightarrow>
   ('st, client) fmap \<times> ('st \<times> GroupChatResponse) list" where
  "broadcast_each ctx resp groupname [] clients = (clients, [])"
| "broadcast_each ctx resp groupname (stream # rest) clients =
     (case fmlookup clients stream of
        None \<Rightarrow> broadcast_each ctx resp groupname rest clients
      | Some client \<Rightarrow>
          if fst client = groupname then
            (if ctx stream = Ctx_Canceled \<or> ctx stream = Ctx_DeadlineExceeded
             then broadcast_each ctx resp groupname rest (fmdrop stream clients)
             else (case broadcast_each ctx resp groupname rest clients of
                     (clients1, sent) \<Rightarrow> (clients1, (stream, resp) # sent)))
          else broadcast_each ctx resp groupname rest clients)"

definition BroadCast ::
  "'s deps \<Rightarrow> ('st \<Rightarrow> ctx_err) \<Rightarrow> 'st list \<Rightarrow> string \<Rightarrow> ('s, 'c, 'st) ChatServiceServer \<Rightarrow>
   ('s, 'c, 'st) ChatServiceServer \<times> ('st \<times> GroupChatResponse) list" where
  "BroadCast D ctx order groupname s =
     (case conn_clients (cs_connstore s) of
        None \<Rightarrow> (s, [])
      | Some clients \<Rightarrow>
          (let resp = \<lparr>resp_Group = fst (GetGroup D groupname (storage_of s)), resp_Event = ''b''\<rparr>
           in case broadcast_each ctx resp groupname order clients of
                (clients1, sent) \<Rightarrow>
                  (s\<lparr>cs_connstore := (cs_connstore s)\<lparr>conn_clients := Some clients1\<rparr>\<rparr>, sent)))"

end
