(* ===== verification/MainPrograms.thy ===== *)
theory MainPrograms
  imports ClientService ChatService
begin

text \<open>
  The two programs: \<open>main/server/chat_server.go\<close>, which puts the parts of a server together,
  and \<open>main/client/client_main.go\<close>, the command loop of the client. Reading a line, dialling
  and the RPCs are arguments; one turn of a loop is one operation.
\<close>

section \<open>The server program\<close>

definition server_IP :: "int \<Rightarrow> string" where
  "server_IP serverId = ''172.30.100.10'' @ Itoa_int serverId @ '':12000''"

text \<open>\<open>net.Listen\<close> is the argument \<open>listen\<close>: whether its error is \<open>nil\<close>.\<close>

definition server_main ::
  "'s deps \<Rightarrow> (string \<Rightarrow> 's option) \<Rightarrow> 'c grpc \<Rightarrow> (string \<Rightarrow> bool) \<Rightarrow> int \<Rightarrow>
   ('s, 'c, 'st) ChatServiceServer res" where
  "server_main D open_db G listen serverId =
     (if \<not> listen (server_IP serverId) then Inl Log_Fatal
      else rbind (NewServer D open_db G serverId (server_IP serverId)) (\<lambda>raftserver.
           let chatserver = NewChatServiceServer NewInMemoryConnStore NewInMemoryActiveUsersStore raftserver
           in rbind (Serve (cs_raft chatserver)) (\<lambda>raft. Inr (chatserver\<lparr>cs_raft := raft\<rparr>))))"

section \<open>The client program\<close>

datatype main_turn = Main_Again | Main_Quit | Main_Connect string string

text \<open>One turn of the loop of \<open>main\<close> on a line of input (\<open>None\<close> for a read error).\<close>

definition client_main_turn :: "string option \<Rightarrow> main_turn" where
  "client_main_turn input =
     (case input of
        None \<Rightarrow> Main_Again
      | Some line \<Rightarrow>
          let msg = strings_Trim line [CHR 0x0D, CHR 0x0A];
              argument = strings_Split msg CHR '' '';
              command = hd argument;
              address = (if length argument > 1 then argument ! 1 else [])
          in if command = ''c'' then
               (let address = strings_TrimSpace address
                in if \<not> strings_Contains address CHR '':'' then Main_Again
                   else let server_address = strings_Split address CHR '':''
                        in Main_Connect (server_address ! 0) (server_address ! 1))
             else if command = ''q'' then Main_Quit
             else Main_Again)"

text \<open>
  \<open>ConnectClient\<close> up to its loop; \<open>dial\<close> says whether \<open>grpc.Dial\<close> succeeds. The server id is
  the code of the last byte of the address.
\<close>

definition ConnectClient_start :: "(string \<Rightarrow> bool) \<Rightarrow> string \<Rightarrow> string \<Rightarrow> (ChatServiceClient \<times> string) res" where
  "ConnectClient_start dial ip port =
     (if \<not> dial (ip @ '':'' @ port) then Inl Log_Fatal
      else if ip = [] then Inl (Panic Index_Out_Of_Range)
      else Inr (NewChatServiceClient NewInMemoryClientStore (of_char (last ip)), ''Login: ''))"

datatype connect_turn =
    Turn_Again ChatServiceClient string
  | Turn_JoinGroupChat string ChatServiceClient
  | Turn_Return
  | Turn_Exit

definition ConnectClient_turn ::
  "string \<Rightarrow> string option \<Rightarrow> uint32 \<Rightarrow> LoginResponse option \<Rightarrow> LogoutResponse option \<Rightarrow>
   ServerViewResponse option \<Rightarrow> string \<Rightarrow> ChatServiceClient \<Rightarrow> connect_turn res" where
  "ConnectClient_turn conn_state input fresh_id login_reply logout_reply view_reply ev client =
     (if conn_state \<noteq> ''READY'' then Inr Turn_Return
      else case input of
        None \<Rightarrow> rbind (UserLogout logout_reply client) (\<lambda>_. Inr Turn_Exit)
      | Some line \<Rightarrow>
          let msg = strings_Trim line [CHR 0x0D, CHR 0x0A];
              args = strings_Split msg CHR '' '';
              cmd = strings_TrimSpace (hd args);
              arg = strings_Join (tl args) CHR '' ''
          in if cmd = ''u'' then
               (let username = strings_TrimSpace arg
                in if username = [] then Inr (Turn_Again client ev)
                   else case UserLogin fresh_id login_reply username client of
                          (client1, req, ok) \<Rightarrow>
                            if \<not> ok then Inr Turn_Return
                            else Inr (Turn_Again client1 ''Enter the Group :''))
             else if cmd = ''j'' then
               (if User_GetName (cl_user client) = [] then Inr (Turn_Again client ev)
                else Inr (Turn_JoinGroupChat msg client))
             else if cmd \<in> {''a'', ''l'', ''r''} then Inr (Turn_Again client ev)
             else if cmd = ''q'' then
               rbind (UserLogout logout_reply client) (\<lambda>(client1, req, ok).
                 if ok then Inr Turn_Return else Inr (Turn_Again client1 ev))
             else if cmd = ''v'' then
               rbind (client_ServerView view_reply client) (\<lambda>_. Inr (Turn_Again client ev))
             else Inr (Turn_Again client ev))"

end
