(* ===== verification/ChatServiceSpec.thy ===== *)
theory ChatServiceSpec
  imports ChatService
begin

text \<open>
  What the chat service does with requests: it submits exactly the command that the request
  asks for, announces it under the same event, answers with the group of the store, and
  broadcasts to the streams of a group and to no other.
\<close>

section \<open>Submitting\<close>

abbreviation raft_of :: "('s, 'c, 'st) ChatServiceServer \<Rightarrow> 's ConsensusModule" where
  "raft_of s \<equiv> srv_cm (cs_raft s)"

text \<open>The command reaches the log of a leader, or a goroutine that forwards it.\<close>

definition submitted :: "Command list \<Rightarrow> 's ConsensusModule \<Rightarrow> 's ConsensusModule \<Rightarrow> bool" where
  "submitted cmds cm cm' \<longleftrightarrow>
     (if cm_state cm = Leader
      then cm_log cm' = cm_log cm @ map (\<lambda>c. \<lparr>le_Command = Some c, le_Term = cm_currentTerm cm\<rparr>) cmds
      else cm_log cm' = cm_log cm \<and>
           cm_spawned cm' = cm_spawned cm @ map (\<lambda>c. Go_Forward (Some c)) cmds) \<and>
     cm_state cm' = cm_state cm \<and> cm_currentTerm cm' = cm_currentTerm cm"

lemma submitted_Nil: "submitted [] cm cm"
  by (simp add: submitted_def)

lemma submitted_trans: "submitted xs a b \<Longrightarrow> submitted ys b c \<Longrightarrow> submitted (xs @ ys) a c"
  by (auto simp: submitted_def split: if_splits)

lemma Submit_submitted:
  assumes "Submit D (Some c) cm = Inr (cm', ok)"
  shows "ok" and "submitted [c] cm cm'"
  using assms
  by (auto simp: Submit_def forwardToLeader_def submitted_def dest!: persistToStorage_frame split: if_splits)

lemma raft_Submit_cases:
  assumes "raft_Submit D c s = Inr (s', ok)"
  shows "ok" and "submitted [c] (raft_of s) (raft_of s')"
    and "cs_connstore s' = cs_connstore s" and "cs_activeusersstore s' = cs_activeusersstore s"
  using assms by (auto simp: raft_Submit_def with_cm_def dest: Submit_submitted)

lemma raft_Submit_returns:
  assumes "deps_ok D" and "log_encodable (cm_log (raft_of s))" and "action_encodable (cmd_Action c)"
  shows "\<exists>s'. raft_Submit D c s = Inr (s', True)"
proof (cases "cm_state (raft_of s) = Leader")
  case True
  let ?cm = "(raft_of s)\<lparr>cm_log := cm_log (raft_of s) @ [\<lparr>le_Command = Some c, le_Term = cm_currentTerm (raft_of s)\<rparr>]\<rparr>"
  have "log_encodable (cm_log ?cm)" using assms(2,3) by (simp add: log_encodable_def)
  from persistToStorage_returns [OF assms(1) this] True show ?thesis
    by (auto simp: raft_Submit_def with_cm_def Submit_def)
next
  case False
  then show ?thesis by (simp add: raft_Submit_def with_cm_def Submit_def)
qed

section \<open>Requests\<close>

text \<open>The request of a client for an operation.\<close>

fun request_of :: "chat_op \<Rightarrow> GroupChatRequest option" where
  "request_of (Op_Join u new cur) = Some \<lparr>req_Action = Some (GroupChatRequest_Joinchat (Some
     \<lparr>join_Joineduser = Some u, join_Newgroup = new, join_Currgroup = cur\<rparr>))\<rparr>"
| "request_of (Op_Post m g) = Some \<lparr>req_Action = Some (GroupChatRequest_Append (Some
     \<lparr>app_Chatmessage = Some m, app_Group = Some g\<rparr>))\<rparr>"
| "request_of (Op_Like u i g) = Some \<lparr>req_Action = Some (GroupChatRequest_Like (Some
     \<lparr>like_Likeduser = Some u, like_Messageid = i, like_Group = Some g\<rparr>))\<rparr>"
| "request_of (Op_Unlike u i g) = Some \<lparr>req_Action = Some (GroupChatRequest_Unlike (Some
     \<lparr>unlike_Unlikeduser = Some u, unlike_Messageid = i, unlike_Group = Some g\<rparr>))\<rparr>"
| "request_of _ = None"

text \<open>Where the client is told that its request went.\<close>

fun request_room :: "chat_op \<Rightarrow> string" where
  "request_room (Op_Join u new cur) = new"
| "request_room x = hd (op_groups x)"

lemma ProcessRequest_op:
  fixes s :: "('s, 'c, 'st) ChatServiceServer"
  assumes "deps_ok D" and "log_encodable (cm_log (raft_of s))"
    and "action_encodable (cmd_Action (command_of x))" and "request_of x = Some req"
  shows "\<exists>s'. ProcessRequest D order req s = Inr (s', request_room x, cmd_Event (command_of x)) \<and>
    submitted [command_of x] (raft_of s) (raft_of s')"
proof -
  have sub: "\<exists>s'. raft_Submit D (command_of x) t = Inr (s', True) \<and>
      submitted [command_of x] (raft_of s) (raft_of s')" if "raft_of t = raft_of s"
    for t :: "('s, 'c, 'st) ChatServiceServer"
    using raft_Submit_returns [of D t "command_of x"] assms(1-3) that raft_Submit_cases(2) by metis
  obtain s' where s': "raft_Submit D (command_of x) s = Inr (s', True)"
    "submitted [command_of x] (raft_of s) (raft_of s')" using sub [OF refl] by blast
  show ?thesis
  proof (cases x)
    case (Op_Join u new cur)
    let ?t = "s\<lparr>cs_connstore := RemoveConn order (cur, user_Name u) (cs_connstore s)\<rparr>"
    obtain s'' where "raft_Submit D (command_of x) ?t = Inr (s'', True)"
      "submitted [command_of x] (raft_of s) (raft_of s'')" using sub [of ?t] by auto
    with Op_Join assms(4) show ?thesis by (auto simp: ProcessRequest_def)
  qed (use s' assms(4) in \<open>auto simp: ProcessRequest_def\<close>)
qed

text \<open>What the chat service does to the consensus module is the call of \<open>Submit\<close>.\<close>

lemma ProcessRequest_raft:
  assumes "ProcessRequest D order req s = Inr (s', room, ev)"
  shows "cs_raft s' = (cs_raft s)\<lparr>srv_cm := raft_of s'\<rparr>"
proof -
  have sub: "raft_Submit D c t = Inr (u, ok) \<Longrightarrow> cs_raft u = (cs_raft t)\<lparr>srv_cm := raft_of u\<rparr>" for c t u ok
    by (auto simp: raft_Submit_def with_cm_def)
  show ?thesis
    using assms by (auto simp: ProcessRequest_def Let_def dest!: sub split: if_splits option.splits GroupChatAction.splits)
qed

lemma ProcessRequest_submits:
  assumes "ProcessRequest D order req s = Inr (s', room, ev)" and "request_of x = Some req"
  shows "Submit D (Some (command_of x)) (raft_of s) = Inr (raft_of s', True)"
proof -
  have sub: "raft_Submit D c t = Inr (u, ok) \<Longrightarrow> Submit D (Some c) (raft_of t) = Inr (raft_of u, True)" for c t u ok
    using raft_Submit_cases(1) [of D c t u ok] by (auto simp: raft_Submit_def with_cm_def)
  show ?thesis
    using assms
    by (cases x) (auto simp: ProcessRequest_def Let_def dest!: sub split: if_splits)
qed

text \<open>
  Whatever the request, at most one command is submitted, and its event, which decides what
  the servers do with it, is the one the request is answered under and fits its payload.
\<close>

fun event_of_action :: "CommandAction \<Rightarrow> string" where
  "event_of_action (Command_Login a) = ''u''"
| "event_of_action (Command_Joinchat a) = ''j''"
| "event_of_action (Command_Append a) = ''a''"
| "event_of_action (Command_Like a) = ''l''"
| "event_of_action (Command_Unlike a) = ''r''"
| "event_of_action (Command_Logout a) = ''q''"
| "event_of_action (Command_Print a) = ''p''"

definition consistent :: "Command \<Rightarrow> bool" where
  "consistent c \<longleftrightarrow> (\<exists>a. cmd_Action c = Some a \<and> cmd_Event c = event_of_action a)"

lemma consistent_command_of [simp]: "consistent (command_of x)"
  by (cases x) (auto simp: consistent_def)

definition announced :: "string \<Rightarrow> ('s, 'c, 'st) ChatServiceServer \<Rightarrow> ('s, 'c, 'st) ChatServiceServer \<Rightarrow> bool" where
  "announced ev s s' \<longleftrightarrow>
     (\<exists>c. submitted [c] (raft_of s) (raft_of s') \<and> consistent c \<and> cmd_Event c = ev \<and>
        cs_activeusersstore s' = cs_activeusersstore s)"

lemma raft_Submit_announced:
  assumes "raft_Submit D \<lparr>cmd_Action = Some a, cmd_Event = ev\<rparr> t = Inr (s', ok)"
    and "raft_of t = raft_of s" and "cs_activeusersstore t = cs_activeusersstore s"
    and "ev = event_of_action a"
  shows "ok" and "announced ev s s'"
  using raft_Submit_cases [OF assms(1)] assms(2-4)
  by (auto simp: announced_def consistent_def intro!: exI [of _ "\<lparr>cmd_Action = Some a, cmd_Event = ev\<rparr>"])

lemma ProcessRequest_cases:
  assumes "ProcessRequest D order req s = Inr (s', room, ev)"
  shows "ev \<in> {[], ''p''} \<and> s' = s \<or> announced ev s s'"
proof (cases "req_Action req")
  case None
  with assms show ?thesis by (simp add: ProcessRequest_def)
next
  case (Some a)
  note run = assms [unfolded ProcessRequest_def Some Let_def]
  show ?thesis
  proof (cases a)
    case (GroupChatRequest_Append x)
    with run obtain ok t where st: "raft_Submit D \<lparr>cmd_Action = Some (Command_Append x), cmd_Event = ''a''\<rparr> s = Inr (t, ok)"
      and rest: "(if ok then rbind (deref x) (\<lambda>x. rbind (deref (app_Group x)) (\<lambda>g. Inr (t, grp_Groupname g, ''a'')))
         else Inr (t, [], [])) = Inr (s', room, ev)" by auto
    from raft_Submit_announced [OF st refl refl] rest show ?thesis by auto
  next
    case (GroupChatRequest_Like x)
    with run obtain ok t where st: "raft_Submit D \<lparr>cmd_Action = Some (Command_Like x), cmd_Event = ''l''\<rparr> s = Inr (t, ok)"
      and rest: "(if ok then rbind (deref x) (\<lambda>x. rbind (deref (like_Group x)) (\<lambda>g. Inr (t, grp_Groupname g, ''l'')))
         else Inr (t, [], [])) = Inr (s', room, ev)" by auto
    from raft_Submit_announced [OF st refl refl] rest show ?thesis by auto
  next
    case (GroupChatRequest_Unlike x)
    with run obtain ok t where st: "raft_Submit D \<lparr>cmd_Action = Some (Command_Unlike x), cmd_Event = ''r''\<rparr> s = Inr (t, ok)"
      and rest: "(if ok then rbind (deref x) (\<lambda>x. rbind (deref (unlike_Group x)) (\<lambda>g. Inr (t, grp_Groupname g, ''r'')))
         else Inr (t, [], [])) = Inr (s', room, ev)" by auto
    from raft_Submit_announced [OF st refl refl] rest show ?thesis by auto
  next
    case (GroupChatRequest_Joinchat x)
    obtain j u where j: "x = Some j" "join_Joineduser j = Some u"
      using run GroupChatRequest_Joinchat by (cases x; cases "join_Joineduser (the x)") auto
    let ?s = "s\<lparr>cs_connstore := RemoveConn order (join_Currgroup j, user_Name u) (cs_connstore s)\<rparr>"
    from run GroupChatRequest_Joinchat j obtain p where
      st: "raft_Submit D \<lparr>cmd_Action = Some (Command_Joinchat x), cmd_Event = ''j''\<rparr> ?s = Inr p"
      and rest: "(case p of (t, ok) \<Rightarrow> if ok then Inr (t, join_Newgroup j, ''j'') else Inr (t, [], [])) =
        (Inr (s', room, ev) :: (_ \<times> string \<times> string) res)"
      by auto
    obtain t ok where p: "p = (t, ok)" by (cases p)
    from raft_Submit_announced [OF st [unfolded p], of s] rest show ?thesis by (auto simp: p split: if_splits)
  qed (use run in auto)
qed

section \<open>Broadcast\<close>

definition receives :: "('st \<Rightarrow> ctx_err) \<Rightarrow> string \<Rightarrow> ('st, client) fmap \<Rightarrow> 'st \<Rightarrow> bool" where
  "receives ctx room clients st \<longleftrightarrow>
     (\<exists>c. fmlookup clients st = Some c \<and> fst c = room) \<and> ctx st = Ctx_Nil"

lemma broadcast_each_spec:
  assumes "distinct order"
  shows "snd (broadcast_each ctx resp room order clients) =
      map (\<lambda>st. (st, resp)) (filter (receives ctx room clients) order)"
    and "fmlookup (fst (broadcast_each ctx resp room order clients)) st =
      (if st \<in> set order \<and> (\<exists>c. fmlookup clients st = Some c \<and> fst c = room) \<and> ctx st \<noteq> Ctx_Nil
       then None else fmlookup clients st)"
  using assms
proof (induction order arbitrary: clients)
  case (Cons x xs)
  have closed: "ctx x = Ctx_Canceled \<or> ctx x = Ctx_DeadlineExceeded \<longleftrightarrow> ctx x \<noteq> Ctx_Nil"
    by (cases "ctx x") auto
  {
    case 1
    then have other: "filter (receives ctx room (fmdrop x clients)) xs = filter (receives ctx room clients) xs"
      by (intro filter_cong) (auto simp: receives_def)
    have head: "receives ctx room clients x \<longleftrightarrow>
        (case fmlookup clients x of None \<Rightarrow> False | Some c \<Rightarrow> fst c = room \<and> ctx x = Ctx_Nil)"
      by (auto simp: receives_def split: option.splits)
    from 1 Cons.IH(1) other closed show ?case
      by (cases "fmlookup clients x") (simp_all add: head case_prod_beta)
  next
    case 2
    with Cons.IH(2) closed show ?case
      by (auto simp: case_prod_beta split: option.splits)
  }
qed simp_all

end
