(* ===== verification/ClientSpec.thy ===== *)
theory ClientSpec
  imports MainPrograms ChatServiceSpec
begin

text \<open>
  What a typed line means: the parsers of the client on well-formed input, the request a
  command in a group becomes, and what is printed of a group.
\<close>

section \<open>Trimming plain text\<close>

text \<open>Printable ASCII other than the space starts or ends no encoding of a space.\<close>

definition plain :: "char \<Rightarrow> bool" where
  "plain c \<longleftrightarrow> 0x20 < (of_char c :: nat) \<and> (of_char c :: nat) < 0x80"

definition plain_ends :: "string \<Rightarrow> bool" where
  "plain_ends s \<longleftrightarrow> s \<noteq> [] \<and> plain (hd s) \<and> plain (last s)"

lemma strip_one_plain:
  "s \<noteq> [] \<Longrightarrow> (\<forall>p \<in> set ps. p \<noteq> [] \<longrightarrow> hd p \<noteq> hd s) \<Longrightarrow> strip_one ps s = None"
proof (induction ps)
  case (Cons p ps)
  then show ?case by (cases p; cases s) auto
qed simp

lemma space_encodings_hd: "p \<in> set space_encodings \<Longrightarrow> \<not> plain (hd p) \<and> \<not> plain (last p) \<and> p \<noteq> []"
  by (auto simp: space_encodings_def plain_def)

lemma strip_all_plain:
  "s \<noteq> [] \<Longrightarrow> plain (hd s) \<Longrightarrow> strip_all space_encodings s = s"
  "s \<noteq> [] \<Longrightarrow> plain (hd s) \<Longrightarrow> strip_all (map rev space_encodings) s = s"
proof -
  assume s: "s \<noteq> []" "plain (hd s)"
  have "strip_one space_encodings s = None"
    by (rule strip_one_plain [OF s(1)]) (metis s(2) space_encodings_hd)
  then show "strip_all space_encodings s = s" by (subst strip_all.simps) simp
  have "strip_one (map rev space_encodings) s = None"
    by (rule strip_one_plain [OF s(1)]) (use s(2) space_encodings_hd in \<open>fastforce simp: hd_rev\<close>)
  then show "strip_all (map rev space_encodings) s = s" by (subst strip_all.simps) simp
qed

lemma TrimSpace_plain: "plain_ends s \<Longrightarrow> strings_TrimSpace s = s"
  by (simp add: strings_TrimSpace_def plain_ends_def strip_all_plain hd_rev)

lemma Trim_ends:
  "s \<noteq> [] \<Longrightarrow> hd s \<notin> set cs \<Longrightarrow> last s \<notin> set cs \<Longrightarrow> strings_Trim s cs = s"
proof -
  assume s: "s \<noteq> []" "hd s \<notin> set cs" "last s \<notin> set cs"
  then have "dropWhile (\<lambda>c. c \<in> set cs) s = s" by (cases s) auto
  moreover have "dropWhile (\<lambda>c. c \<in> set cs) (rev s) = rev s"
    using s by (cases "rev s") (auto simp: last_rev hd_rev [symmetric])
  ultimately show ?thesis by (simp add: strings_Trim_def)
qed

lemma Trim_newline:
  assumes "s \<noteq> []" and "hd s \<notin> set cs" and "last s \<notin> set cs" and "c \<in> set cs"
  shows "strings_Trim (s @ [c]) cs = s"
proof -
  have "dropWhile (\<lambda>c. c \<in> set cs) (s @ [c]) = s @ [c]" using assms by (cases s) auto
  with assms Trim_ends [OF assms(1-3)] show ?thesis
    by (simp add: strings_Trim_def) (metis assms(1,2) dropWhile_eq_self_iff)
qed

section \<open>Typed commands\<close>

abbreviation newline_chars :: "char list" where
  "newline_chars \<equiv> [CHR 0x0D, CHR 0x0A]"

text \<open>A one-letter command, a space, an argument and the newline of the terminal.\<close>

definition typed :: "char \<Rightarrow> string \<Rightarrow> string" where
  "typed c arg = c # CHR '' '' # arg @ [CHR 0x0A]"

definition ends_ok :: "string \<Rightarrow> bool" where
  "ends_ok arg \<longleftrightarrow> (arg = [] \<or> last arg \<notin> set newline_chars)"

lemma Trim_typed:
  assumes "plain c" and "ends_ok arg"
  shows "strings_Trim (typed c arg) newline_chars = c # CHR '' '' # arg"
proof -
  have "strings_Trim ((c # CHR '' '' # arg) @ [CHR 0x0A]) newline_chars = c # CHR '' '' # arg"
    by (rule Trim_newline) (use assms in \<open>auto simp: plain_def ends_ok_def\<close>)
  then show ?thesis by (simp add: typed_def)
qed

lemma Split_typed:
  assumes "plain c"
  shows "strings_Split (c # CHR '' '' # arg) CHR '' '' = [c] # strings_Split arg CHR '' ''"
proof -
  have "c \<noteq> CHR '' ''" using assms by (auto simp: plain_def)
  then show ?thesis using Split_prefix [of "CHR '' ''" "[c]" arg] by simp
qed

lemma TrimSpace_single: "plain c \<Longrightarrow> strings_TrimSpace [c] = [c]"
  by (simp add: TrimSpace_plain plain_ends_def)

lemma plain_letters [simp]:
  "plain CHR ''a''" "plain CHR ''l''" "plain CHR ''r''" "plain CHR ''p''" "plain CHR ''j''"
  "plain CHR ''q''" "plain CHR ''v''" "plain CHR ''u''" "plain CHR ''c''" "plain CHR ''1''"
  by (simp_all add: plain_def)

lemmas typed_simps = Trim_typed Split_typed TrimSpace_single Join_Split

definition in_group :: "User \<Rightarrow> Group \<Rightarrow> ChatServiceClient \<Rightarrow> bool" where
  "in_group u g client \<longleftrightarrow> cl_user client = Some u \<and> user_Name u \<noteq> [] \<and>
     cl_group client = Some g \<and> grp_Groupname g \<noteq> []"

definition new_message :: "User \<Rightarrow> string \<Rightarrow> ChatMessage" where
  "new_message u txt = \<lparr>msg_MessagedBy = Some u, msg_Message = txt, msg_LikedBy = fmempty\<rparr>"

definition current_group :: "Group \<Rightarrow> string" where
  "current_group g = (if grp_GroupID g \<noteq> 0 then grp_Groupname g else ''None'')"

text \<open>The operation that a command letter stands for.\<close>

fun typed_op :: "char \<Rightarrow> string \<Rightarrow> User \<Rightarrow> Group \<Rightarrow> chat_op option" where
  "typed_op c arg u g =
     (if c = CHR ''a'' then Some (Op_Post (new_message u arg) g)
      else if c = CHR ''l'' then Some (Op_Like u (of_nat (fst (ParseUint32 arg))) g)
      else if c = CHR ''r'' then Some (Op_Unlike u (of_nat (fst (ParseUint32 arg))) g)
      else if c = CHR ''j'' then Some (Op_Join u arg (current_group g))
      else None)"

lemma ProcessMessage_typed:
  assumes "in_group u g client" and "ends_ok arg" and "typed_op c arg u g = Some x"
  obtains req where "request_of x = Some req"
    and "ProcessMessage lr vr (typed c arg) client = Inr (client, req, [c])"
  using assms that
  by (auto simp: ProcessMessage_def Let_def typed_simps in_group_def request_def new_message_def
      current_group_def split: if_splits)

text \<open>From the menu a user who is logged in joins a group: the stream is opened and carries the join.\<close>

lemma menu_join:
  assumes "cl_user client = Some u" and "user_Name u \<noteq> []" and "cl_group client = Some g" and "ends_ok arg"
  shows "ConnectClient_turn ''READY'' (Some (typed CHR ''j'' arg)) i login lr vr ev client =
      Inr (Turn_JoinGroupChat (CHR ''j'' # CHR '' '' # arg) client)"
    and "JoinGroupChat_open True True lr vr (CHR ''j'' # CHR '' '' # arg) client =
      Inr (client, request_of (Op_Join u arg (current_group g)))"
proof -
  have line: "strings_Trim (CHR ''j'' # CHR '' '' # arg) newline_chars = CHR ''j'' # CHR '' '' # arg"
    by (rule Trim_ends) (use assms(4) in \<open>auto simp: ends_ok_def\<close>)
  show "ConnectClient_turn ''READY'' (Some (typed CHR ''j'' arg)) i login lr vr ev client =
      Inr (Turn_JoinGroupChat (CHR ''j'' # CHR '' '' # arg) client)"
    using assms by (simp add: ConnectClient_turn_def Let_def typed_simps User_GetName_def)
  show "JoinGroupChat_open True True lr vr (CHR ''j'' # CHR '' '' # arg) client =
      Inr (client, request_of (Op_Join u arg (current_group g)))"
    using assms line by (simp add: JoinGroupChat_open_def ProcessMessage_def Let_def typed_simps request_def current_group_def)
qed

section \<open>The address of a server\<close>

lemma Itoa_plain: "c \<in> set (Itoa n) \<Longrightarrow> plain c \<and> c \<noteq> CHR '' '' \<and> c \<noteq> CHR '':''"
  using Itoa_digits [of c n] by (auto simp: is_digit_def plain_def)

lemma client_connects:
  assumes "0 \<le> i"
  shows "client_main_turn (Some (typed CHR ''c'' (server_IP i))) =
    Main_Connect (''172.30.100.10'' @ Itoa (nat i)) ''12000''"
proof -
  let ?ip = "''172.30.100.10'' @ Itoa (nat i)"
  have ip: "server_IP i = ?ip @ CHR '':'' # ''12000''"
    using assms by (simp add: server_IP_def Itoa_int_def)
  have ends: "ends_ok (server_IP i)" by (simp add: ends_ok_def server_IP_def)
  have nosp: "CHR '' '' \<notin> set (server_IP i)" and nocolon: "CHR '':'' \<notin> set ?ip"
    using Itoa_plain by (auto simp: ip)
  have "plain_ends (server_IP i)" by (simp add: plain_ends_def server_IP_def plain_def)
  then have trim: "strings_TrimSpace (server_IP i) = server_IP i" by (rule TrimSpace_plain)
  have split: "strings_Split (server_IP i) CHR '':'' = [?ip, ''12000'']"
    using Split_prefix [OF nocolon, of "''12000''"] by (simp only: ip) simp
  have "strings_Contains (server_IP i) CHR '':''" by (simp add: strings_Contains_def ip)
  with ends trim split show ?thesis
    by (simp add: client_main_turn_def Trim_typed Split_typed Split_no_sep [OF nosp] Let_def)
qed

section \<open>What is printed of a group\<close>

definition post_line :: "post list \<Rightarrow> nat \<Rightarrow> line" where
  "post_line ps i = (of_nat i, post_author (ps ! i), post_text (ps ! i), fcard (post_likes (ps ! i)))"

lemma print_message_post:
  assumes wf: "msgs_wf ms" and i: "i < fmsize ms"
  shows "print_message ms (of_nat i) = Inr [post_line (abs_msgs ms) i]"
proof -
  let ?i = "of_nat i :: uint32"
  have "fmsize ms \<le> max_posts" by (rule fmsize_le_max_posts)
  with i have u: "unat ?i = i" by (intro unat_of_nat_small) simp
  with i msgs_wf_lookup [OF wf, of ?i] obtain x where x: "fmlookup ms ?i = Some x" by auto
  obtain m a where m: "x = Some m" "msg_MessagedBy m = Some a"
    using msgs_wf_author [OF wf x] by blast
  from abs_msgs_nth [OF x [unfolded m] wf] u have "abs_msgs ms ! i = abs_post m" by simp
  with x m show ?thesis by (simp add: print_message_def post_line_def abs_post_def)
qed

lemma print_message_none:
  assumes "msgs_wf ms" and "fmsize ms \<le> unat i"
  shows "print_message ms i = Inr []"
  using msgs_wf_lookup [OF assms(1), of i] assms(2) by (cases "fmlookup ms i") (auto simp: print_message_def)

lemma print_each_posts:
  assumes "msgs_wf ms" and "\<forall>i \<in> set xs. i < fmsize ms"
  shows "print_each ms (map int xs) = Inr (map (post_line (abs_msgs ms)) xs)"
  using assms(2) by (induction xs) (simp_all add: print_message_post [OF assms(1)])

lemma print_each_append:
  "print_each ms xs = Inr a \<Longrightarrow> print_each ms ys = Inr b \<Longrightarrow> print_each ms (xs @ ys) = Inr (a @ b)"
  by (induction xs arbitrary: a) auto

text \<open>An index below zero wraps to one that no short enough list of messages has.\<close>

lemma unat_wrapped:
  assumes "0 < k" and "k \<le> max_posts"
  shows "unat (of_int (- int k) :: uint32) = max_posts - k"
proof -
  have "uint (of_int (- int k) :: uint32) = (- int k) mod 2 ^ 32"
    by (simp only: uint_word_of_int_eq take_bit_eq_mod) simp
  also have "\<dots> = 2 ^ 32 - int k"
  proof -
    have "(- int k) mod 2 ^ 32 = (- int k + 2 ^ 32) mod 2 ^ 32" by simp
    also have "\<dots> = - int k + 2 ^ 32"
      by (rule mod_pos_pos_trivial) (use assms in \<open>auto simp: max_posts_def\<close>)
    finally show ?thesis by simp
  qed
  finally show ?thesis using assms by (simp add: max_posts_def unat_eq_nat_uint nat_diff_distrib)
qed

lemma print_each_below:
  assumes wf: "msgs_wf ms" and ks: "\<forall>k \<in> set ks. fmsize ms < k \<and> k \<le> 10"
  shows "print_each ms (map (\<lambda>k. int (fmsize ms) - int k) ks) = Inr []"
  using ks
proof (induction ks)
  case (Cons k ks)
  then have k: "fmsize ms < k" "k \<le> 10" by simp_all
  have "int (fmsize ms) - int k = - int (k - fmsize ms)" using k by simp
  moreover have "unat (of_int (- int (k - fmsize ms)) :: uint32) = max_posts - (k - fmsize ms)"
    by (rule unat_wrapped) (use k in \<open>auto simp: max_posts_def\<close>)
  ultimately have "fmsize ms \<le> unat (of_int (int (fmsize ms) - int k) :: uint32)"
    using k by (simp add: max_posts_def)
  from print_message_none [OF wf this] Cons show ?case by simp
qed simp

lemma countdown:
  assumes "m \<le> n"
  shows "map (\<lambda>k. int n - int k) (rev [1..<Suc m]) = map int [n - m..<n]"
  by (rule nth_equalityI) (use assms in \<open>auto simp: rev_nth simp del: upt_Suc\<close>)

lemma PrintAll_posts:
  assumes "group_wf g"
  shows "PrintAll (Some g) = Inr (grp_Groupname g, ag_members (abs_group g),
     map (post_line (ag_posts (abs_group g))) [0..<length (ag_posts (abs_group g))])"
proof -
  from assms obtain ms where ms: "grp_Messages g = Some ms" "msgs_wf ms"
    by (auto simp: group_wf_def split: option.splits)
  then show ?thesis
    by (simp add: PrintAll_def Let_def print_each_posts abs_group_def abs_msgs_def)
qed

lemma PrintRecent_posts:
  assumes "group_wf g"
  shows "PrintRecent (Some g) = Inr (grp_Groupname g, ag_members (abs_group g),
     map (post_line (ag_posts (abs_group g)))
       [length (ag_posts (abs_group g)) - 10..<length (ag_posts (abs_group g))])"
proof -
  from assms obtain ms where ms: "grp_Messages g = Some ms" "msgs_wf ms"
    by (auto simp: group_wf_def split: option.splits)
  define n m where "n = fmsize ms" and "m = min 10 n"
  have "rev [1..<11] = rev [Suc m..<11] @ rev [1..<Suc m]"
    using upt_add_eq_append [of 1 "Suc m" "10 - m"] by (simp add: m_def flip: rev_append)
  then have split: "map (\<lambda>k. int n - int k) (rev [1..<11]) =
      map (\<lambda>k. int n - int k) (rev [Suc m..<11]) @ map int [n - m..<n]"
    using countdown [of m n] by (simp add: m_def)
  have "print_each ms (map (\<lambda>k. int n - int k) (rev [Suc m..<11])) = Inr []"
    unfolding n_def by (rule print_each_below [OF ms(2)]) (auto simp: m_def n_def)
  moreover have "print_each ms (map int [n - m..<n]) = Inr (map (post_line (abs_msgs ms)) [n - m..<n])"
    by (rule print_each_posts [OF ms(2)]) (simp add: n_def)
  ultimately have "print_each ms (map (\<lambda>k. int n - int k) (rev [1..<11])) =
      Inr (map (post_line (abs_msgs ms)) [n - m..<n])"
    by (simp only: split print_each_append append_Nil)
  moreover have "n - m = n - 10" by (simp add: m_def)
  ultimately show ?thesis using ms by (simp add: PrintRecent_def Let_def n_def abs_group_def abs_msgs_def)
qed

end
