(* ===== verification/Service_Properties.thy ===== *)
theory Service_Properties
  imports Store_Properties ClientSpec
begin

text \<open>
  The properties of the raft server's connections, of the chat service and of the client, each
  with its application to a concrete state.
\<close>

section \<open>The server and its peers\<close>

definition w_net :: "string grpc" where
  "w_net = \<lparr>grpc_Dial = Some, grpc_GetState = (\<lambda>c. Inr ''IDLE''), grpc_Close = (\<lambda>_. True)\<rparr>"

lemma dialable_w [simp]: "dialable w_net"
  by (simp add: dialable_def w_net_def)

lemma w_new_server:
  obtains s where "NewServer mem_deps (\<lambda>_. Some Map.empty) w_net i addr = Inr s"
    and "HasData mem_deps (cm_storage (srv_cm s)) = Inr False" and "\<not> srv_ready_closed s"
proof -
  obtain clients where "connect_each w_net (other_ids i) fmempty = Inr clients"
    using connect_each_ok [OF dialable_w] by blast
  then show thesis
    using that by (simp add: NewServer_def ConnectAllPeers_def NewConsensusModule_def NewDiskStore_def
      HasData_def Let_def init_cm_def spawn_def)
qed

text \<open>
  A new server is a sound member of the five-server cluster. It votes for nobody but as
  itself, its log indices are in order, its cluster is the servers 1 to 5, and the majorities it
  counts are the sets of at least three of them.
\<close>

lemma new_server_sound:
  assumes "NewServer D open_db G i addr = Inr s" and "1 \<le> i" and "i \<le> 5"
  shows "log_ok (srv_cm s) \<and> self_vote (srv_cm s) \<and> cluster_ok (srv_cm s) \<and>
    cluster (srv_cm s) = {1..5} \<and> (\<forall>A \<subseteq> {1..5}. is_quorum (srv_cm s) A \<longleftrightarrow> 3 \<le> card A)"
proof -
  note s = NewServer_cases [OF assms(1)]
  have cl: "cluster (srv_cm s) = {1..5}"
    using assms(2,3) by (auto simp: cluster_def s set_other_ids)
  have ok: "cluster_ok (srv_cm s)" by (simp add: cluster_ok_def s set_other_ids distinct_other_ids)
  have "length (cm_peerIds (srv_cm s)) = 4" using card_cluster [OF ok] by (simp add: cl)
  then have "is_quorum (srv_cm s) A \<longleftrightarrow> 3 \<le> card A" if "A \<subseteq> {1..5}" for A
    using that ok cl by (auto simp: is_quorum_def majority_def)
  with NewServer_ok [OF assms(1)] ok cl assms(2) show ?thesis by auto
qed

text \<open>
  The server view names the connected peers. On a network where every peer can be dialled,
  a new server reports, in order, exactly the other servers whose connection is idle or ready.
\<close>

lemma active_peers_of_new_server:
  assumes "dialable G" and "NewServer D open_db G i addr = Inr s"
  shows "GetActivePeers G s = Inr (filter (\<lambda>k. grpc_GetState G (grpc_Dial G (GetPeerAddr k)) \<in>
     {Inr ''IDLE'', Inr ''READY''}) (other_ids i))"
proof -
  note s = NewServer_cases [OF assms(2)]
  have clients: "srv_peerClients s = fold (\<lambda>k. fmupd k (grpc_Dial G (GetPeerAddr k))) (other_ids i) fmempty"
    using s(8) by (simp add: connect_each_ok [OF assms(1)])
  have look: "fm_index None (srv_peerClients s) k = grpc_Dial G (GetPeerAddr k)" if "k \<in> set (other_ids i)" for k
    using that by (simp add: clients fm_index_connected)
  have "returns (grpc_GetState G (grpc_Dial G addr))" for addr
    using assms(1) unfolding dialable_def by (metis)
  then have "active_among G (other_ids i) s = Inr (filter (peer_up G s) (other_ids i))"
    by (intro active_among_filter) (simp add: look)
  moreover have "filter (peer_up G s) (other_ids i) = filter (\<lambda>k. grpc_GetState G
      (grpc_Dial G (GetPeerAddr k)) \<in> {Inr ''IDLE'', Inr ''READY''}) (other_ids i)"
    by (intro filter_cong) (simp_all add: peer_up_def look)
  ultimately show ?thesis by (simp add: GetActivePeers_def s(1))
qed

section \<open>The chat service\<close>

text \<open>A chat server whose raft server leads, with one connection.\<close>

definition w_chat_server :: "(string \<rightharpoonup> gob, string, nat) ChatServiceServer" where
  "w_chat_server =
     \<lparr>cs_connstore = \<lparr>conn_clients = Some (fmupd 5 (''None'', ''ann'') fmempty)\<rparr>,
      cs_activeusersstore = \<lparr>au_activeusers = [Some w_user], au_activeusergroup = fmupd 7 ''go'' fmempty\<rparr>,
      cs_raft = \<lparr>srv_serverId = 1, srv_peerIds = [2, 3, 4, 5], srv_cm = w_leader, srv_commitChan = [],
        srv_peerClients = fmempty, srv_broadcast = [], srv_listener = [], srv_ready_closed = True\<rparr>\<rparr>"

lemma w_chat_server_simps [simp]:
  "srv_cm (cs_raft w_chat_server) = w_leader"
  "au_activeusers (cs_activeusersstore w_chat_server) = [Some w_user]"
  "au_activeusergroup (cs_activeusersstore w_chat_server) = fmupd 7 ''go'' fmempty"
  "conn_clients (cs_connstore w_chat_server) = Some (fmupd 5 (''None'', ''ann'') fmempty)"
  by (simp_all add: w_chat_server_def)

text \<open>
  Events and payloads never get mixed up. Whatever the request, either nothing is
  submitted and the answer has no event or is a print, or exactly one command is submitted whose
  event is that of the answer and fits its payload.
\<close>

lemma request_event_consistent:
  assumes "ProcessRequest D order req s = Inr (s', room, ev)"
  shows "ev \<in> {[], ''p''} \<and> s' = s \<or>
    (\<exists>c. submitted [c] (raft_of s) (raft_of s') \<and> consistent c \<and> cmd_Event c = ev)"
  using ProcessRequest_cases [OF assms] by (auto simp: announced_def)

text \<open>
  C35: A broadcast goes to the streams of its group and to no other. Every open stream of the
  group gets one response with the group as the store has it, the streams of the group whose
  context has ended are dropped, and every other connection stays.
\<close>

theorem broadcast_reaches_group:
  assumes "map_order order (cs_connstore s)" and "BroadCast D ctx order room s = (s', sent)"
  shows "sent = map (\<lambda>st. (st, \<lparr>resp_Group = fst (GetGroup D room (storage_of s)), resp_Event = ''b''\<rparr>))
      (filter (\<lambda>st. (\<exists>u. client_of (cs_connstore s) st = Some (room, u)) \<and> ctx st = Ctx_Nil) order) \<and>
    (\<forall>st. client_of (cs_connstore s') st =
      (if (\<exists>u. client_of (cs_connstore s) st = Some (room, u)) \<and> ctx st \<noteq> Ctx_Nil then None
       else client_of (cs_connstore s) st)) \<and> cs_raft s' = cs_raft s"
proof (cases "conn_clients (cs_connstore s)")
  case None
  with assms show ?thesis by (auto simp: BroadCast_def client_of_def)
next
  case (Some clients)
  have d: "distinct order" and dom: "st \<in> set order \<longleftrightarrow> fmlookup clients st \<noteq> None" for st
    using assms(1) Some by (auto simp: map_order_def client_of_def)
  let ?resp = "\<lparr>resp_Group = fst (GetGroup D room (storage_of s)), resp_Event = ''b''\<rparr>"
  have s': "s' = s\<lparr>cs_connstore := (cs_connstore s)\<lparr>conn_clients :=
      Some (fst (broadcast_each ctx ?resp room order clients))\<rparr>\<rparr>"
    and sent: "sent = snd (broadcast_each ctx ?resp room order clients)"
    using assms(2) Some by (auto simp: BroadCast_def Let_def split: prod.splits)
  have rec: "receives ctx room clients = (\<lambda>st. (\<exists>u. fmlookup clients st = Some (room, u)) \<and> ctx st = Ctx_Nil)"
    by (auto simp: receives_def fun_eq_iff)
  show ?thesis
    unfolding s' sent broadcast_each_spec(1) [OF d] rec
    using Some dom by (auto simp: client_of_def broadcast_each_spec(2) [OF d])
qed

theorem broadcast_reaches_group_witness:
  "snd (BroadCast mem_deps (\<lambda>_. Ctx_Nil) [5] ''None'' w_chat_server) =
     [(5, \<lparr>resp_Group = fst (GetGroup mem_deps ''None'' (storage_of w_chat_server)), resp_Event = ''b''\<rparr>)]"
proof -
  have "map_order [5] (cs_connstore w_chat_server)" by (auto simp: map_order_def client_of_def)
  from broadcast_reaches_group [OF this, of mem_deps "\<lambda>_. Ctx_Nil" "''None''"
      "fst (BroadCast mem_deps (\<lambda>_. Ctx_Nil) [5] ''None'' w_chat_server)"
      "snd (BroadCast mem_deps (\<lambda>_. Ctx_Nil) [5] ''None'' w_chat_server)"]
  show ?thesis by (auto simp: client_of_def)
qed



text \<open>
  Logging in and out. A login registers the user as active and submits the login command; a
  logout submits the logout command of the user and the group, and does not take the user off
  the active ones.
\<close>

lemma login_logout_commands:
  shows "(Login D lreq s = Inr (s', lresp) \<longrightarrow> (\<exists>u. loginreq_User lreq = Some u \<and>
      submitted [command_of (Op_Login u)] (raft_of s) (raft_of s') \<and> loginresp_User lresp = Some u \<and>
      au_activeusers (cs_activeusersstore s') = au_activeusers (cs_activeusersstore s) @ [Some u]))
    \<and> (Logout_rpc D qreq s = Inr (s'', qresp) \<longrightarrow> (\<exists>u cur. logoutreq_Logout qreq =
      Some \<lparr>logout_User = Some u, logout_Currgroup = cur\<rparr> \<and>
      submitted [command_of (Op_Logout u cur)] (raft_of s) (raft_of s'') \<and> logoutresp_Status qresp \<and>
      cs_activeusersstore s'' = cs_activeusersstore s))"
proof (intro conjI impI)
  assume run: "Login D lreq s = Inr (s', lresp)"
  then obtain u active ok where u: "loginreq_User lreq = Some u" "AddUser (Some u) [] (cs_activeusersstore s) = Inr active"
    and sub: "raft_Submit D (command_of (Op_Login u)) (s\<lparr>cs_activeusersstore := active\<rparr>) = Inr (s', ok)"
    and resp: "ok \<Longrightarrow> loginresp_User lresp = Some u"
    by (cases "loginreq_User lreq") (auto simp: Login_def Let_def AddUser_def dest: raft_Submit_cases(1) split: if_splits)
  have "au_activeusers active = au_activeusers (cs_activeusersstore s) @ [Some u]"
    using u(2) by (auto simp: AddUser_def)
  with raft_Submit_cases [OF sub] u(1) resp
  show "\<exists>u. loginreq_User lreq = Some u \<and>
      submitted [command_of (Op_Login u)] (raft_of s) (raft_of s') \<and> loginresp_User lresp = Some u \<and>
      au_activeusers (cs_activeusersstore s') = au_activeusers (cs_activeusersstore s) @ [Some u]"
    by (intro exI [of _ u]) simp
next
  assume run: "Logout_rpc D qreq s = Inr (s'', qresp)"
  then obtain l ok where l: "logoutreq_Logout qreq = Some l"
    and sub: "raft_Submit D (logout_command (logout_User l) (logout_Currgroup l)) s = Inr (s'', ok)"
    and resp: "ok \<Longrightarrow> logout_User l \<noteq> None \<and> logoutresp_Status qresp"
    by (auto simp: Logout_rpc_def Let_def dest: raft_Submit_cases(1) split: if_splits)
  from resp [OF raft_Submit_cases(1) [OF sub]] obtain u where u: "logout_User l = Some u" "logoutresp_Status qresp"
    by auto
  then have "logout_command (logout_User l) (logout_Currgroup l) = command_of (Op_Logout u (logout_Currgroup l))"
    by (simp add: logout_command_def)
  with raft_Submit_cases [OF sub] l u
  show "\<exists>u cur. logoutreq_Logout qreq = Some \<lparr>logout_User = Some u, logout_Currgroup = cur\<rparr> \<and>
      submitted [command_of (Op_Logout u cur)] (raft_of s) (raft_of s'') \<and> logoutresp_Status qresp \<and>
      cs_activeusersstore s'' = cs_activeusersstore s"
    by (intro exI [of _ u] exI [of _ "logout_Currgroup l"]) (cases l, auto)
qed

text \<open>
  C37: A server that is interrupted logs its users out. For every registration of an active
  user, in order, one logout command is submitted, with the group the user was last registered
  in; then the process exits.
\<close>

theorem active_users_logged_out:
  assumes "CheckServerHealth D s = Inr (s', ok)"
  shows "ok \<and> submitted (map (\<lambda>u. logout_command u
      (fm_index [] (au_activeusergroup (cs_activeusersstore s)) (User_GetId u)))
      (au_activeusers (cs_activeusersstore s))) (raft_of s) (raft_of s')"
proof -
  have each: "submitted (map (\<lambda>u. logout_command u (fm_index [] groups (User_GetId u))) us) (raft_of t) (raft_of t')"
    if "logout_each D groups us t = Inr t'" for groups us t t'
    using that
  proof (induction us arbitrary: t)
    case Nil
    then show ?case by (simp add: submitted_Nil)
  next
    case (Cons user us)
    then obtain u t1 b where u: "user = Some u"
      and sub: "raft_Submit D (logout_command user (fm_index [] groups (user_Id u))) t = Inr (t1, b)"
      and rest: "logout_each D groups us t1 = Inr t'" by auto
    from submitted_trans [OF raft_Submit_cases(2) [OF sub] Cons.IH [OF rest]] u show ?case by simp
  qed
  from assms show ?thesis
    by (auto simp: CheckServerHealth_def RemoveActiveUsers_def Let_def submitted_Nil each split: if_splits)
qed

theorem active_users_logged_out_witness:
  "\<exists>s'. CheckServerHealth mem_deps w_chat_server = Inr (s', True) \<and>
     cm_log (raft_of s') = [w_entry 1, \<lparr>le_Command = Some (logout_command (Some w_user) ''go''), le_Term = 1\<rparr>]"
proof -
  obtain s' where "raft_Submit mem_deps (logout_command (Some w_user) ''go'') w_chat_server = Inr (s', True)"
    using raft_Submit_returns [of mem_deps w_chat_server "logout_command (Some w_user) ''go''"]
    by (auto simp: logout_command_def)
  then have run: "CheckServerHealth mem_deps w_chat_server = Inr (s', True)"
    by (simp add: CheckServerHealth_def RemoveActiveUsers_def w_user_def)
  from active_users_logged_out [OF run] run show ?thesis by (auto simp: submitted_def w_user_def)
qed

section \<open>The client\<close>

definition w_client :: ChatServiceClient where
  "w_client = \<lparr>cl_clientstore = \<lparr>active_user = Some w_user, client_group = Some w_group\<rparr>, cl_serverId = 49\<rparr>"

lemma in_group_w: "in_group w_user w_group w_client"
  by (simp add: in_group_def w_client_def w_user_def w_group_def GetUser_active_def GetGroup_active_def)

text \<open>
  The client reaches the server it names. Typing the connect command with the address a
  server listens on connects to that address, which is the one its peers dial.
\<close>

lemma connect_command_reaches_server:
  assumes "0 \<le> i"
  shows "client_main_turn (Some (typed CHR ''c'' (server_IP i))) =
      Main_Connect (''172.30.100.10'' @ Itoa (nat i)) ''12000'' \<and> server_IP i = GetPeerAddr i"
  using client_connects [OF assms] by (simp add: server_IP_def GetPeerAddr_def)

text \<open>
  C38: What is printed of a group. For a group in order, the print command shows every post in
  order, with its number, author, text and number of likes, and any other response the last ten
  of them; neither fails.
\<close>

theorem group_is_printed:
  assumes "group_wf g"
  shows "let ps = ag_posts (abs_group g) in
    PrintAll (Some g) = Inr (grp_Groupname g, ag_members (abs_group g), map (post_line ps) [0..<length ps]) \<and>
    PrintRecent (Some g) = Inr (grp_Groupname g, ag_members (abs_group g),
      map (post_line ps) [length ps - 10..<length ps])"
  using PrintAll_posts [OF assms] PrintRecent_posts [OF assms] by (simp add: Let_def)

theorem group_is_printed_witness:
  "PrintRecent (Some (new_group 9 ''go'' (Some w_user))) = Inr (''go'', fmupd 7 ''ann'' fmempty, [])"
proof -
  have a: "abs_group (new_group 9 ''go'' (Some w_user)) =
      \<lparr>ag_members = fmupd 7 ''ann'' fmempty, ag_posts = []\<rparr>"
    by (simp add: abs_new_group w_user_def)
  have "grp_Groupname (new_group 9 ''go'' (Some w_user)) = ''go''" by (simp add: new_group_def)
  with group_is_printed [OF group_wf_new, of 9 "''go''" "Some w_user"] show ?thesis by (simp add: a Let_def)
qed

section \<open>Inputs on which the client misbehaves\<close>

text \<open>A like whose argument is not a number is sent all the same, for message 0.\<close>

lemma like_without_number:
  assumes "in_group u g client" and "ends_ok arg" and "ParseUint32 arg = (0, Err_Syntax)"
  shows "ProcessMessage lr vr (typed CHR ''l'' arg) client =
    Inr (client, request (GroupChatRequest_Like (Some
      \<lparr>like_Likeduser = Some u, like_Messageid = 0, like_Group = Some g\<rparr>)), ''l'')"
  using assms by (auto simp: ProcessMessage_def Let_def typed_simps in_group_def)

text \<open>
  A join answered before its command is applied carries no group; the client stores that, and
  the next command of the session ends the program.
\<close>

lemma absent_group_ends_client:
  assumes "cl_user client = Some u" and "user_Name u \<noteq> []" and "ends_ok arg"
  shows "\<exists>client1 out. client_receive CCtx_Nil (CRecv_Resp \<lparr>resp_Group = None, resp_Event = ''j''\<rparr>) client =
      Inr (Some (client1, out)) \<and>
    ProcessMessage lr vr (typed CHR ''a'' arg) client1 = Inl (Panic Nil_Dereference)"
proof -
  have "PrintRecent None = Inr ([], fmempty, [])"
    by (simp add: PrintRecent_def Group_GetMessages_def Group_GetGroupname_def Group_GetParticipants_def
        Let_def fcard.rep_eq print_message_def upt_rec numeral_eq_Suc)
  with assms show ?thesis
    by (auto simp: client_receive_def ProcessMessage_def Let_def typed_simps)
qed

text \<open>A logout whose RPC fails ends the program instead of reporting the error.\<close>

lemma failed_logout_ends_client:
  "cl_user client = Some u \<Longrightarrow> user_Id u \<noteq> 0 \<Longrightarrow> cl_group client \<noteq> None \<Longrightarrow>
   UserLogout None client = Inl (Panic Nil_Dereference)"
  by (auto simp: UserLogout_def Let_def)

text \<open>The server id the client shows is the code of a digit, not its value.\<close>

lemma server_id_is_char_code:
  "\<exists>client ev. ConnectClient_start (\<lambda>_. True) ''172.30.100.101'' ''12000'' = Inr (client, ev) \<and>
     cl_serverId client = 49"
  by (simp add: ConnectClient_start_def NewChatServiceClient_def)

end
