(* ===== verification/System_Properties.thy ===== *)
theory System_Properties
  imports Chat_System Broadcast_Properties Restart_Properties Service_Properties
begin

text \<open>
  The properties of the running system, from the keyboard of a client to the databases of all
  servers.
\<close>

section \<open>One log, every database\<close>

lemma init_finite:
  assumes "sys_init D ids c S0"
  shows "finite ids"
proof (cases "ids = {}")
  case False
  then show ?thesis using in_step_finite [OF init_in_step [OF assms]] by blast
qed simp


text \<open>A server whose disk holds its state can be ended and started again.\<close>

lemma server_restarts:
  fixes S :: "('s, 'c) chat_system" and G :: "'c grpc"
  assumes "p \<in> ids" and cm: "srv_cm (sys_server S p) = net_cm (sys_net S) p" "cm_id (net_cm (sys_net S) p) = p"
    and "cm_peerIds (net_cm (sys_net S) p) = other_ids p" and "dialable G"
    and disk: "durable D (net_cm (sys_net S) p)" "cm_log (net_cm (sys_net S) p) \<noteq> []"
  obtains S' l where "sys_step D ids S (Raft p l) S'" and "restarts l"
proof -
  let ?cm = "net_cm (sys_net S) p"
  let ?db = "reopened p (cm_storage ?cm)"
  have o: "opens ?db (cm_id ?cm) (cm_storage ?cm)" unfolding cm(2) by (rule opens_reopened)
  obtain cm' where new: "NewConsensusModule D ?db (cm_id ?cm) (cm_peerIds ?cm) = Inr cm'"
    and same: "cm_currentTerm cm' = cm_currentTerm ?cm" "cm_votedFor cm' = cm_votedFor ?cm" "cm_log cm' = cm_log ?cm"
    by (rule durable_starts [OF disk o])
  let ?l = "L_Restart (cm_currentTerm cm') (cm_votedFor cm') (cm_log cm')"
  have net: "net_step D ids (sys_net S) (p, ?l) (net_after p ?l cm' (sys_net S))"
    using cm_step.Restart [OF o new] assms(1) same by (auto simp: net_step_def prompt_step_def)
  obtain s0 where s0: "NewServer D ?db G p (server_IP p) = Inr s0" "srv_cm s0 = cm'" "\<not> srv_ready_closed s0"
    using new by (simp add: NewServer_def Let_def ConnectAllPeers_def connect_each_ok [OF assms(5)] cm(2) assms(4))
  have db: "opens ?db p (sys_store S p)" using o unfolding cm .
  have "sys_step D ids S (Raft p ?l)
      (with_server p (s0\<lparr>srv_ready_closed := True\<rparr>) (net_after p ?l cm' (sys_net S)) S)"
    by (rule sys_step.Started_again [OF net _ db s0(1)]) (simp_all add: s0 Serve_def)
  then show thesis by (rule that) simp
qed

text \<open>What applying and restarting leave alone.\<close>

lemma apply_step_cm:
  assumes "sys_step D ids S (Apply p gid) S'"
  shows "\<exists>store. replicatedlog store = replicatedlog (sys_store S p) \<and> srv_cm (sys_server S' p) = net_cm (sys_net S') p \<and>
    net_cm (sys_net S') p = srv_cm (sys_server S p)\<lparr>cm_storage := store\<rparr>"
  using assms
  by (cases rule: sys_step.cases)
    (auto simp: commitEntries_step_def dest: persistData_frame split: list.splits)

lemma silent_submissions:
  assumes "sys_step D ids S ev S'" and "finite ids" and "\<And>p l. ev = Raft p l \<Longrightarrow> restarts l"
  shows "submissions ids (sys_net S') = submissions ids (sys_net S)"
proof -
  have "restarts l \<Longrightarrow> submission l = {#}" for l by (cases l) simp_all
  with assms show ?thesis
    by (cases rule: sys_step.cases) (auto simp: net_step_def submissions_after)
qed

lemma durable_disk:
  "replicatedlog store = replicatedlog (cm_storage cm) \<Longrightarrow> durable D (cm\<lparr>cm_storage := store\<rparr>) = durable D cm"
  by (simp add: durable_def GetState_def HasData_def)

definition w_system :: "(string \<rightharpoonup> gob, string) chat_system" where
  "w_system = \<lparr>sys_server = \<lambda>i. \<lparr>srv_serverId = i, srv_peerIds = other_ids i, srv_cm = w_cm i,
     srv_commitChan = [], srv_peerClients = fmempty, srv_broadcast = [], srv_listener = [],
     srv_ready_closed = True\<rparr>, sys_net = w_cluster\<rparr>"

lemma w_system_init: "sys_init mem_deps w_ids w_chat w_system"
  using w_cluster_init by (simp add: sys_init_def w_system_def w_cluster_def)

lemma room_w: "n \<le> max_posts \<Longrightarrow> room n w_chat"
  by (simp add: room_def posts_def w_chat_def)

lemma w_submitted_ok:
  assumes "\<forall>c \<in># submissions w_ids N. c = Some w_command"
  shows "submitted_ok w_ids N"
  unfolding submitted_ok_def
proof
  fix c assume "c \<in># submissions w_ids N"
  then show "\<exists>x. c = cmd x \<and> op_wf x"
    using assms by (intro exI [of _ "Op_Login w_user"]) (simp add: w_command_def)
qed

lemma w_good_system:
  obtains N evs S where "net_run in_time mem_deps w_ids w_good_run w_cluster = Some N"
    and "runs (sys_step mem_deps w_ids) w_system evs S" and "sys_net S = N" and "\<forall>c \<in># submissions w_ids N. c = Some w_command"
    and "\<And>p. passes p evs = [0]" and "\<And>p. told p evs = []"
proof -
  obtain N where N: "net_run in_time mem_deps w_ids w_good_run w_cluster = Some N"
    using w_good_reached by metis
  obtain pls where run: "runs (net_step mem_deps w_ids) w_cluster pls N"
    using net_run_sched [OF N] by (auto simp: net_step_sched)
  have reach: "reach mem_deps w_ids N" using net_run_reach [OF N] reach_init [OF w_cluster_init] by blast
  have plain: "w_plain l" if "l \<in> set (net_hist N p)" "p \<in> w_ids" for p l
    using w_good_plain N that by (auto simp: list_all_iff w_ids_def)
  have "\<not> outside (snd pl)" if "pl \<in> set pls" for pl
  proof -
    have l: "snd pl \<in> set (net_hist N (fst pl))" using runs_hist [OF run, of "fst pl" "snd pl"] that by simp
    then have "fst pl \<in> w_ids" using reach_outside [OF reach, of "fst pl"] by fastforce
    with l show ?thesis using plain w_plain_outside by blast
  qed
  then have raft: "\<forall>pl \<in> set pls. \<not> outside (snd pl)" by blast
  obtain S where S: "runs (sys_step mem_deps w_ids) w_system (map (\<lambda>(p, l). Raft p l) pls) S" "sys_net S = N"
    using net_run_in_system [OF run raft, of w_system] by (auto simp: w_system_def)
  have "\<forall>c \<in># submissions w_ids N. c = Some w_command"
  proof
    fix c
    assume "c \<in># submissions w_ids N"
    then obtain p l where "p \<in> w_ids" "l \<in> set (net_hist N p)" "c \<in># submission l"
      using submissions_in [of w_ids c N] by (auto simp: w_ids_def)
    then show "c = Some w_command" using plain by (cases l) fastforce+
  qed
  with that [OF N S] raft_passes [OF raft] raft_told [OF raft] show thesis by (simp add: passes_def told_def)
qed


text \<open>
  The same seen from the deliveries alone. Take any state the cluster reaches and two of its servers, one of which
  may have delivered more than the other. Applying what each has delivered to stores that
  represent the same chat succeeds on both; the chat of the server that is behind is an earlier
  state of the chat of the other, whatever group ids each of them drew, and is the same chat when
  both have delivered equally much.
\<close>

theorem replicas_agree:
  assumes "reach D ids N" and "p \<in> ids" and "q \<in> ids"
    and "length (delivered N p) \<le> length (delivered N q)"
    and "map fst (delivered N q) = map (\<lambda>x. Some (command_of x)) xs"
    and "map (\<lambda>e. ce_Command (snd e)) es1 = map fst (delivered N p)"
    and "map (\<lambda>e. ce_Command (snd e)) es2 = map fst (delivered N q)"
    and "disk_ok D1 st1" and "disk_ok D2 st2" and "abs_store D1 st1 = abs_store D2 st2"
    and "ops_ok xs (abs_store D1 st1)"
  defines "n \<equiv> length (delivered N p)"
  shows "\<exists>st1' st2'. apply_entries D1 es1 st1 = Inr (st1', concat (map op_groups (take n xs))) \<and>
    apply_entries D2 es2 st2 = Inr (st2', concat (map op_groups xs)) \<and>
    abs_store D1 st1' = ops_apply (take n xs) (abs_store D1 st1) \<and>
    abs_store D2 st2' = ops_apply (drop n xs) (abs_store D1 st1') \<and>
    (length (delivered N q) = n \<longrightarrow> abs_store D1 st1' = abs_store D2 st2')"
proof -
  have "map fst (delivered N p) = take n (map fst (delivered N q))"
    using delivered_agree [OF assms(1-4)] by (metis n_def take_map)
  then have es1: "map (\<lambda>e. ce_Command (snd e)) es1 = map (\<lambda>x. Some (command_of x)) (take n xs)"
    and es2: "map (\<lambda>e. ce_Command (snd e)) es2 = map (\<lambda>x. Some (command_of x)) xs"
    using assms(5-7) by (simp_all add: take_map)
  have ok: "ops_ok (take n xs) (abs_store D1 st1)"
    using assms(11) ops_ok_append [of "take n xs" "drop n xs"] by simp
  have len: "length xs = length (delivered N q)" using assms(5) by (metis length_map)
  obtain st1' where 1: "apply_entries D1 es1 st1 = Inr (st1', concat (map op_groups (take n xs)))"
    "abs_store D1 st1' = ops_apply (take n xs) (abs_store D1 st1)"
    using apply_entries_refines [OF assms(8) ok es1] by blast
  obtain st2' where 2: "apply_entries D2 es2 st2 = Inr (st2', concat (map op_groups xs))"
    "abs_store D2 st2' = ops_apply xs (abs_store D2 st2)"
    using apply_entries_refines [OF assms(9) _ es2] assms(10,11) by metis
  have "abs_store D2 st2' = ops_apply (drop n xs) (ops_apply (take n xs) (abs_store D1 st1))"
    unfolding 2 assms(10) by (metis append_take_drop_id comp_apply fold_append)
  then have later: "abs_store D2 st2' = ops_apply (drop n xs) (abs_store D1 st1')"
    using 1 by simp
  moreover have "abs_store D1 st1' = abs_store D2 st2'" if "length (delivered N q) = n"
    using later len that by simp
  ultimately show ?thesis using 1 2(1) by blast
qed

theorem replicas_agree_witness:
  "\<exists>N st1' st2' sent. reach mem_deps w_ids N \<and>
    apply_entries mem_deps [(3, entry_of (Op_Login w_user))] w_store = Inr (st1', sent) \<and>
    apply_entries mem_deps [(4, entry_of (Op_Login w_user))] w_store = Inr (st2', sent) \<and>
    map fst (delivered N 1) = [Some (command_of (Op_Login w_user))] \<and>
    abs_store mem_deps st1' = abs_store mem_deps st2' \<and> abs_store mem_deps st1' = a_login w_user w_chat"
proof -
  obtain N where N: "reach mem_deps w_ids N" "delivered N 1 = [(Some w_command, 0)]"
    "delivered N 2 = [(Some w_command, 0)]"
    using w_good_reached by metis
  let ?e = "entry_of (Op_Login w_user)"
  have c: "w_command = command_of (Op_Login w_user)" by (simp add: w_command_def)
  have p: "map fst (delivered N 1) = map (\<lambda>x. Some (command_of x)) [Op_Login w_user]"
    and q: "map fst (delivered N 2) = map (\<lambda>x. Some (command_of x)) [Op_Login w_user]"
    and len: "length (delivered N 1) = 1" "length (delivered N 2) = 1"
    using N by (simp_all only: c) simp_all
  have e: "map (\<lambda>e. ce_Command (snd e)) [(i, ?e)] = map (\<lambda>x. Some (command_of x)) [Op_Login w_user]"
    for i :: uint32 by (simp add: entry_of_def)
  have ok: "ops_ok [Op_Login w_user] (abs_store mem_deps w_store)" by simp
  obtain st1' st2' where st:
    "apply_entries mem_deps [(3, ?e)] w_store = Inr (st1', concat (map op_groups [Op_Login w_user]))"
    "apply_entries mem_deps [(4, ?e)] w_store = Inr (st2', concat (map op_groups [Op_Login w_user]))"
    "abs_store mem_deps st1' = ops_apply [Op_Login w_user] (abs_store mem_deps w_store)"
    "abs_store mem_deps st1' = abs_store mem_deps st2'"
    using replicas_agree [OF N(1) w_ids_mem(1,2) _ q e [folded p] e [folded q] disk_ok_w disk_ok_w refl ok]
    unfolding len by (metis le_refl take_0 take_Suc_Cons One_nat_def)
  moreover have "ops_apply [Op_Login w_user] (abs_store mem_deps w_store) = a_login w_user w_chat" by simp
  ultimately show ?thesis using N(1) p by (intro exI [of _ N] exI [of _ st1'] exI [of _ st2']) (simp del: command_of.simps)
qed

section \<open>From the keyboard to every database\<close>

text \<open>The chat service hands the command of a request to the consensus module of its server.\<close>

lemma chat_service_submits:
  assumes "deps_ok D" and "reach D ids N" and "r \<in> ids" and "raft_of s = net_cm N r"
    and "action_encodable (cmd_Action (command_of x))" and "request_of x = Some req"
  obtains s' where "ProcessRequest D order req s = Inr (s', request_room x, cmd_Event (command_of x))"
    and "Submit D (Some (command_of x)) (net_cm N r) = Inr (raft_of s', True)"
proof -
  have "log_encodable (cm_log (raft_of s))" using reach_encodable [OF assms(2,3)] assms(4) by simp
  from ProcessRequest_op [OF assms(1) this assms(5,6)] obtain s'
    where run: "ProcessRequest D order req s = Inr (s', request_room x, cmd_Event (command_of x))" by blast
  from that [OF run] ProcessRequest_submits [OF run assms(6)] assms(4) show thesis by simp
qed

text \<open>The call is a step of the system and leaves all databases of users and groups alone.\<close>

lemma submission_step:
  assumes inv: "in_step D ids c S b L ns gs" and "cs_raft s = sys_server S r"
    and run: "ProcessRequest D order req s = Inr (s', gname, ev)"
    and net: "net_step D ids (sys_net S) (r, L_Submit (cmd x)) (net_after r (L_Submit (cmd x)) (raft_of s') (sys_net S))"
    and wf: "op_wf x" and subs: "submitted_ok ids (sys_net S)"
  defines "N0 \<equiv> net_after r (L_Submit (cmd x)) (raft_of s') (sys_net S)"
  defines "S1 \<equiv> with_server r (cs_raft s') N0 S"
  shows "sys_step D ids S (Raft r (L_Submit (cmd x))) S1" and "submitted_ok ids N0"
    and "\<exists>b' M. in_step D ids c S1 b' (L @ M) ns gs"
    and "abs_store D (sys_store S1 q) = abs_store D (sys_store S q)"
proof -
  let ?l = "L_Submit (cmd x)"
  have net': "net_step D ids (sys_net S) (r, ?l) N0" using net by (simp add: N0_def)
  obtain cm' where move: "net_move D ids (sys_net S) r ?l cm'" and N0: "N0 = net_after r ?l cm' (sys_net S)"
    using net_stepE [OF net'] inv by (auto simp: in_step_def)
  note m = net_moveD(1,2) [OF move]
  have server: "cs_raft s' = (sys_server S r)\<lparr>srv_peerClients := srv_peerClients (sys_server S r),
      srv_cm := net_cm N0 r, srv_commitChan := srv_commitChan (sys_server S r) @ sent_entries ?l\<rparr>"
    by (rule trans [OF ProcessRequest_raft [OF run, unfolded assms(2)]])
      (cases "sys_server S r", simp add: N0_def)
  show "sys_step D ids S (Raft r ?l) S1"
    unfolding S1_def by (rule sys_step.Consensus [OF net' _ _ server]) (simp_all add: reconnects_def)
  have "submissions ids N0 = submissions ids (sys_net S) + {#cmd x#}"
    by (simp add: N0_def submissions_after [OF reach_finite [OF m] m(2)])
  then show ok: "submitted_ok ids N0" using subs wf by (auto simp: submitted_ok_def)
  show "\<exists>b' M. in_step D ids c S1 b' (L @ M) ns gs"
    unfolding S1_def server by (rule consensus_step [OF inv net' _ ok]) simp
  have "srv_cm (sys_server S r) = net_cm (sys_net S) r" using inv m(2) by (auto simp: in_step_def server_in_step_def)
  then have "diskstore (cm_storage (net_cm N0 r)) = diskstore (sys_store S r)"
    using net_step_diskstore [OF move] by (simp add: N0)
  then show "abs_store D (sys_store S1 q) = abs_store D (sys_store S q)"
    by (intro abs_store_disk) (simp add: S1_def server)
qed

lemma applied_in_leader:
  assumes inv: "in_step D ids c S b L ns gs" and q: "q \<in> ids" and p: "p \<in> ids" "cm_state (net_cm (sys_net S) p) = Leader"
    and "cm_currentTerm (net_cm (sys_net S) q) \<le> cm_currentTerm (net_cm (sys_net S) p)"
  shows "hd (ns q) \<le> length (cm_log (net_cm (sys_net S) p))"
proof -
  have s: "server_in_step D L c (sys_net S) q (sys_server S q) (ns q) (gs q)" and reach: "reach D ids (sys_net S)"
    using inv q by (simp_all add: in_step_def represents_def)
  note d = reach_delivered [OF reach q]
  have "hd (ns q) \<le> length (committed (net_cm (sys_net S) q))"
    using server_in_stepD(4) [OF s] d(2,3)
    by (simp add: committed_def commit_len_def log_ok_def min_absorb2 nat_le_iff)
  also have "\<dots> \<le> length (cm_log (net_cm (sys_net S) p))"
    using prefix_length_le [OF committed_in_leader [OF reach p(1) q p(2) assms(5)]] .
  finally show ?thesis .
qed

text \<open>A command that has been submitted to a server that knows the leader can reach every server.\<close>

lemma submission_delivered:
  assumes D: "deps_ok D" and U: "unrivalled D ids p t log N" and r: "r \<in> ids" "ids \<noteq> {p}"
    and known: "r = p \<or> cm_state (net_cm N r) \<noteq> Leader \<and> cm_leaderid (net_cm N r) = p"
    and enc: "action_encodable (cmd_Action command)" and run: "Submit D (Some command) (net_cm N r) = Inr (cm', ok)"
    and xs: "map le_Command log = map cmd xs" "Some command = cmd x"
  defines "N0 \<equiv> net_after r (L_Submit (Some command)) cm' N"
  obtains pls N' where "net_step D ids N (r, L_Submit (Some command)) N0" and "runs (net_step D ids) N0 pls N'"
    and "\<forall>pl \<in> set pls. \<not> outside (snd pl)" and "set_mset (submissions ids N') \<subseteq> set_mset (submissions ids N0)"
    and "\<forall>q \<in> ids. map fst (delivered N' q) = map cmd (xs @ [x])"
proof -
  let ?L = "log @ [\<lparr>le_Command = Some command, le_Term = t\<rparr>]"
  note submit = submit_anywhere [OF D U r(1) known enc run, folded N0_def]
  obtain N1 where N1: "leads_to D ids N0 N1" "unrivalled D ids p t ?L N1" using submit(2) by blast
  have last: "?L \<noteq> []" "le_Term (last ?L) = t" by simp_all
  obtain N' where N': "leads_to D ids N1 N'" "\<And>q. q \<in> ids \<Longrightarrow> delivered N' q = numbered ?L"
    by (rule log_gets_delivered [OF D N1(2) r(2) last]) blast
  have "map le_Command ?L = map cmd (xs @ [x])" using xs by simp
  then have "\<forall>q \<in> ids. map fst (delivered N' q) = map cmd (xs @ [x])"
    using N'(2) commands_numbered by metis
  with leads_to_trans [OF N1(1) N'(1)] that submit(1) show thesis unfolding leads_to_def by blast
qed



end
