(* ===== verification/Divergence_Properties.thy ===== *)
theory Divergence_Properties
  imports Cluster_Examples
begin

text \<open>
  Why the schedules are restricted: executions of the five servers in which one kind of step
  comes late, or a server restarts without its vote, and every other step is in time. Each computes from fresh
  databases what two servers deliver at one index, or where a server panics.
\<close>

lemma w_distinct: "w_other \<noteq> w_command" "w_other \<noteq> w_third"
  by (simp_all add: w_command_def w_other_def w_third_def w_user_def)

section \<open>Late steps\<close>

text \<open>
  C22: Servers diverge if a leader may start late. From fresh databases, and with every other
  step in time, an elected server can start as leader after it has voted in a later term; both
  leaders of that term commit, and two servers deliver different commands at index 0.
\<close>

theorem late_start_diverges:
  "\<exists>N pls x y. net_init w_ids w_cluster \<and>
     runs (sched_step (in_time_but leader_start) mem_deps w_ids) w_cluster pls N \<and>
     (Some x, 0) \<in> set (delivered N 1) \<and> (Some y, 0) \<in> set (delivered N 2) \<and> x \<noteq> y"
proof -
  let ?run = "net_run (in_time_but leader_start) mem_deps w_ids w_split_run w_cluster"
  obtain N where N: "?run = Some N" "delivered N 1 = [(Some w_command, 0)]" "delivered N 2 = [(Some w_other, 0)]"
    using w_split_run_result by (cases ?run) auto
  moreover note w_distinct w_cluster_init
  ultimately show ?thesis using net_run_sched [OF N(1)] by force
qed

text \<open>
  C23: Servers diverge if a reply may come late. With every other step in time, a leader can
  count a follower's reply to a request of a leadership it has lost since; it commits an entry
  that no majority has, and two servers deliver different commands at index 1.
\<close>

theorem late_reply_diverges:
  "\<exists>N pls x y. net_init w_ids w_cluster \<and>
     runs (sched_step (in_time_but append_reply) mem_deps w_ids) w_cluster pls N \<and>
     (Some x, 1) \<in> set (delivered N 1) \<and> (Some y, 1) \<in> set (delivered N 2) \<and> x \<noteq> y"
proof -
  let ?run = "net_run (in_time_but append_reply) mem_deps w_ids (w_late_run @ w_late_commit) w_cluster"
  obtain N where N: "?run = Some N" "delivered N 1 = [(Some w_command, 0), (Some w_other, 1)]"
    "delivered N 2 = [(Some w_command, 0), (Some w_third, 1)]"
    using w_late_commit_result by (cases ?run) auto
  moreover note w_distinct w_cluster_init
  ultimately show ?thesis using net_run_sched [OF N(1)] by force
qed

text \<open>
  A late reply ends a leader. With every other step in time, such a reply can leave the
  leader with an index beyond its log, and its next request to that peer panics.
\<close>

lemma late_reply_panics:
  "\<exists>N pls. net_init w_ids w_cluster \<and> runs (sched_step (in_time_but append_reply) mem_deps w_ids) w_cluster pls N \<and>
     cm_state (net_cm N 1) = Leader \<and>
     appendEntries_args (cm_currentTerm (net_cm N 1)) 3 (net_cm N 1) = Inl (Panic Index_Out_Of_Range)"
proof -
  let ?run = "net_run (in_time_but append_reply) mem_deps w_ids w_late_run w_cluster"
  obtain N where N: "?run = Some N" "cm_state (net_cm N 1) = Leader" "cm_currentTerm (net_cm N 1) = 3"
    "appendEntries_args 3 3 (net_cm N 1) = Inl (Panic Index_Out_Of_Range)"
    using w_late_run_result by (cases ?run) auto
  with w_cluster_init show ?thesis using net_run_sched [OF N(1)] by metis
qed

text \<open>
  C24: Servers diverge if a vote reply may come late. With every other step in time, a candidate
  that handles a reply to the vote request of an earlier candidacy goes back to an earlier term
  and votes once more in a term in which it has voted; two leaders of that term commit, and two
  servers deliver different commands at index 0.
\<close>

theorem late_vote_diverges:
  "\<exists>N pls x y. net_init w_ids w_cluster \<and>
     runs (sched_step (in_time_but vote_reply) mem_deps w_ids) w_cluster pls N \<and>
     (Some x, 0) \<in> set (delivered N 3) \<and> (Some y, 0) \<in> set (delivered N 4) \<and> x \<noteq> y"
proof -
  let ?run = "net_run (in_time_but vote_reply) mem_deps w_ids w_lowered_run w_cluster"
  obtain N where N: "?run = Some N" "delivered N 3 = [(Some w_other, 0)]" "delivered N 4 = [(Some w_command, 0)]"
    using w_lowered_result by (cases ?run) auto
  moreover note w_distinct w_cluster_init
  ultimately show ?thesis using net_run_sched [OF N(1)] by force
qed

text \<open>
  C26: A deposed leader can panic. With every step in time, a leader of term 1 is overruled in
  term 2 and its log cut while one of its goroutines is about to send a request; the goroutine
  does not look at the role again, and the index it uses is beyond the log.
\<close>

theorem deposed_leader_panics:
  "\<exists>N. reach mem_deps w_ids N \<and> cm_state (net_cm N 1) = Follower \<and>
     pending (Go_SendAE 1 3) (net_cm N 1) \<and>
     appendEntries_args 1 3 (net_cm N 1) = Inl (Panic Index_Out_Of_Range)"
proof -
  let ?run = "net_run in_time mem_deps w_ids w_deposed_run w_cluster"
  obtain N where N: "?run = Some N" "cm_state (net_cm N 1) = Follower" "pending (Go_SendAE 1 3) (net_cm N 1)"
    "appendEntries_args 1 3 (net_cm N 1) = Inl (Panic Index_Out_Of_Range)"
    using w_deposed_result by (cases ?run) auto
  with net_run_reach [OF N(1) reach_init [OF w_cluster_init]] show ?thesis by blast
qed

section \<open>A restart\<close>

text \<open>
  C25: Servers diverge if one restarts without its vote or without an entry. With every other
  step in time, a server that votes in term 1 and restarts with an empty log restores nothing and
  votes again in term 1; two leaders of that term commit different commands at index 0. And a
  leader that has appended an entry, given up its lock and not yet written its state counts itself
  among the servers that have the entry, commits and delivers it; if it restarts then, the next
  leader is elected without the entry, and another command is delivered at index 1.
\<close>

theorem restart_diverges:
  "(\<exists>N pls x y. net_init w_ids w_cluster \<and>
      runs (sched_step (in_time_but restarts) mem_deps w_ids) w_cluster pls N \<and>
      (Some x, 0) \<in> set (delivered N 3) \<and> (Some y, 0) \<in> set (delivered N 4) \<and> x \<noteq> y) \<and>
   (\<exists>N pls x y. net_init w_ids w_cluster \<and>
      runs (sched_step (in_time_but restarts) mem_deps w_ids) w_cluster pls N \<and>
      (Some x, 1) \<in> set (ever_delivered N 1) \<and> (Some y, 1) \<in> set (delivered N 4) \<and> x \<noteq> y)"
proof
  let ?run = "\<lambda>r. net_run (in_time_but restarts) mem_deps w_ids r w_cluster"
  obtain N where N: "?run w_forgot_run = Some N" "delivered N 3 = [(Some w_other, 0)]"
    "delivered N 4 = [(Some w_command, 0)]"
    using w_forgot_result by (cases "?run w_forgot_run") auto
  obtain M where M: "?run w_unsaved_run = Some M" "ever_delivered M 1 = [(Some w_command, 0), (Some w_third, 1)]"
    "delivered M 4 = [(Some w_command, 0), (Some w_other, 1)]"
    using w_unsaved_result by (cases "?run w_unsaved_run") auto
  show "\<exists>N pls x y. net_init w_ids w_cluster \<and>
      runs (sched_step (in_time_but restarts) mem_deps w_ids) w_cluster pls N \<and>
      (Some x, 0) \<in> set (delivered N 3) \<and> (Some y, 0) \<in> set (delivered N 4) \<and> x \<noteq> y"
    using net_run_sched [OF N(1)] N(2,3) w_distinct w_cluster_init by force
  have "(Some w_third, 1) \<in> set (ever_delivered M 1)" "(Some w_other, 1) \<in> set (delivered M 4)"
    by (simp_all add: M(2,3))
  then show "\<exists>N pls x y. net_init w_ids w_cluster \<and>
      runs (sched_step (in_time_but restarts) mem_deps w_ids) w_cluster pls N \<and>
      (Some x, 1) \<in> set (ever_delivered N 1) \<and> (Some y, 1) \<in> set (delivered N 4) \<and> x \<noteq> y"
    using net_run_sched [OF M(1)] w_distinct(2) w_cluster_init by metis
qed

end
