(* ===== verification/Go_Sync.thy ===== *)
theory Go_Sync
  imports Prelude
begin

text \<open>
  Goroutines that share one mutex and some channels. A goroutine is a program over the
  synchronising operations of its Go code: at each of its points it offers the operations it may
  do next, several of them for a \<open>select\<close> or where the data decide. What is not synchronisation
  is the step \<open>S_Tau\<close>.
\<close>

datatype 'c sync = S_Tau | S_Lock | S_Unlock | S_Send 'c | S_Recv 'c

type_synonym 'c program = "nat \<Rightarrow> ('c sync \<times> nat) list"

text \<open>The mutex with the goroutine that holds it, what the channels buffer, and where each goroutine is.\<close>

record 'c sync_state =
  sy_holder :: "nat option"
  sy_buffer :: "'c \<Rightarrow> nat"
  sy_pc :: "nat \<Rightarrow> nat"

text \<open>An operation of goroutine \<open>g\<close> on its own; \<open>None\<close> is that it blocks.\<close>

fun do_sync :: "('c \<Rightarrow> nat) \<Rightarrow> nat \<Rightarrow> 'c sync \<Rightarrow> 'c sync_state \<Rightarrow> 'c sync_state option" where
  "do_sync cap g S_Tau s = Some s"
| "do_sync cap g S_Lock s = (if sy_holder s = None then Some (s\<lparr>sy_holder := Some g\<rparr>) else None)"
| "do_sync cap g S_Unlock s = (if sy_holder s \<noteq> None then Some (s\<lparr>sy_holder := None\<rparr>) else None)"
| "do_sync cap g (S_Send c) s =
     (if sy_buffer s c < cap c then Some (s\<lparr>sy_buffer := (sy_buffer s)(c := Suc (sy_buffer s c))\<rparr>) else None)"
| "do_sync cap g (S_Recv c) s =
     (if 0 < sy_buffer s c then Some (s\<lparr>sy_buffer := (sy_buffer s)(c := sy_buffer s c - 1)\<rparr>) else None)"

text \<open>
  The scheduler lets a goroutine take its alternative \<open>i\<close>, or two goroutines meet at a channel
  without a buffer.
\<close>

datatype move = Alone nat nat | Meet nat nat nat nat

definition goto :: "nat \<Rightarrow> nat \<Rightarrow> 'c sync_state \<Rightarrow> 'c sync_state" where
  "goto g k s = s\<lparr>sy_pc := (sy_pc s)(g := k)\<rparr>"

definition offers :: "(nat \<Rightarrow> 'c program) \<Rightarrow> 'c sync_state \<Rightarrow> nat \<Rightarrow> nat \<Rightarrow> ('c sync \<times> nat) option" where
  "offers prog s g i = (let as = prog g (sy_pc s g) in if i < length as then Some (as ! i) else None)"

fun sync_move :: "('c \<Rightarrow> nat) \<Rightarrow> (nat \<Rightarrow> 'c program) \<Rightarrow> move \<Rightarrow> 'c sync_state \<Rightarrow> 'c sync_state option" where
  "sync_move cap prog (Alone g i) s =
     (case offers prog s g i of Some (a, k) \<Rightarrow> map_option (goto g k) (do_sync cap g a s) | None \<Rightarrow> None)"
| "sync_move cap prog (Meet g i h j) s =
     (case (offers prog s g i, offers prog s h j) of
        (Some (S_Send c, k), Some (S_Recv d, l)) \<Rightarrow>
          if g \<noteq> h \<and> c = d \<and> cap c = 0 then Some (goto h l (goto g k s)) else None
      | _ \<Rightarrow> None)"

fun sync_moves :: "('c \<Rightarrow> nat) \<Rightarrow> (nat \<Rightarrow> 'c program) \<Rightarrow> move list \<Rightarrow> 'c sync_state \<Rightarrow> 'c sync_state option" where
  "sync_moves cap prog [] s = Some s"
| "sync_moves cap prog (m # ms) s = Option.bind (sync_move cap prog m s) (sync_moves cap prog ms)"

abbreviation sync_step :: "('c \<Rightarrow> nat) \<Rightarrow> (nat \<Rightarrow> 'c program) \<Rightarrow> 'c sync_state \<Rightarrow> move \<Rightarrow> 'c sync_state \<Rightarrow> bool" where
  "sync_step cap prog s m s' \<equiv> sync_move cap prog m s = Some s'"

lemma sync_moves_runs: "sync_moves cap prog ms s = Some s' \<longleftrightarrow> runs (sync_step cap prog) s ms s'"
  by (induction ms arbitrary: s) (auto simp: bind_eq_Some_conv)

lemma goto_simps [simp]: "sy_holder (goto g k s) = sy_holder s" "sy_buffer (goto g k s) = sy_buffer s"
  "sy_pc (goto g k s) = (sy_pc s)(g := k)"
  by (simp_all add: goto_def)

lemma offers_in: "offers prog s g i = Some ak \<Longrightarrow> ak \<in> set (prog g (sy_pc s g))"
  by (auto simp: offers_def Let_def split: if_splits)

lemma offers_ex: "ak \<in> set (prog g (sy_pc s g)) \<Longrightarrow> \<exists>i. offers prog s g i = Some ak"
  by (auto simp: offers_def Let_def in_set_conv_nth)

lemma do_sync_pc: "do_sync cap g a s = Some s' \<Longrightarrow> sy_pc s' = sy_pc s"
  by (cases a) (auto split: if_splits)

text \<open>What a move is: one goroutine and its operation, or two that meet.\<close>

lemma sync_moveE:
  assumes "sync_step cap prog s m s'"
  obtains (alone) g a k s1 where "(a, k) \<in> set (prog g (sy_pc s g))" and "do_sync cap g a s = Some s1"
      and "s' = goto g k s1"
  | (meet) g h c k l where "(S_Send c, k) \<in> set (prog g (sy_pc s g))" and "(S_Recv c, l) \<in> set (prog h (sy_pc s h))"
      and "g \<noteq> h" and "cap c = 0" and "s' = goto h l (goto g k s)"
proof (cases m)
  case (Alone g i)
  with assms that(1) show thesis
    by (auto split: option.splits prod.splits dest!: offers_in)
next
  case (Meet g i h j)
  with assms that(2) show thesis
    by (auto split: option.splits prod.splits sync.splits if_splits dest!: offers_in)
qed

fun takes_part :: "nat \<Rightarrow> move \<Rightarrow> bool" where
  "takes_part g (Alone h i) = (g = h)"
| "takes_part g (Meet h i k j) = (g = h \<or> g = k)"

definition can_move :: "('c \<Rightarrow> nat) \<Rightarrow> (nat \<Rightarrow> 'c program) \<Rightarrow> nat \<Rightarrow> 'c sync_state \<Rightarrow> bool" where
  "can_move cap prog g s \<longleftrightarrow> (\<exists>m s'. takes_part g m \<and> sync_step cap prog s m s')"

lemma can_move_alone:
  assumes "(a, k) \<in> set (prog g (sy_pc s g))" and "do_sync cap g a s \<noteq> None"
  shows "can_move cap prog g s"
proof -
  obtain i where "offers prog s g i = Some (a, k)" using assms(1) by (blast dest: offers_ex)
  with assms(2) show ?thesis unfolding can_move_def by (intro exI [of _ "Alone g i"]) auto
qed

lemma can_move_meet:
  assumes "(S_Send c, k) \<in> set (prog g (sy_pc s g))" and "(S_Recv c, l) \<in> set (prog h (sy_pc s h))"
    and "g \<noteq> h" and "cap c = 0"
  shows "can_move cap prog g s" and "can_move cap prog h s"
proof -
  obtain i j where "offers prog s g i = Some (S_Send c, k)" "offers prog s h j = Some (S_Recv c, l)"
    using assms(1,2) by (blast dest: offers_ex)
  then have "sync_step cap prog s (Meet g i h j) (goto h l (goto g k s))" using assms(3,4) by simp
  then show "can_move cap prog g s" and "can_move cap prog h s"
    unfolding can_move_def by (metis takes_part.simps(2))+
qed

section \<open>The lock discipline\<close>

text \<open>
  Programs whose points are inside or outside of the critical sections: a lock is taken outside
  and leads inside, an unlock leads outside from inside, and nothing else changes sides.
\<close>

locale lock_discipline =
  fixes prog :: "nat \<Rightarrow> 'c program" and inside :: "nat \<Rightarrow> nat \<Rightarrow> bool" and cap :: "'c \<Rightarrow> nat"
  assumes discipline: "(a, k) \<in> set (prog g i) \<Longrightarrow>
    (case a of S_Lock \<Rightarrow> \<not> inside g i \<and> inside g k | S_Unlock \<Rightarrow> inside g i \<and> \<not> inside g k
     | _ \<Rightarrow> inside g k = inside g i)"
begin

definition disciplined :: "'c sync_state \<Rightarrow> bool" where
  "disciplined s \<longleftrightarrow> (\<forall>g. inside g (sy_pc s g) \<longleftrightarrow> sy_holder s = Some g) \<and> (\<forall>c. sy_buffer s c \<le> cap c)"

lemma disciplined_step:
  assumes "sync_step cap prog s m s'" and "disciplined s"
  shows "disciplined s'"
  using assms(1)
proof (cases rule: sync_moveE)
  case (alone g a k s1)
  have less: "n \<le> m \<Longrightarrow> n - Suc 0 \<le> m" for n m by simp
  from alone discipline [OF alone(1)] assms(2) less show ?thesis
    by (cases a) (auto simp: disciplined_def split: if_splits)
next
  case (meet g h c k l)
  with discipline [OF meet(1)] discipline [OF meet(2)] assms(2) show ?thesis
    by (auto simp: disciplined_def)
qed

lemma disciplined_run: "runs (sync_step cap prog) s ms s' \<Longrightarrow> disciplined s \<Longrightarrow> disciplined s'"
  by (erule runs_invariant) (auto intro: disciplined_step)

text \<open>At most one goroutine is inside its critical section.\<close>

lemma exclusive: "disciplined s \<Longrightarrow> inside g (sy_pc s g) \<Longrightarrow> inside h (sy_pc s h) \<Longrightarrow> g = h"
  by (simp add: disciplined_def)

end

end
