(* ===== verification/Server_Sync.thy ===== *)
theory Server_Sync
  imports Go_Sync
begin

text \<open>
  How the goroutines of one server synchronise: \<open>cm.mu\<close>, the mutex of the consensus module, and
  the channels from a commit to the streams. The other theories take a critical section as one
  step and let a send complete at once; here sections are seen to be exclusive, and the states
  are found in which a send holds up the whole server.
\<close>

section \<open>Channels and programs\<close>

datatype chan = Ready | TriggerAE | CommitChan | Broadcast

text \<open>\<open>newCommitReadyChan\<close> and \<open>commitChan\<close> have buffers, \<open>triggerAEChan\<close> and \<open>broadcast\<close> have none.\<close>

fun chan_cap :: "chan \<Rightarrow> nat" where
  "chan_cap Ready = 16"
| "chan_cap TriggerAE = 0"
| "chan_cap CommitChan = 10"
| "chan_cap Broadcast = 0"

datatype role = Main_Loop | Timer | Vote_Call | Short_Section | Append_Handler | Submit_Call | Leader_Loop
  | AE_Call | Forward_Call | Commit_Sender | Commit_Entries | Broadcaster

text \<open>The goroutine started by \<open>startLeader\<close>: requests, then a \<open>select\<close> of the timer and the trigger.\<close>

fun leader_loop_prog :: "chan program" where
  "leader_loop_prog k =
     (if k = 0 then [(S_Lock, 1)]
      else if k = 1 then [(S_Unlock, 2)]
      else if k = 2 then [(S_Tau, 3), (S_Recv TriggerAE, 3)]
      else if k = 3 then [(S_Lock, 4)]
      else if k = 4 then [(S_Unlock, 0), (S_Unlock, 5)]
      else [])"

text \<open>
  The goroutine of one append request: it builds the request, waits for the reply, and announces
  a commit, if there is one, on both channels before its deferred unlock.
\<close>

fun ae_call_prog :: "chan program" where
  "ae_call_prog k =
     (if k = 0 then [(S_Lock, 1)]
      else if k = 1 then [(S_Unlock, 2)]
      else if k = 2 then [(S_Tau, 3), (S_Tau, 8)]
      else if k = 3 then [(S_Lock, 4)]
      else if k = 4 then [(S_Tau, 5), (S_Tau, 7)]
      else if k = 5 then [(S_Send Ready, 6)]
      else if k = 6 then [(S_Send TriggerAE, 7)]
      else if k = 7 then [(S_Unlock, 8)]
      else [])"

text \<open>\<open>AppendEntriesHelper\<close>, called for one request.\<close>

fun append_handler_prog :: "chan program" where
  "append_handler_prog k =
     (if k = 0 then [(S_Lock, 1)]
      else if k = 1 then [(S_Tau, 2), (S_Tau, 3)]
      else if k = 2 then [(S_Send Ready, 3)]
      else if k = 3 then [(S_Unlock, 4)]
      else [])"

text \<open>\<open>Submit\<close>: a leader triggers its loop, after the unlock.\<close>

fun submit_prog :: "chan program" where
  "submit_prog k =
     (if k = 0 then [(S_Lock, 1)]
      else if k = 1 then [(S_Unlock, 2), (S_Unlock, 3)]
      else if k = 2 then [(S_Send TriggerAE, 3)]
      else [])"

fun vote_call_prog :: "chan program" where
  "vote_call_prog k =
     (if k = 0 then [(S_Lock, 1)]
      else if k = 1 then [(S_Unlock, 2)]
      else if k = 2 then [(S_Tau, 3), (S_Tau, 5)]
      else if k = 3 then [(S_Lock, 4)]
      else if k = 4 then [(S_Unlock, 5)]
      else [])"

fun timer_prog :: "chan program" where
  "timer_prog k =
     (if k = 0 then [(S_Lock, 1)]
      else if k = 1 then [(S_Unlock, 2)]
      else if k = 2 then [(S_Tau, 3)]
      else if k = 3 then [(S_Lock, 4)]
      else if k = 4 then [(S_Unlock, 2), (S_Unlock, 5)]
      else [])"

text \<open>The main loop sets the reset time under the lock and runs a timer in every round.\<close>

fun main_loop_prog :: "chan program" where
  "main_loop_prog k =
     (if k = 0 then [(S_Lock, 1)]
      else if k = 1 then [(S_Unlock, 2)]
      else if k = 2 then [(S_Lock, 3)]
      else if k = 3 then [(S_Unlock, 4)]
      else if k = 4 then [(S_Tau, 5)]
      else if k = 5 then [(S_Lock, 6)]
      else if k = 6 then [(S_Unlock, 4), (S_Unlock, 0)]
      else [])"

fun forward_call_prog :: "chan program" where
  "forward_call_prog k =
     (if k = 0 then [(S_Lock, 1)]
      else if k = 1 then [(S_Unlock, 2)]
      else if k = 2 then [(S_Tau, 3), (S_Tau, 4)]
      else if k = 3 then [(S_Send Ready, 4)]
      else [])"

text \<open>\<open>RequestVoteHelper\<close> and \<open>Report\<close>: one section without a channel.\<close>

fun short_section_prog :: "chan program" where
  "short_section_prog k =
     (if k = 0 then [(S_Lock, 1)]
      else if k = 1 then [(S_Unlock, 2)]
      else [])"

fun commit_sender_prog :: "chan program" where
  "commit_sender_prog k =
     (if k = 0 then [(S_Recv Ready, 1)]
      else if k = 1 then [(S_Lock, 2)]
      else if k = 2 then [(S_Unlock, 3)]
      else if k = 3 then [(S_Tau, 4), (S_Tau, 0)]
      else if k = 4 then [(S_Send CommitChan, 3)]
      else [])"

text \<open>\<open>commitEntries\<close> with \<open>persistData\<close>: no, one or two groups are announced for an entry.\<close>

fun commit_entries_prog :: "chan program" where
  "commit_entries_prog k =
     (if k = 0 then [(S_Recv CommitChan, 1)]
      else if k = 1 then [(S_Tau, 0), (S_Tau, 2), (S_Tau, 3)]
      else if k = 2 then [(S_Send Broadcast, 3)]
      else if k = 3 then [(S_Send Broadcast, 0)]
      else [])"

text \<open>\<open>BroadCast\<close> sends to the streams of the group, step 1, before it receives again.\<close>

fun broadcaster_prog :: "chan program" where
  "broadcaster_prog k =
     (if k = 0 then [(S_Recv Broadcast, 1)]
      else if k = 1 then [(S_Tau, 0)]
      else [])"

fun program_of :: "role \<Rightarrow> chan program" where
  "program_of Main_Loop = main_loop_prog"
| "program_of Timer = timer_prog"
| "program_of Vote_Call = vote_call_prog"
| "program_of Short_Section = short_section_prog"
| "program_of Append_Handler = append_handler_prog"
| "program_of Submit_Call = submit_prog"
| "program_of Leader_Loop = leader_loop_prog"
| "program_of AE_Call = ae_call_prog"
| "program_of Forward_Call = forward_call_prog"
| "program_of Commit_Sender = commit_sender_prog"
| "program_of Commit_Entries = commit_entries_prog"
| "program_of Broadcaster = broadcaster_prog"

text \<open>The points between a lock and its unlock.\<close>

fun in_section :: "role \<Rightarrow> nat \<Rightarrow> bool" where
  "in_section Main_Loop k = (k \<in> {1, 3, 6})"
| "in_section Timer k = (k \<in> {1, 4})"
| "in_section Vote_Call k = (k \<in> {1, 4})"
| "in_section Short_Section k = (k = 1)"
| "in_section Append_Handler k = (k \<in> {1, 2, 3})"
| "in_section Submit_Call k = (k = 1)"
| "in_section Leader_Loop k = (k \<in> {1, 4})"
| "in_section AE_Call k = (k \<in> {1, 4, 5, 6, 7})"
| "in_section Forward_Call k = (k = 1)"
| "in_section Commit_Sender k = (k = 2)"
| "in_section Commit_Entries k = False"
| "in_section Broadcaster k = False"

text \<open>A server whose goroutine \<open>g\<close> has the role \<open>roles g\<close>, all at their start.\<close>

abbreviation server_step :: "(nat \<Rightarrow> role) \<Rightarrow> chan sync_state \<Rightarrow> move \<Rightarrow> chan sync_state \<Rightarrow> bool" where
  "server_step roles \<equiv> sync_step chan_cap (\<lambda>g. program_of (roles g))"

definition sync_init :: "chan sync_state" where
  "sync_init = \<lparr>sy_holder = None, sy_buffer = \<lambda>_. 0, sy_pc = \<lambda>_. 0\<rparr>"

lemma program_discipline:
  "(a, k) \<in> set (program_of r i) \<Longrightarrow>
   (case a of S_Lock \<Rightarrow> \<not> in_section r i \<and> in_section r k | S_Unlock \<Rightarrow> in_section r i \<and> \<not> in_section r k
    | _ \<Rightarrow> in_section r k = in_section r i)"
  by (cases r) (auto split: if_splits)

interpretation server: lock_discipline "\<lambda>g. program_of (roles g)" "\<lambda>g. in_section (roles g)" chan_cap
  for roles :: "nat \<Rightarrow> role"
  by unfold_locales (rule program_discipline)

text \<open>Every channel has one kind of receiver; the channels without a buffer have one or two kinds of sender.\<close>

lemma receiver:
  "(S_Recv c, k) \<in> set (program_of r i) \<Longrightarrow>
   (case c of Ready \<Rightarrow> r = Commit_Sender \<and> i = 0 | TriggerAE \<Rightarrow> r = Leader_Loop \<and> i = 2
    | CommitChan \<Rightarrow> r = Commit_Entries \<and> i = 0 | Broadcast \<Rightarrow> r = Broadcaster \<and> i = 0)"
  by (cases r) (auto split: if_splits)

lemma sender:
  "(S_Send c, k) \<in> set (program_of r i) \<Longrightarrow>
   (case c of Ready \<Rightarrow> r \<in> {Append_Handler, AE_Call, Forward_Call} | TriggerAE \<Rightarrow> r \<in> {Submit_Call, AE_Call}
    | CommitChan \<Rightarrow> r = Commit_Sender \<and> i = 4 | Broadcast \<Rightarrow> r = Commit_Entries \<and> i \<in> {2, 3})"
  by (cases r) (auto split: if_splits)

lemma disciplined_init: "server.disciplined roles sync_init"
proof -
  have "\<not> in_section r 0" for r by (cases r) simp_all
  then show ?thesis by (simp add: server.disciplined_def sync_init_def)
qed

lemma disciplined_reach: "runs (server_step roles) sync_init ms s \<Longrightarrow> server.disciplined roles s"
  by (rule server.disciplined_run [OF _ disciplined_init])

end
