(* ===== verification/Sync_Properties.thy ===== *)
theory Sync_Properties
  imports Server_Sync
begin

text \<open>
  What the mutex and the channels of a server allow: sections are exclusive, the mutex is given
  back except in three states, and two of these last for ever.
\<close>

section \<open>The mutex\<close>

lemma holder_inside:
  assumes "server.disciplined roles s" and "sy_holder s = Some g"
  shows "in_section (roles g) (sy_pc s g)"
  using assms by (simp add: server.disciplined_def)

text \<open>Inside its section a goroutine can go on unless it sends.\<close>

lemma section_moves:
  assumes "sy_holder s = Some g" and "in_section (roles g) (sy_pc s g)"
    and "\<not> (roles g = Append_Handler \<and> sy_pc s g = 2)" and "\<not> (roles g = AE_Call \<and> sy_pc s g \<in> {5, 6})"
  shows "can_move chan_cap (\<lambda>g. program_of (roles g)) g s"
proof -
  have "\<exists>k. (S_Unlock, k) \<in> set (program_of (roles g) (sy_pc s g)) \<or> (S_Tau, k) \<in> set (program_of (roles g) (sy_pc s g))"
    using assms(2-4) by (cases "roles g") auto
  then obtain a k where "(a, k) \<in> set (program_of (roles g) (sy_pc s g))" and "a = S_Unlock \<or> a = S_Tau" by blast
  then show ?thesis using assms(1) by (intro can_move_alone [of a k]) auto
qed

lemma send_ready_moves:
  assumes "(S_Send Ready, k) \<in> set (program_of (roles g) (sy_pc s g))" and "sy_buffer s Ready < 16"
  shows "can_move chan_cap (\<lambda>g. program_of (roles g)) g s"
  using assms by (intro can_move_alone [of "S_Send Ready" k]) auto

text \<open>
  C17: Critical sections are exclusive, and a goroutine gives the mutex back unless it waits to
  send. In every state of a server at most one goroutine is between a lock and the unlock of the
  consensus module's mutex, and no channel holds more than its capacity. The goroutine that
  holds the mutex can move, except that a handler of an append request, or of a reply to one,
  may wait for the commit sender while sixteen signals are pending, or the latter for a
  heartbeat loop none of which is at its select.
\<close>

theorem critical_sections:
  assumes "runs (server_step roles) sync_init ms s"
  shows "(\<forall>g h. in_section (roles g) (sy_pc s g) \<and> in_section (roles h) (sy_pc s h) \<longrightarrow> g = h) \<and>
    (\<forall>c. sy_buffer s c \<le> chan_cap c) \<and>
    (\<forall>g. sy_holder s = Some g \<longrightarrow> in_section (roles g) (sy_pc s g) \<and>
      (can_move chan_cap (\<lambda>g. program_of (roles g)) g s \<or>
       sy_buffer s Ready = 16 \<and> (roles g = Append_Handler \<and> sy_pc s g = 2 \<or> roles g = AE_Call \<and> sy_pc s g = 5) \<or>
       roles g = AE_Call \<and> sy_pc s g = 6 \<and> (\<forall>l. roles l = Leader_Loop \<longrightarrow> sy_pc s l \<noteq> 2)))"
proof -
  have ok: "server.disciplined roles s" by (rule disciplined_reach [OF assms])
  have "can_move chan_cap (\<lambda>g. program_of (roles g)) g s \<or>
      sy_buffer s Ready = 16 \<and> (roles g = Append_Handler \<and> sy_pc s g = 2 \<or> roles g = AE_Call \<and> sy_pc s g = 5) \<or>
      roles g = AE_Call \<and> sy_pc s g = 6 \<and> (\<forall>l. roles l = Leader_Loop \<longrightarrow> sy_pc s l \<noteq> 2)"
    if g: "sy_holder s = Some g" for g
  proof -
    have le: "sy_buffer s Ready \<le> 16" using ok by (simp add: server.disciplined_def) (metis chan_cap.simps(1))
    consider (ready) "roles g = Append_Handler \<and> sy_pc s g = 2 \<or> roles g = AE_Call \<and> sy_pc s g = 5"
      | (trigger) "roles g = AE_Call" "sy_pc s g = 6"
      | (other) "\<not> (roles g = Append_Handler \<and> sy_pc s g = 2)" "\<not> (roles g = AE_Call \<and> sy_pc s g \<in> {5, 6})"
      by blast
    then show ?thesis
    proof cases
      case ready
      show ?thesis
      proof (cases "sy_buffer s Ready = 16")
        case False
        have "\<exists>k. (S_Send Ready, k) \<in> set (program_of (roles g) (sy_pc s g))" using ready by auto
        with send_ready_moves [of _ roles g s] False le show ?thesis by auto
      qed (use ready in blast)
    next
      case trigger
      show ?thesis
      proof (cases "\<exists>l. roles l = Leader_Loop \<and> sy_pc s l = 2")
        case True
        then obtain l where l: "roles l = Leader_Loop" "sy_pc s l = 2" by blast
        with trigger have "g \<noteq> l" by auto
        with trigger l show ?thesis by (intro disjI1 can_move_meet(1) [of TriggerAE 7 _ g s 3 l]) simp_all
      qed (use trigger in blast)
    next
      case other
      with section_moves [of s g roles] g holder_inside [OF ok g] show ?thesis by blast
    qed
  qed
  with ok holder_inside [OF ok] show ?thesis
    by (auto simp: server.disciplined_def)
qed

text \<open>A handler of an append request inside its section, and another that waits for it.\<close>

theorem critical_sections_witness:
  "\<exists>s. runs (server_step (\<lambda>_. Append_Handler)) sync_init [Alone 4 0, Alone 4 0] s \<and> sy_holder s = Some 4 \<and>
     can_move chan_cap (\<lambda>_. program_of Append_Handler) 4 s \<and> \<not> in_section Append_Handler (sy_pc s 5)"
proof -
  let ?P = "\<lambda>_ :: nat. program_of Append_Handler"
  have "map_option (\<lambda>s. (sy_holder s, sy_pc s 4, sy_buffer s Ready)) (sync_moves chan_cap ?P [Alone 4 0, Alone 4 0] sync_init) =
      Some (Some 4, 2, 0)" by code_simp
  then obtain s where s: "sync_moves chan_cap ?P [Alone 4 0, Alone 4 0] sync_init = Some s"
    and res: "sy_holder s = Some 4" "sy_pc s 4 = 2" "sy_buffer s Ready = 0" by auto
  have run: "runs (server_step (\<lambda>_. Append_Handler)) sync_init [Alone 4 0, Alone 4 0] s"
    using s by (simp only: sync_moves_runs)
  note c = critical_sections [OF run]
  have "can_move chan_cap ?P 4 s"
    using conjunct2 [OF conjunct2 [OF c]] res by simp
  moreover have "\<not> in_section Append_Handler (sy_pc s 5)"
  proof
    assume "in_section Append_Handler (sy_pc s 5)"
    with conjunct1 [OF c, rule_format, of 4 5] res show False by simp
  qed
  ultimately show ?thesis using run res(1) by blast
qed

section \<open>States that last\<close>

text \<open>What a goroutine outside its section can do while another holds the mutex.\<close>

lemma outside_moves:
  assumes "server.disciplined roles s" and "sy_holder s = Some h" and "g \<noteq> h"
    and "(a, k) \<in> set (program_of (roles g) (sy_pc s g))" and "do_sync chan_cap g a s = Some s'"
  shows "a = S_Tau \<or> (\<exists>c. a = S_Send c \<and> sy_buffer s c < chan_cap c) \<or> (\<exists>c. a = S_Recv c \<and> 0 < sy_buffer s c)"
    and "sy_holder s' = Some h" and "\<not> in_section (roles g) k"
proof -
  have out: "\<not> in_section (roles g) (sy_pc s g)" using assms(1-3) by (simp add: server.disciplined_def)
  note d = program_discipline [OF assms(4)]
  show "a = S_Tau \<or> (\<exists>c. a = S_Send c \<and> sy_buffer s c < chan_cap c) \<or> (\<exists>c. a = S_Recv c \<and> 0 < sy_buffer s c)"
    using assms(2,5) d out by (cases a) (auto split: if_splits)
  show "sy_holder s' = Some h" and "\<not> in_section (roles g) k"
    using assms(2,5) d out by (cases a; auto split: if_splits)+
qed

text \<open>The leader's reply handler waits for a heartbeat loop that waits for the mutex.\<close>

definition leader_stuck :: "(nat \<Rightarrow> role) \<Rightarrow> nat \<Rightarrow> chan sync_state \<Rightarrow> bool" where
  "leader_stuck roles h s \<longleftrightarrow> server.disciplined roles s \<and> sy_holder s = Some h \<and>
     roles h = AE_Call \<and> sy_pc s h = 6 \<and> (\<forall>l. roles l = Leader_Loop \<longrightarrow> sy_pc s l \<noteq> 2)"

lemma leader_stuck_loops:
  assumes "leader_stuck roles h s" and "roles l = Leader_Loop" and "(a, k) \<in> set (program_of (roles l) (sy_pc s l))"
  shows "a = S_Lock"
proof -
  have "l \<noteq> h" using assms(1,2) by (auto simp: leader_stuck_def)
  then have "\<not> in_section Leader_Loop (sy_pc s l)" and "sy_pc s l \<noteq> 2"
    using assms(1,2) by (auto simp: leader_stuck_def server.disciplined_def)
  with assms(2,3) show ?thesis by (auto split: if_splits)
qed

lemma leader_stuck_step:
  assumes "server_step roles s m s'" and st: "leader_stuck roles h s"
  shows "leader_stuck roles h s' \<and> (\<forall>l. roles l = Leader_Loop \<or> l = h \<longrightarrow> sy_pc s' l = sy_pc s l)"
proof -
  have ok: "server.disciplined roles s" and h: "sy_holder s = Some h" "roles h = AE_Call" "sy_pc s h = 6"
    and loops: "\<forall>l. roles l = Leader_Loop \<longrightarrow> sy_pc s l \<noteq> 2"
    using st by (simp_all add: leader_stuck_def)
  have ok': "server.disciplined roles s'" by (rule server.disciplined_step [OF assms(1) ok])
  from assms(1) show ?thesis
  proof (cases rule: sync_moveE)
    case (alone g a k s1)
    have g: "g \<noteq> h" using alone(1,2) h by auto
    note out = outside_moves [OF ok h(1) g alone(1,2)]
    have "roles g \<noteq> Leader_Loop" using leader_stuck_loops [OF st _ alone(1)] out(1) by auto
    then have "sy_pc s' l = sy_pc s l" if "roles l = Leader_Loop \<or> l = h" for l
      using that g alone(3) do_sync_pc [OF alone(2)] by auto
    with ok' out(2) h(2,3) loops alone(3) show ?thesis by (auto simp: leader_stuck_def)
  next
    case (meet g g' c k k')
    have "c \<noteq> TriggerAE" using receiver [OF meet(2)] loops by auto
    then have "c = Broadcast" using meet(4) by (cases c) simp_all
    then have "roles g = Commit_Entries" "roles g' = Broadcaster" using sender [OF meet(1)] receiver [OF meet(2)] by auto
    then have "sy_pc s' l = sy_pc s l" if "roles l = Leader_Loop \<or> l = h" for l
      using that h(2) meet(5) by auto
    with ok' h loops meet(5) show ?thesis by (auto simp: leader_stuck_def)
  qed
qed

lemma leader_stuck_run:
  assumes "runs (server_step roles) s ms s'" and "leader_stuck roles h s"
  shows "leader_stuck roles h s' \<and> (\<forall>l. roles l = Leader_Loop \<or> l = h \<longrightarrow> sy_pc s' l = sy_pc s l)"
  using assms
proof (induction rule: runs.induct)
  case (runs_cons s m s1 ms s2)
  with leader_stuck_step [OF runs_cons.hyps(1) runs_cons.prems] show ?case by metis
qed simp

text \<open>
  C27: A leader can lock itself up. In a server with one heartbeat loop and a reply to an append
  request that commits an entry, there is an execution after which the handler of the reply
  holds the mutex and waits for the loop, which waits for the mutex; in every later state both
  are where they were, and no goroutine is in a critical section any more.
\<close>

theorem leader_deadlock:
  assumes "roles l = Leader_Loop" and "roles h = AE_Call" and "\<forall>g. roles g = Leader_Loop \<longrightarrow> g = l"
  shows "\<exists>ms s. runs (server_step roles) sync_init ms s \<and>
    (\<forall>ms' s'. runs (server_step roles) s ms' s' \<longrightarrow> sy_holder s' = Some h \<and> sy_pc s' l = 3 \<and> sy_pc s' h = 6 \<and>
       (\<forall>g. g \<noteq> h \<longrightarrow> \<not> in_section (roles g) (sy_pc s' g)))"
proof -
  let ?ms = "[Alone l 0, Alone l 0, Alone h 0, Alone h 0, Alone h 0, Alone h 0, Alone h 0, Alone h 0, Alone l 0]"
  have lh: "l \<noteq> h" "h \<noteq> l" using assms(1,2) by auto
  obtain s where moves: "sync_moves chan_cap (\<lambda>g. program_of (roles g)) ?ms sync_init = Some s"
    and s: "sy_holder s = Some h" "sy_pc s l = 3" "sy_pc s h = 6"
    using assms(1,2) lh by (simp add: offers_def Let_def sync_init_def)
  then have run: "runs (server_step roles) sync_init ?ms s" by (simp only: sync_moves_runs)
  have "sy_pc s g \<noteq> 2" if "roles g = Leader_Loop" for g using assms(3) that s(2) by auto
  then have st: "leader_stuck roles h s"
    using disciplined_reach [OF run] s assms(2) by (simp add: leader_stuck_def)
  have "sy_holder s' = Some h \<and> sy_pc s' l = 3 \<and> sy_pc s' h = 6 \<and>
      (\<forall>g. g \<noteq> h \<longrightarrow> \<not> in_section (roles g) (sy_pc s' g))"
    if "runs (server_step roles) s ms' s'" for ms' s'
    using leader_stuck_run [OF that st] s assms(1) by (auto simp: leader_stuck_def server.disciplined_def)
  with run show ?thesis by blast
qed

text \<open>A leader whose loop is goroutine 0; all others handle replies.\<close>

definition w_leader_roles :: "nat \<Rightarrow> role" where
  "w_leader_roles g = (if g = 0 then Leader_Loop else AE_Call)"

theorem leader_deadlock_witness:
  "\<exists>ms s. runs (server_step w_leader_roles) sync_init ms s \<and> sy_holder s = Some 1 \<and> sy_pc s 0 = 3"
proof -
  have roles: "w_leader_roles 0 = Leader_Loop" "w_leader_roles 1 = AE_Call" "\<forall>g. w_leader_roles g = Leader_Loop \<longrightarrow> g = 0"
    by (simp_all add: w_leader_roles_def)
  obtain ms s where run: "runs (server_step w_leader_roles) sync_init ms s"
    and stuck: "\<forall>ms' s'. runs (server_step w_leader_roles) s ms' s' \<longrightarrow>
       sy_holder s' = Some 1 \<and> sy_pc s' 0 = 3 \<and> sy_pc s' 1 = 6 \<and>
       (\<forall>g. g \<noteq> 1 \<longrightarrow> \<not> in_section (w_leader_roles g) (sy_pc s' g))"
    using leader_deadlock [OF roles] by blast
  from stuck [rule_format, OF runs_nil] run show ?thesis by blast
qed

section \<open>A client that does not read\<close>

text \<open>
  The broadcaster is in a \<open>Send\<close> to a stream, every buffer before it is full, and the handler of
  an append request holds the mutex.
\<close>

definition backed_up :: "(nat \<Rightarrow> role) \<Rightarrow> nat \<Rightarrow> chan sync_state \<Rightarrow> bool" where
  "backed_up roles h s \<longleftrightarrow> server.disciplined roles s \<and> sy_holder s = Some h \<and> roles h = Append_Handler \<and>
     sy_pc s h = 2 \<and> sy_buffer s Ready = 16 \<and> sy_buffer s CommitChan = 10 \<and>
     (\<forall>g. roles g = Commit_Sender \<longrightarrow> sy_pc s g = 4) \<and> (\<forall>g. roles g = Commit_Entries \<longrightarrow> sy_pc s g = 3) \<and>
     (\<forall>g. roles g = Broadcaster \<longrightarrow> sy_pc s g = 1)"

lemma backed_up_step:
  assumes "server_step roles s m s'" and st: "backed_up roles h s"
    and quiet: "\<forall>g. roles g = Broadcaster \<longrightarrow> \<not> takes_part g m"
  shows "backed_up roles h s' \<and> sy_pc s' h = sy_pc s h"
proof -
  have ok: "server.disciplined roles s" and h: "sy_holder s = Some h" "roles h = Append_Handler" "sy_pc s h = 2"
    and full: "sy_buffer s Ready = 16" "sy_buffer s CommitChan = 10"
    and at: "\<And>g. roles g = Commit_Sender \<Longrightarrow> sy_pc s g = 4" "\<And>g. roles g = Commit_Entries \<Longrightarrow> sy_pc s g = 3"
      "\<And>g. roles g = Broadcaster \<Longrightarrow> sy_pc s g = 1"
    using st by (simp_all add: backed_up_def)
  have ok': "server.disciplined roles s'" by (rule server.disciplined_step [OF assms(1) ok])
  show ?thesis
  proof (cases m)
    case (Alone g i)
    then obtain a k s1 where a: "(a, k) \<in> set (program_of (roles g) (sy_pc s g))" and d: "do_sync chan_cap g a s = Some s1"
      and s': "s' = goto g k s1"
      using assms(1) by (auto split: option.splits prod.splits dest!: offers_in)
    have g: "g \<noteq> h" using a d h full(1) by auto
    note out = outside_moves [OF ok h(1) g a d]
    have tau: "a = S_Tau"
    proof (rule ccontr)
      assume "a \<noteq> S_Tau"
      with out(1) consider c where "a = S_Send c" "sy_buffer s c < chan_cap c" | c where "a = S_Recv c" "0 < sy_buffer s c"
        by blast
      then show False
      proof cases
        case (1 c)
        with full show False by (cases c) simp_all
      next
        case (2 c)
        have "sy_buffer s c \<le> chan_cap c" using ok by (simp add: server.disciplined_def)
        with 2 at receiver [of c k "roles g" "sy_pc s g"] a show False by (cases c) auto
      qed
    qed
    have "roles g \<notin> {Commit_Sender, Commit_Entries}" using a at [of g] tau by auto
    moreover have "roles g \<noteq> Broadcaster" using quiet Alone by auto
    ultimately show ?thesis
      using ok' out(2) h full at g d s' tau by (auto simp: backed_up_def)
  next
    case (Meet g i g' j)
    then obtain c k l where "(S_Recv c, l) \<in> set (program_of (roles g') (sy_pc s g'))"
      and "(S_Send c, k) \<in> set (program_of (roles g) (sy_pc s g))" and cap: "chan_cap c = 0"
      and s': "s' = goto g' l (goto g k s)"
      using assms(1) by (auto split: option.splits prod.splits sync.splits if_splits dest!: offers_in)
    note r = receiver [OF this(1)] and w = sender [OF this(2)]
    have "roles g' \<noteq> Broadcaster" using quiet Meet by auto
    then have "c = TriggerAE" using r cap by (cases c) simp_all
    then have "roles g' = Leader_Loop" "roles g \<in> {Submit_Call, AE_Call}" using r w by auto
    then show ?thesis using ok' h full at s' by (auto simp: backed_up_def)
  qed
qed

lemma backed_up_run:
  assumes "runs (server_step roles) s ms s'" and "backed_up roles h s"
    and "\<forall>m \<in> set ms. \<forall>g. roles g = Broadcaster \<longrightarrow> \<not> takes_part g m"
  shows "backed_up roles h s'"
  using assms
proof (induction rule: runs.induct)
  case (runs_cons s m s1 ms s2)
  with backed_up_step [OF runs_cons.hyps(1) runs_cons.prems(1)] show ?case by simp
qed

text \<open>
  One goroutine sends commits, one applies them, one broadcasts, and every other one handles an
  append request that commits an entry. The moves of a handler, of the sender for one entry, and
  of the other two.
\<close>

definition w_roles :: "nat \<Rightarrow> role" where
  "w_roles g = (if g = 0 then Commit_Sender else if g = 1 then Commit_Entries
     else if g = 2 then Broadcaster else Append_Handler)"

definition w_handled :: "nat \<Rightarrow> move list" where
  "w_handled g = [Alone g 0, Alone g 0, Alone g 0, Alone g 0]"

definition w_sent :: "move list" where
  "w_sent = [Alone 0 0, Alone 0 0, Alone 0 0, Alone 0 0, Alone 0 0, Alone 0 1]"

definition w_applied :: "move list" where
  "w_applied = [Alone 1 0, Alone 1 2]"

definition w_backing_up :: "move list" where
  "w_backing_up =
     w_handled 3 @ w_sent @ w_applied @ [Meet 1 0 2 0] @ w_handled 4 @ w_sent @ w_applied @
     concat (map (\<lambda>g. w_handled g @ w_sent) [5..<15]) @ w_handled 15 @ take 4 w_sent @
     concat (map w_handled [16..<32]) @ take 2 (w_handled 32)"

lemma w_backing_up_result:
  "map_option (\<lambda>s. (sy_holder s, sy_pc s 32, sy_buffer s Ready, sy_buffer s CommitChan, sy_pc s 0, sy_pc s 1, sy_pc s 2))
     (sync_moves chan_cap (\<lambda>g. program_of (w_roles g)) w_backing_up sync_init) =
     Some (Some 32, 2, 16, 10, 4, 3, 1)"
  by code_simp

lemma w_roles_special: "w_roles g = Commit_Sender \<longleftrightarrow> g = 0" "w_roles g = Commit_Entries \<longleftrightarrow> g = 1"
  "w_roles g = Broadcaster \<longleftrightarrow> g = 2" "w_roles 32 = Append_Handler"
  by (simp_all add: w_roles_def)

text \<open>
  C28: One client that does not read stops a server. In a server with its commit sender, its
  applier and its broadcaster there is an execution in which the broadcaster has begun to send
  to a stream, thirty entries are committed meanwhile, and the handler of an append request
  waits for room in a channel while it holds the mutex. As long as that one send does not
  return, the handler keeps the mutex, and no other goroutine enters a critical section: the
  server answers no vote, no append request and no client any more.
\<close>

theorem stalled_client_stops_server:
  "\<exists>ms s. runs (server_step w_roles) sync_init ms s \<and> sy_holder s = Some 32 \<and>
    (\<forall>ms' s'. runs (server_step w_roles) s ms' s' \<and> (\<forall>m \<in> set ms'. \<not> takes_part 2 m) \<longrightarrow>
       sy_holder s' = Some 32 \<and> sy_pc s' 32 = 2 \<and> (\<forall>g. g \<noteq> 32 \<longrightarrow> \<not> in_section (w_roles g) (sy_pc s' g)))"
proof -
  obtain s where moves: "sync_moves chan_cap (\<lambda>g. program_of (w_roles g)) w_backing_up sync_init = Some s"
    and s: "sy_holder s = Some 32" "sy_pc s 32 = 2" "sy_buffer s Ready = 16" "sy_buffer s CommitChan = 10"
      "sy_pc s 0 = 4" "sy_pc s 1 = 3" "sy_pc s 2 = 1"
    using w_backing_up_result by auto
  then have run: "runs (server_step w_roles) sync_init w_backing_up s" by (simp only: sync_moves_runs)
  have st: "backed_up w_roles 32 s"
    using disciplined_reach [OF run] s by (simp add: backed_up_def w_roles_special)
  have "sy_holder s' = Some 32 \<and> sy_pc s' 32 = 2 \<and> (\<forall>g. g \<noteq> 32 \<longrightarrow> \<not> in_section (w_roles g) (sy_pc s' g))"
    if "runs (server_step w_roles) s ms' s'" "\<forall>m \<in> set ms'. \<not> takes_part 2 m" for ms' s'
    using backed_up_run [OF that(1) st] that(2)
    by (simp add: backed_up_def server.disciplined_def w_roles_special)
  with run s(1) show ?thesis by blast
qed

theorem stalled_client_stops_server_witness:
  "\<exists>ms s. runs (server_step w_roles) sync_init ms s \<and> sy_holder s = Some 32 \<and> sy_pc s 32 = 2 \<and>
     \<not> in_section (w_roles 33) (sy_pc s 33)"
proof -
  obtain ms s where run: "runs (server_step w_roles) sync_init ms s"
    and later: "\<forall>ms' s'. runs (server_step w_roles) s ms' s' \<and> (\<forall>m \<in> set ms'. \<not> takes_part 2 m) \<longrightarrow>
       sy_holder s' = Some 32 \<and> sy_pc s' 32 = 2 \<and> (\<forall>g. g \<noteq> 32 \<longrightarrow> \<not> in_section (w_roles g) (sy_pc s' g))"
    using stalled_client_stops_server by blast
  have "runs (server_step w_roles) s [] s" by (rule runs_nil)
  with later [rule_format, of "[]" s]
  have "sy_holder s = Some 32 \<and> sy_pc s 32 = 2 \<and> (\<forall>g. g \<noteq> 32 \<longrightarrow> \<not> in_section (w_roles g) (sy_pc s g))" by simp
  with run show ?thesis by (intro exI [of _ ms] exI [of _ s]) simp
qed

end
