(* ===== verification/Raft_Timer.thy ===== *)
theory Raft_Timer
  imports Raft_Election Examples
begin

text \<open>
  \<open>server/raft.go\<close>: the loop of \<open>runElectionTimer\<close> as a whole. Between two ticks the other
  goroutines of the server run, so what the timer sees at its ticks, the time and the module
  under its lock, is an argument. The loop may go on for ever, hence \<open>partial_function\<close>; the
  property says when it does and when it ends.
\<close>

section \<open>The loop\<close>

partial_function (option) timer_loop ::
  "int \<Rightarrow> int \<Rightarrow> (nat \<Rightarrow> int \<times> 's ConsensusModule) \<Rightarrow> nat \<Rightarrow> ('s ConsensusModule \<times> nat) option" where
  "timer_loop termStarted timeoutDuration seen k =
     (let r = electionTick (fst (seen k)) termStarted timeoutDuration (snd (seen k))
      in if snd r then Some (fst r, k) else timer_loop termStarted timeoutDuration seen (Suc k))"

text \<open>\<open>r\<close> is the random part of the timeout and \<open>cm\<close> the module when the timer is started.\<close>

definition runElectionTimer ::
  "int \<Rightarrow> 's ConsensusModule \<Rightarrow> (nat \<Rightarrow> int \<times> 's ConsensusModule) \<Rightarrow> ('s ConsensusModule \<times> nat) option" where
  "runElectionTimer r cm seen = timer_loop (cm_currentTerm cm) (electionTimeout r) seen 0"

definition ends_at :: "int \<Rightarrow> int \<Rightarrow> (nat \<Rightarrow> int \<times> 's ConsensusModule) \<Rightarrow> nat \<Rightarrow> bool" where
  "ends_at ts to seen k = snd (electionTick (fst (seen k)) ts to (snd (seen k)))"

lemma timer_loop_step:
  "timer_loop ts to seen k =
     (if ends_at ts to seen k then Some (fst (electionTick (fst (seen k)) ts to (snd (seen k))), k)
      else timer_loop ts to seen (Suc k))"
  by (subst timer_loop.simps) (simp add: Let_def ends_at_def)

lemma ends_at_iff:
  "ends_at ts to seen k \<longleftrightarrow> cm_state (snd (seen k)) \<notin> {Candidate, Follower} \<or> ts \<noteq> cm_currentTerm (snd (seen k)) \<or>
     to \<le> fst (seen k) - cm_electionResetEvent (snd (seen k))"
  by (auto simp: ends_at_def electionTick_def)

text \<open>The loop ends at the first tick that ends it, and never if there is none.\<close>

lemma timer_loop_first:
  assumes "\<And>i. i < d \<Longrightarrow> \<not> ends_at ts to seen (k + i)" and "ends_at ts to seen (k + d)"
  shows "timer_loop ts to seen k =
    Some (fst (electionTick (fst (seen (k + d))) ts to (snd (seen (k + d)))), k + d)"
  using assms
proof (induction d arbitrary: k)
  case 0
  then show ?case by (subst timer_loop_step) simp
next
  case (Suc d)
  have "\<not> ends_at ts to seen k" using Suc.prems(1) [of 0] by simp
  moreover have "\<not> ends_at ts to seen (Suc k + i)" if "i < d" for i
    using Suc.prems(1) [of "Suc i"] that by simp
  ultimately show ?case using Suc.IH [of "Suc k"] Suc.prems(2) by (subst timer_loop_step) simp
qed

lemma timer_loop_returns:
  "timer_loop ts to seen k = Some r \<Longrightarrow> \<exists>d. ends_at ts to seen (k + d)"
proof (rule timer_loop.raw_induct [where P = "\<lambda>ts to seen k r. \<exists>d. ends_at ts to seen (k + d)"])
  fix loop ts to k r and seen :: "nat \<Rightarrow> int \<times> 'a ConsensusModule"
  assume IH: "\<And>ts to (seen :: nat \<Rightarrow> int \<times> 'a ConsensusModule) k r.
      loop ts to seen k = Some r \<Longrightarrow> \<exists>d. ends_at ts to seen (k + d)"
    and run: "(let r = electionTick (fst (seen k)) ts to (snd (seen k))
      in if snd r then Some (fst r, k) else loop ts to seen (Suc k)) = Some r"
  show "\<exists>d. ends_at ts to seen (k + d)"
  proof (cases "ends_at ts to seen k")
    case True
    then show ?thesis by (intro exI [of _ 0]) simp
  next
    case False
    with run have "loop ts to seen (Suc k) = Some r" by (simp add: ends_at_def Let_def)
    then obtain d where "ends_at ts to seen (Suc k + d)" using IH by blast
    then show ?thesis by (intro exI [of _ "Suc d"]) simp
  qed
qed

lemma timer_loop_total:
  assumes "ends_at ts to seen (k + n)"
  obtains d where "d \<le> n" and "ends_at ts to seen (k + d)" and "\<And>i. i < d \<Longrightarrow> \<not> ends_at ts to seen (k + i)"
    and "timer_loop ts to seen k = Some (fst (electionTick (fst (seen (k + d))) ts to (snd (seen (k + d)))), k + d)"
proof -
  let ?d = "LEAST d. ends_at ts to seen (k + d)"
  have "ends_at ts to seen (k + ?d)" and "?d \<le> n" using assms by (rule LeastI, rule Least_le)
  moreover have "\<And>i. i < ?d \<Longrightarrow> \<not> ends_at ts to seen (k + i)" by (rule not_less_Least)
  ultimately show thesis using that timer_loop_first [of ?d ts to seen k] by metis
qed

text \<open>
  A module that waits in term \<open>t\<close> for a leader, and what the timer sees while it hears of one
  or of none.
\<close>

definition waits_in :: "int \<Rightarrow> 's ConsensusModule \<Rightarrow> bool" where
  "waits_in t cm \<longleftrightarrow> cm_state cm \<in> {Candidate, Follower} \<and> cm_currentTerm cm = t"

lemma timer_hears_leader:
  assumes "0 \<le> r" and "\<And>k. waits_in (cm_currentTerm cm) (snd (seen k))"
    and "\<And>k. fst (seen k) - cm_electionResetEvent (snd (seen k)) < 150"
  shows "runElectionTimer r cm seen = None"
proof (rule ccontr)
  assume "runElectionTimer r cm seen \<noteq> None"
  then obtain d where "ends_at (cm_currentTerm cm) (electionTimeout r) seen d"
    using timer_loop_returns by (fastforce simp: runElectionTimer_def)
  with assms(1) assms(2,3) [of d] show False by (auto simp: ends_at_iff waits_in_def electionTimeout_def)
qed

text \<open>Ticks are at least 10 ms apart, so 30 of them are longer than any timeout.\<close>

lemma timer_hears_nothing:
  assumes "r < 150" and "\<And>i. i \<le> 30 \<Longrightarrow> waits_in (cm_currentTerm cm) (snd (seen (k + i)))"
    and "\<And>i. i \<le> 30 \<Longrightarrow> cm_electionResetEvent (snd (seen (k + i))) + 10 * int i \<le> fst (seen (k + i))"
  obtains j where "j \<le> k + 30" and "ends_at (cm_currentTerm cm) (electionTimeout r) seen j"
    and "runElectionTimer r cm seen =
      Some (fst (electionTick (fst (seen j)) (cm_currentTerm cm) (electionTimeout r) (snd (seen j))), j)"
proof -
  have "ends_at (cm_currentTerm cm) (electionTimeout r) seen (0 + (k + 30))"
    using assms(1) assms(3) [of 30] by (auto simp: ends_at_iff electionTimeout_def)
  then obtain d where "d \<le> k + 30" "ends_at (cm_currentTerm cm) (electionTimeout r) seen (0 + d)"
    "timer_loop (cm_currentTerm cm) (electionTimeout r) seen 0 =
      Some (fst (electionTick (fst (seen (0 + d))) (cm_currentTerm cm) (electionTimeout r) (snd (seen (0 + d)))), 0 + d)"
    by (rule timer_loop_total)
  with that [of d] show thesis by (simp add: runElectionTimer_def)
qed

lemma tick_starts_election:
  assumes "ends_at t to seen j" and "waits_in t (snd (seen j))"
  shows "fst (electionTick (fst (seen j)) t to (snd (seen j))) = startElection (fst (seen j)) (snd (seen j))"
    and "to \<le> fst (seen j) - cm_electionResetEvent (snd (seen j))"
  using assms by (auto simp: electionTick_def ends_at_iff waits_in_def)

section \<open>When the timer ends\<close>

text \<open>
  C18: The election timer ends exactly when it should. As long as a server waits in the term in
  which the timer was started and its reset event is at every tick less than 150 ms old, the
  timer does not return, whatever timeout it has drawn. Once the server hears nothing more, with
  ticks at least 10 ms apart, the timer returns within 30 ticks; if nothing has ended it before,
  the server is then a candidate of the next term that has voted for itself, asks every peer
  for its vote and has restarted its timer, and it has waited for at least 150 ms.
\<close>

theorem election_timer_ends:
  assumes "0 \<le> r" and "r < 150"
  shows "((\<forall>k. waits_in (cm_currentTerm cm) (snd (seen k)) \<and>
       fst (seen k) - cm_electionResetEvent (snd (seen k)) < 150) \<longrightarrow> runElectionTimer r cm seen = None) \<and>
    ((\<forall>i \<le> 30. waits_in (cm_currentTerm cm) (snd (seen (k + i))) \<and>
       cm_electionResetEvent (snd (seen (k + i))) + 10 * int i \<le> fst (seen (k + i))) \<longrightarrow>
     (\<exists>cm' j. runElectionTimer r cm seen = Some (cm', j) \<and> j \<le> k + 30 \<and>
       (k \<le> j \<longrightarrow> cm' = startElection (fst (seen j)) (snd (seen j)) \<and> cm_state cm' = Candidate \<and>
          cm_currentTerm cm' = wrap64 (cm_currentTerm cm + 1) \<and> cm_votedFor cm' = cm_id (snd (seen j)) \<and>
          (\<forall>q \<in> set (cm_peerIds (snd (seen j))).
             Go_RequestVote (cm_currentTerm cm') (cm_elections cm') q \<in> set (cm_spawned cm')) \<and>
          Go_RunElectionTimer False \<in> set (cm_spawned cm') \<and>
          150 \<le> fst (seen j) - cm_electionResetEvent (snd (seen j)))))"
    (is "(?heard \<longrightarrow> _) \<and> (?quiet \<longrightarrow> (\<exists>cm' j. ?ends cm' j))")
proof (intro conjI impI)
  show "runElectionTimer r cm seen = None" if ?heard
    using timer_hears_leader [OF assms(1)] that by blast
  show "\<exists>cm' j. ?ends cm' j" if quiet: ?quiet
  proof -
    let ?t = "cm_currentTerm cm" and ?to = "electionTimeout r"
    obtain j where j: "j \<le> k + 30" "ends_at ?t ?to seen j"
      and run: "runElectionTimer r cm seen = Some (fst (electionTick (fst (seen j)) ?t ?to (snd (seen j))), j)"
      using timer_hears_nothing [OF assms(2)] quiet by metis
    have "waits_in ?t (snd (seen j))" if "k \<le> j"
      using quiet [rule_format, of "j - k"] j(1) that by simp
    with tick_starts_election [OF j(2)] assms(1) j(1) run show ?thesis
      by (intro exI [of _ j] exI [of _ "fst (electionTick (fst (seen j)) ?t ?to (snd (seen j)))"])
        (auto simp: startElection_def Let_def electionTimeout_def waits_in_def)
  qed
qed

text \<open>A follower that hears nothing from the start, with a timeout of 200 ms and ticks of 10 ms.\<close>

theorem election_timer_ends_witness:
  "\<exists>cm' j. runElectionTimer 50 (w_cm 1) (\<lambda>k. (10 * int k, w_cm 1)) = Some (cm', j) \<and>
     cm_state cm' = Candidate \<and> cm_votedFor cm' = 1 \<and> j \<le> 30 \<and>
     runElectionTimer 50 (w_cm 1) (\<lambda>k. (0, w_cm 1)) = None"
  using election_timer_ends [of 50 "w_cm 1" "\<lambda>k. (10 * int k, w_cm 1)" 0]
    election_timer_ends [of 50 "w_cm 1" "\<lambda>k. (0, w_cm 1)" 0]
  by (auto simp: waits_in_def)

end
