(* ===== verification/Badger_Demo.thy ===== *)
theory Badger_Demo
  imports GoStrings
begin

text \<open>
  \<open>badger.go\<close>, a program of its own that tries out the database the servers keep their state in:
  it writes and reads a value, a number and a range of log records, deletes half of them, and
  panics when an answer is not the expected one. The library raft-badger is the record of its
  functions, an argument; what the program expects of it is \<open>raft_badger_ok\<close>.
\<close>

section \<open>The library\<close>

record raft_Log =
  log_Index :: "64 word"
  log_Term :: "64 word"
  log_Type :: "8 word"
  log_Data :: string

text \<open>Writes give whether they succeeded and the database afterwards, reads \<open>None\<close> for an error.\<close>

record 'b raft_badger =
  rb_DropAll :: "'b \<Rightarrow> bool \<times> 'b"
  rb_Set :: "'b \<Rightarrow> string \<Rightarrow> string \<Rightarrow> bool \<times> 'b"
  rb_Get :: "'b \<Rightarrow> string \<Rightarrow> string option"
  rb_SetUint64 :: "'b \<Rightarrow> string \<Rightarrow> 64 word \<Rightarrow> bool \<times> 'b"
  rb_GetUint64 :: "'b \<Rightarrow> string \<Rightarrow> 64 word option"
  rb_StoreLogs :: "'b \<Rightarrow> raft_Log list \<Rightarrow> bool \<times> 'b"
  rb_GetLog :: "'b \<Rightarrow> 64 word \<Rightarrow> raft_Log option"
  rb_DeleteRange :: "'b \<Rightarrow> 64 word \<Rightarrow> 64 word \<Rightarrow> bool \<times> 'b"

definition raft_badger_ok :: "'b raft_badger \<Rightarrow> bool" where
  "raft_badger_ok B \<longleftrightarrow>
     (\<forall>b. fst (rb_DropAll B b)) \<and>
     (\<forall>b k v. k \<noteq> [] \<longrightarrow> (\<exists>b'. rb_Set B b k v = (True, b') \<and> rb_Get B b' k = Some v)) \<and>
     (\<forall>b k n. k \<noteq> [] \<longrightarrow> (\<exists>b'. rb_SetUint64 B b k n = (True, b') \<and> rb_GetUint64 B b' k = Some n)) \<and>
     (\<forall>b ls. distinct (map log_Index ls) \<longrightarrow> (\<exists>b'. rb_StoreLogs B b ls = (True, b') \<and>
        (\<forall>l \<in> set ls. rb_GetLog B b' (log_Index l) = Some l))) \<and>
     (\<forall>b lo hi. \<exists>b'. rb_DeleteRange B b lo hi = (True, b') \<and>
        (\<forall>i. rb_GetLog B b' i = (if lo \<le> i \<and> i \<le> hi then None else rb_GetLog B b i)))"

lemma raft_badger_okD:
  assumes "raft_badger_ok B"
  shows "fst (rb_DropAll B b)"
    and "k \<noteq> [] \<Longrightarrow> \<exists>b'. rb_Set B b k v = (True, b') \<and> rb_Get B b' k = Some v"
    and "k \<noteq> [] \<Longrightarrow> \<exists>b'. rb_SetUint64 B b k n = (True, b') \<and> rb_GetUint64 B b' k = Some n"
    and "distinct (map log_Index ls) \<Longrightarrow> \<exists>b'. rb_StoreLogs B b ls = (True, b') \<and>
       (\<forall>l \<in> set ls. rb_GetLog B b' (log_Index l) = Some l)"
    and "\<exists>b'. rb_DeleteRange B b lo hi = (True, b') \<and>
       (\<forall>i. rb_GetLog B b' i = (if lo \<le> i \<and> i \<le> hi then None else rb_GetLog B b i))"
  using assms unfolding raft_badger_ok_def by blast+

section \<open>The program\<close>

definition checkError :: "bool \<Rightarrow> unit res" where
  "checkError ok = (if ok then Inr () else Inl (Panic Check_Error))"

text \<open>The twenty records that are stored.\<close>

definition demo_logs :: "raft_Log list" where
  "demo_logs = map (\<lambda>i. \<lparr>log_Index = word_of_nat i, log_Term = 10, log_Type = 0, log_Data = ''a''\<rparr>) [0..<20]"

text \<open>The loops that read records back and that expect deleted ones to be missing, with what they print.\<close>

fun demo_read :: "'b raft_badger \<Rightarrow> 'b \<Rightarrow> nat list \<Rightarrow> string list res" where
  "demo_read B b [] = Inr []"
| "demo_read B b (i # is) =
     (let r = rb_GetLog B b (word_of_nat i)
      in rbind (checkError (r \<noteq> None)) (\<lambda>_. rbind (deref r) (\<lambda>l. rbind (demo_read B b is) (\<lambda>out.
           Inr ((''the index of the No.'' @ Itoa i @ '' log is '' @ Itoa (unat (log_Index l))) # out)))))"

fun demo_missing :: "'b raft_badger \<Rightarrow> 'b \<Rightarrow> nat list \<Rightarrow> string list res" where
  "demo_missing B b [] = Inr []"
| "demo_missing B b (i # is) =
     (case rb_GetLog B b (word_of_nat i) of
        None \<Rightarrow> rbind (demo_missing B b is) (\<lambda>out. Inr ((''not found the No.'' @ Itoa i @ '' log'') # out))
      | Some l \<Rightarrow> Inl (Panic Check_Error))"

text \<open>\<open>opened\<close> is the database, if \<open>raftbadger.New\<close> returns no error; the result is what is printed.\<close>

definition badger_main :: "'b raft_badger \<Rightarrow> 'b option \<Rightarrow> string list res" where
  "badger_main B opened =
     (case opened of None \<Rightarrow> Inl (Panic Check_Error) | Some b0 \<Rightarrow>
      let (ok1, b1) = rb_DropAll B b0
      in rbind (checkError ok1) (\<lambda>_.
      let (ok2, b2) = rb_Set B b1 ''blog'' ''name''
      in rbind (checkError ok2) (\<lambda>_.
      let value = rb_Get B b2 ''blog''
      in rbind (checkError (value \<noteq> None)) (\<lambda>_. rbind (deref value) (\<lambda>v.
      let (ok3, b3) = rb_SetUint64 B b2 ''index'' 111
      in rbind (checkError ok3) (\<lambda>_.
      let index = rb_GetUint64 B b3 ''index''
      in rbind (checkError (index \<noteq> None)) (\<lambda>_. rbind (deref index) (\<lambda>n.
      let (ok4, b4) = rb_StoreLogs B b3 demo_logs
      in rbind (checkError ok4) (\<lambda>_.
      rbind (demo_read B b4 [0..<10]) (\<lambda>read.
      let (ok5, b5) = rb_DeleteRange B b4 0 10
      in rbind (checkError ok5) (\<lambda>_.
      rbind (demo_missing B b5 [0..<10]) (\<lambda>missing.
      let l = rb_GetLog B b5 11
      in rbind (checkError (l \<noteq> None)) (\<lambda>_. rbind (deref l) (\<lambda>last_log.
         Inr ([''value is  '' @ v, ''index is  '' @ Itoa (unat n)] @ read @ missing @
              [''get No.11 log, index is '' @ Itoa (unat (log_Index last_log))])))))))))))))))"

section \<open>It runs through\<close>

lemma demo_read_returns:
  assumes "\<And>i. i \<in> set is \<Longrightarrow> rb_GetLog B b (word_of_nat i) = Some (l i) \<and> log_Index (l i) = word_of_nat i"
    and "\<And>i. i \<in> set is \<Longrightarrow> i < 2 ^ 64"
  shows "demo_read B b is = Inr (map (\<lambda>i. ''the index of the No.'' @ Itoa i @ '' log is '' @ Itoa i) is)"
  using assms
proof (induction "is")
  case (Cons i "is")
  have "unat (log_Index (l i)) = i" using Cons.prems [of i] by (simp add: unat_of_nat)
  with Cons show ?case by (simp add: checkError_def)
qed simp

lemma demo_missing_returns:
  "(\<And>i. i \<in> set is \<Longrightarrow> rb_GetLog B b (word_of_nat i) = None) \<Longrightarrow>
   demo_missing B b is = Inr (map (\<lambda>i. ''not found the No.'' @ Itoa i @ '' log'') is)"
  by (induction "is") simp_all

lemma demo_logs_distinct: "distinct (map log_Index demo_logs)"
  by code_simp

lemma demo_logs_mem: "i < 20 \<Longrightarrow>
  \<lparr>log_Index = word_of_nat i, log_Term = 10, log_Type = 0, log_Data = ''a''\<rparr> \<in> set demo_logs"
  by (auto simp: demo_logs_def)

theorem badger_main_returns:
  assumes "raft_badger_ok B"
  shows "badger_main B (Some b) = Inr ([''value is  name'', ''index is  111''] @
    map (\<lambda>i. ''the index of the No.'' @ Itoa i @ '' log is '' @ Itoa i) [0..<10] @
    map (\<lambda>i. ''not found the No.'' @ Itoa i @ '' log'') [0..<10] @ [''get No.11 log, index is 11''])"
proof -
  let ?l = "\<lambda>i. \<lparr>log_Index = word_of_nat i, log_Term = 10, log_Type = 0, log_Data = ''a''\<rparr>"
  note ok = raft_badger_okD [OF assms]
  obtain b1 where 1: "rb_DropAll B b = (True, b1)" using ok(1) [of b] by (cases "rb_DropAll B b") simp
  obtain b2 where 2: "rb_Set B b1 ''blog'' ''name'' = (True, b2)" "rb_Get B b2 ''blog'' = Some ''name''"
    using ok(2) [of "''blog''" b1 "''name''"] by auto
  obtain b3 where 3: "rb_SetUint64 B b2 ''index'' 111 = (True, b3)" "rb_GetUint64 B b3 ''index'' = Some 111"
    using ok(3) [of "''index''" b2 111] by auto
  obtain b4 where 4: "rb_StoreLogs B b3 demo_logs = (True, b4)"
    "\<forall>l \<in> set demo_logs. rb_GetLog B b4 (log_Index l) = Some l"
    using ok(4) [OF demo_logs_distinct, of b3] by auto
  have stored: "rb_GetLog B b4 (word_of_nat i) = Some (?l i)" if "i < 20" for i
    using bspec [OF 4(2) demo_logs_mem [OF that]] by simp
  obtain b5 where 5: "rb_DeleteRange B b4 0 10 = (True, b5)"
    "\<forall>i. rb_GetLog B b5 i = (if 0 \<le> i \<and> i \<le> 10 then None else rb_GetLog B b4 i)"
    using ok(5) [of b4 0 10] by auto
  have read: "demo_read B b4 [0..<10] =
      Inr (map (\<lambda>i. ''the index of the No.'' @ Itoa i @ '' log is '' @ Itoa i) [0..<10])"
    by (rule demo_read_returns [of _ B b4 ?l]) (simp_all add: stored)
  have small: "word_of_nat i \<le> (10 :: 64 word)" if "i < 10" for i
    using that by (simp add: word_le_nat_alt unat_of_nat)
  have missing: "demo_missing B b5 [0..<10] = Inr (map (\<lambda>i. ''not found the No.'' @ Itoa i @ '' log'') [0..<10])"
    by (rule demo_missing_returns) (use 5(2) small in simp)
  have "rb_GetLog B b5 11 = Some (?l 11)" using 5(2) stored [of 11] by simp
  moreover have "Itoa 111 = ''111''" and "Itoa 11 = ''11''" by code_simp+
  ultimately show ?thesis using 1 2 3 4(1) 5(1) read missing
    by (simp add: badger_main_def checkError_def del: upt_Suc Itoa.simps)
qed

end
