(* ===== verification/Spec2Isabelle.thy ===== *)
theory Spec2Isabelle
  imports System_Properties Divergence_Properties Sync_Properties Raft_Timer Badger_Demo
begin

text \<open>
  A verification of a group chat whose five servers replicate their state with Raft, written in
  Go. Every server runs a consensus module (server/raft.go) behind a gRPC server
  (server/raft\_server.go), keeps users, groups and its raft state in two badger databases
  (server/storage.go), and serves chat clients (server/chat\_service.go, server/server\_store.go).
  A client (chat\_client/, main/client/) logs in, joins one group over a stream and posts, likes
  and prints. A request becomes a command; a leader appends the command to its log, replicates it,
  and when a majority has it every server delivers it on a channel and applies it to its database,
  then tells its streams of the group.

  How the theories correspond to the code:

  \<^item> Prelude: how a Go computation ends (a value, a panic, log.Fatal), int64 wrap-around, Go maps
    as finite maps, runs of a labelled step relation. GoStrings: the functions of strings and
    strconv that the program calls. Proto: the messages of proto/*.proto and pb/*.pb.go as
    records; a pointer is an option, a oneof a datatype, uint32 a 32-bit word.
  \<^item> Storage: server/storage.go, one definition per method, on a record of two databases. ChatSpec:
    the abstract chat (users, groups with members and posts) and the locale chat\_store, the
    contract between the store and its users. StorageSpec: the invariant, the abstraction
    function, one refinement lemma per operation and the interpretation of the locale.
    Badger\_Demo: badger.go, a program that tries out the database library.
  \<^item> Raft\_State, Raft\_Election, Raft\_Replication: server/raft.go. The record ConsensusModule has
    the fields of the Go struct; each handler, each critical section of a goroutine and each
    helper is a definition. Raft\_Steps: the module as a step relation, in which the goroutines
    that have been started run in any order, requests, replies and times are arbitrary, Submit can
    be interrupted between its append and its write, the application writes to its database
    (L\_Apply), and the process can end and be started again on its disk (L\_Restart).
    Raft\_Timer: the loop of the election timer as a whole.
  \<^item> Raft\_Votes (terms and votes, locale ballot), Raft\_Log (the merge of entries, log matching),
    Raft\_Round (one exchange between leader and follower, the commit rule), Raft\_Commit (the
    committed log and its delivery, locale ordered\_feed), Raft\_Quorum (majorities, locale
    quorum\_system), and in Raft\_State the locale stable\_state of the raft storage: one server.
    Every locale is interpreted on the definitions of the code.
  \<^item> Raft\_Calls (the calls a server has open), Raft\_Cluster (the servers with the messages
    between them: what a server handles another has sent, a reply has been given), then the proof
    that they agree: Raft\_Leaders (one leader per term), Raft\_Matching (log matching),
    Raft\_Completeness (what a majority has acknowledged is in the log of every later leader),
    Raft\_Safety (what is committed and delivered: delivered is what a server has sent on the
    channel since it was last started, ever\_delivered what it has sent in its life), Raft\_Bounds
    (indices of a leader), Raft\_Alive (no handler panics), Raft\_Wellformed (ranges of the
    fields), Raft\_Validity (submissions). Raft\_Progress and Raft\_Recovery construct executions:
    replication under a leader without a rival, and from any state an election. Raft\_Exec: an
    executable scheduler, sound for the step relation, with which Cluster\_Examples computes
    executions of five servers.
  \<^item> Broadcast\_Spec: the abstract ordered broadcast, in which a receiver takes the next messages
    of one log or begins again, the locale simulation, and its interpretation on the cluster.
  \<^item> Go\_Sync: a mutex and channels, the locale lock\_discipline. Server\_Sync: for each goroutine
    of a server the order of its locks, unlocks, sends and receives, as a program.
  \<^item> RaftServer: server/raft\_server.go with persistData and the loop of commitEntries.
    RaftServerSpec: the commands as abstract operations and the refinement of persistData.
    Chat\_System: the running system, in which the servers of the cluster have the channel of
    committed commands between commitChanSender and commitEntries, the database commitEntries
    writes, and the channel of the broadcaster, and a server that is restarted gets its channels
    and connections anew; in\_step is its invariant.
  \<^item> ServerStore (locale conn\_table), ChatService, ChatServiceSpec: server/server\_store.go and
    server/chat\_service.go. ClientStore (locale client\_store, the Go interface ClientStore),
    ClientService: chat\_client/. MainPrograms: main/server and main/client. ClientSpec: what
    typed lines and printed groups mean.
  \<^item> Examples and Cluster\_Examples: the concrete states and executions of the witnesses. The
    properties are in the theories whose names end in Properties, in Raft\_Timer and here.

  What the properties show. Safety of the cluster: one leader per term, log matching, leader
  completeness, no conflicting deliveries in the whole life of the servers, each submission
  delivered at most once between two starts of a server, replicas that agree, indices in range, no
  panic; the deliveries, restarts included, refine an ordered broadcast; the database of every
  server is at any time what a prefix of one log produces, applied once for every start. Progress:
  a leader without a rival can get every command delivered everywhere, and from every state some
  execution elects one; these are statements that an execution exists, the code promises no more.
  From end to end: a line typed at a client has its effect in every database, and the started
  programs form the cluster and the running system. Application: committed commands refine the
  abstract chat. Persistence: what is answered is stored, a restart restores it, and the entries
  committed before are delivered again. The timer: it ends when it should. Synchronisation:
  critical sections are exclusive, which is what makes one section one step in the rest of the
  development.

  The schedules of the cluster properties. A step of the cluster is a critical section whose
  goroutine acts in time: a vote reply is handled in its term, a leader is started by a candidate
  that still has its majority, requests are sent by the leader of their term and append replies
  handled in the term of their request, and a server restarts when its disk holds the term, the
  vote and the log of its memory (prompt in Raft\_Votes, timely in Raft\_Cluster). The code does
  not check this. That the assumptions are needed is shown in Divergence\_Properties: with all
  other steps in time, a late leader start, a late append reply, a late vote reply or an early
  restart makes two servers deliver different commands at one index. The restart does so in two
  ways: a server that has voted but has no log forgets its vote, and a leader that is ended
  between the append in Submit, which releases the mutex, and the write of its state loses an
  entry that it has counted itself for. When the disk does hold the memory is what
  Restart\_Properties shows: after every call that has been answered, once there is a log. Terms
  stay below the largest int64.

  Other behaviours that depart from what the code means to do are properties too: a deposed leader
  that panics, a leader that waits for its own heartbeat loop with the mutex held, a client that
  stops a server by not reading, messages posted again after a restart, groups that overwrite
  users.

  Assumptions on code outside the repository are the hypotheses deps\_ok (the databases return
  what was written, writes under a non-empty key succeed, copies are faithful) and
  raft\_badger\_ok (the same for the functions badger.go calls), the reply values of RPCs and the
  states of connections (arguments), and the group id a join draws (an argument). The database
  mem\_deps satisfies deps\_ok and is used by the witnesses. Posts of a group are counted by a
  32-bit key, so the refinement of a post needs fewer than 4294967296 posts (max\_posts); the
  properties of the running system assume that so many commands are not applied (room), and that
  the commands submitted are well formed (submitted\_ok: a group to be joined has a name that is
  not a numeral or empty, a post has an author), since others can end a server or overwrite a
  user. No recursion needs fuel: the loops of the code that end are recursive functions, the
  election timer is a partial function of what it sees, and the other endless loops are modelled
  by their turns.

  Not modelled: in the step relation a channel send completes at once (Server\_Sync has the states
  in which it does not), persistData is one step, and memory shared without the mutex is read and
  written in whole steps; time other than the comparison of the election timer; printing formats;
  the generated gRPC code and the reflection and getters of the generated messages that the
  program does not call. The write of the state in Submit and a forwarded Submit are one step
  each, and other goroutines run between the append and the write only as whole sections.
\<close>

section \<open>From the program to the cluster\<close>

lemma server_main_cases:
  assumes "server_main D open_db G listen i = Inr chat"
  obtains s where "NewServer D open_db G i (server_IP i) = Inr s" and "raft_of chat = srv_cm s"
    and "srv_ready_closed (cs_raft chat)" and "srv_commitChan (cs_raft chat) = []" and "srv_broadcast (cs_raft chat) = []"
  using assms
  by (auto simp: server_main_def NewChatServiceServer_def NewServer_def Serve_def Let_def split: if_splits)

lemma server_main_returns:
  assumes "listen (server_IP i)" and "NewServer D open_db G i (server_IP i) = Inr s" and "\<not> srv_ready_closed s"
  shows "\<exists>chat. server_main D open_db G listen i = Inr chat \<and> raft_of chat = srv_cm s"
  using assms by (simp add: server_main_def NewChatServiceServer_def Serve_def Let_def)

lemma new_server_fresh:
  assumes "NewServer D open_db G i addr = Inr s" and "HasData D (cm_storage (srv_cm s)) = Inr False"
  shows "fresh_cm (srv_cm s)"
  using assms
  by (auto simp: NewServer_def Let_def ConnectAllPeers_def NewConsensusModule_def init_cm_def fresh_cm_def
      restoreFromStorage_def tracked_calls_def pending_def spawn_def split: if_splits)

text \<open>
  C16: The five server programs form the cluster. Five processes started with the ids 1 to 5 on
  databases without a log are an initial state of the cluster, and, if their databases of users
  and groups are in order and hold the same chat, of the running system, so everything proved of
  reachable states and of executions holds of them; each has closed the channel its main loop waits
  for, and the majorities that each of them counts are the sets of at least three servers.
\<close>

theorem programs_form_cluster:
  assumes "\<forall>i \<in> {1..5}. server_main D (open_db i) G listen i = Inr (chat i)"
    and "\<forall>i \<in> {1..5}. HasData D (cm_storage (raft_of (chat i))) = Inr False"
  shows "reach D {1..5} \<lparr>net_cm = \<lambda>i. raft_of (chat i), net_hist = \<lambda>_. [], net_led = {}, net_logs = Map.empty\<rparr> \<and>
    (\<forall>i \<in> {1..5}. srv_ready_closed (cs_raft (chat i)) \<and>
       (\<forall>A \<subseteq> {1..5}. is_quorum (raft_of (chat i)) A \<longleftrightarrow> 3 \<le> card A)) \<and>
    (\<forall>c. (\<forall>i \<in> {1..5}. disk_ok D (cm_storage (raft_of (chat i))) \<and> abs_store D (cm_storage (raft_of (chat i))) = c) \<longrightarrow>
       sys_init D {1..5} c \<lparr>sys_server = \<lambda>i. cs_raft (chat i),
         sys_net = \<lparr>net_cm = \<lambda>i. raft_of (chat i), net_hist = \<lambda>_. [], net_led = {}, net_logs = Map.empty\<rparr>\<rparr>)"
proof -
  have each: "member {1..5} i (raft_of (chat i)) \<and> fresh_cm (raft_of (chat i)) \<and>
      srv_ready_closed (cs_raft (chat i)) \<and> srv_commitChan (cs_raft (chat i)) = [] \<and>
      srv_broadcast (cs_raft (chat i)) = [] \<and> (\<forall>A \<subseteq> {1..5}. is_quorum (raft_of (chat i)) A \<longleftrightarrow> 3 \<le> card A)"
    if i: "i \<in> {1..5}" for i
  proof -
    obtain s where s: "NewServer D (open_db i) G i (server_IP i) = Inr s" and raft: "raft_of (chat i) = srv_cm s"
      and ready: "srv_ready_closed (cs_raft (chat i))" "srv_commitChan (cs_raft (chat i)) = []"
        "srv_broadcast (cs_raft (chat i)) = []"
      by (rule server_main_cases [OF assms(1) [rule_format, OF i]])
    have "1 \<le> i" "i \<le> 5" using i by simp_all
    moreover have "HasData D (cm_storage (srv_cm s)) = Inr False" using assms(2) i raft by metis
    ultimately show ?thesis
      using new_server_sound [OF s] new_server_fresh [OF s] NewServer_cases(2) [OF s] ready
      by (simp add: raft member_def)
  qed
  then have init: "net_init {1..5} \<lparr>net_cm = \<lambda>i. raft_of (chat i), net_hist = \<lambda>_. [], net_led = {}, net_logs = Map.empty\<rparr>"
    by (simp add: net_init_def)
  have "sys_init D {1..5} c \<lparr>sys_server = \<lambda>i. cs_raft (chat i),
      sys_net = \<lparr>net_cm = \<lambda>i. raft_of (chat i), net_hist = \<lambda>_. [], net_led = {}, net_logs = Map.empty\<rparr>\<rparr>"
    if "\<forall>i \<in> {1..5}. disk_ok D (cm_storage (raft_of (chat i))) \<and> abs_store D (cm_storage (raft_of (chat i))) = c" for c
    using that each init by (simp add: sys_init_def)
  with reach_init [OF init] each show ?thesis by blast
qed

theorem programs_form_cluster_witness:
  "\<exists>chat :: int \<Rightarrow> (string \<rightharpoonup> gob, string, nat) ChatServiceServer.
     (\<forall>i \<in> {1..5}. server_main mem_deps (\<lambda>_. Some Map.empty) w_net (\<lambda>_. True) i = Inr (chat i)) \<and>
     reach mem_deps {1..5} \<lparr>net_cm = \<lambda>i. raft_of (chat i), net_hist = \<lambda>_. [], net_led = {}, net_logs = Map.empty\<rparr>"
proof -
  have "\<exists>chat :: (string \<rightharpoonup> gob, string, nat) ChatServiceServer.
      server_main mem_deps (\<lambda>_. Some Map.empty) w_net (\<lambda>_. True) i = Inr chat \<and>
      HasData mem_deps (cm_storage (raft_of chat)) = Inr False" for i
  proof -
    obtain s where s: "NewServer mem_deps (\<lambda>_. Some Map.empty) w_net i (server_IP i) = Inr s"
      and has: "HasData mem_deps (cm_storage (srv_cm s)) = Inr False" and "\<not> srv_ready_closed s"
      by (rule w_new_server)
    then obtain chat :: "(string \<rightharpoonup> gob, string, nat) ChatServiceServer"
      where "server_main mem_deps (\<lambda>_. Some Map.empty) w_net (\<lambda>_. True) i = Inr chat" "raft_of chat = srv_cm s"
      using server_main_returns [of "\<lambda>_. True", OF TrueI s] by blast
    with has show ?thesis by (intro exI [of _ chat]) simp
  qed
  then obtain chat :: "int \<Rightarrow> (string \<rightharpoonup> gob, string, nat) ChatServiceServer"
    where "\<forall>i. server_main mem_deps (\<lambda>_. Some Map.empty) w_net (\<lambda>_. True) i = Inr (chat i) \<and>
      HasData mem_deps (cm_storage (raft_of (chat i))) = Inr False"
    using choice [of "\<lambda>i c. server_main mem_deps (\<lambda>_. Some Map.empty) w_net (\<lambda>_. True) i = Inr c \<and>
      HasData mem_deps (cm_storage (raft_of c)) = Inr False"] by blast
  with programs_form_cluster [of mem_deps "\<lambda>_ _. Some Map.empty" w_net "\<lambda>_. True" chat] show ?thesis by blast
qed

end
